(* ===== verification/Prelude.thy ===== *)
theory Prelude
  imports Main "HOL-Library.Word"
begin

text \<open>
  Shared vocabulary of the development: how a C or C++ function can end (a value or a fault),
  32-bit signed arithmetic, bounded reads and writes of arrays, and step systems with their
  reachable states. Every component theory imports this one.
\<close>

section \<open>Outcomes of C and C++ code\<close>

text \<open>
  The server is built with \<^verbatim>\<open>CMAKE_BUILD_TYPE=Debug\<close> (build.sh), so every
  \<^verbatim>\<open>assert\<close> is compiled in and a false one aborts the process. Undefined behaviour is
  a fault of its own kind, so that a theorem can say that it does not happen.
\<close>

datatype ub = Signed_overflow | Out_of_bounds | Bad_pointer | Division_by_zero | Uninitialised

datatype fault =
    Assertion                \<comment> \<open>a failed \<^verbatim>\<open>assert\<close>\<close>
  | Exit int                 \<comment> \<open>a call of \<^verbatim>\<open>exit\<close>\<close>
  | Exception string         \<comment> \<open>a C++ exception that leaves the function\<close>
  | Undefined ub             \<comment> \<open>undefined behaviour\<close>
  | Starved                  \<comment> \<open>the listed answers of the environment are used up\<close>

type_synonym 'a result = "fault + 'a"

named_theorems result_iff \<comment> \<open>inversion of successful results\<close>
named_theorems bytes_simps \<comment> \<open>array reads and writes\<close>

definition rbind :: "'a result \<Rightarrow> ('a \<Rightarrow> 'b result) \<Rightarrow> 'b result" where
  "rbind m f = (case m of Inl e \<Rightarrow> Inl e | Inr x \<Rightarrow> f x)"

lemma rbind_simps [simp]: "rbind (Inl e) f = Inl e" "rbind (Inr x) f = f x"
  by (simp_all add: rbind_def)

lemma rbind_eq_Inr [result_iff]: "rbind m f = Inr y \<longleftrightarrow> (\<exists>x. m = Inr x \<and> f x = Inr y)"
  by (cases m) simp_all

lemma rbind_eq_Inl [result_iff]:
  "rbind m f = Inl e \<longleftrightarrow> m = Inl e \<or> (\<exists>x. m = Inr x \<and> f x = Inl e)"
  by (cases m) simp_all

definition c_assert :: "bool \<Rightarrow> unit result" where
  "c_assert b = (if b then Inr () else Inl Assertion)"

lemma c_assert_simps [simp]: "c_assert True = Inr ()" "c_assert False = Inl Assertion"
  by (simp_all add: c_assert_def)

lemma c_assert_eq [result_iff]: "c_assert b = Inr u \<longleftrightarrow> b" "c_assert b = Inl e \<longleftrightarrow> \<not> b \<and> e = Assertion"
  by (auto simp: c_assert_def)

text \<open>The value a pointer points to: a null or dangling pointer is undefined behaviour.\<close>

definition deref :: "'v option \<Rightarrow> 'v result" where
  "deref x = (case x of None \<Rightarrow> Inl (Undefined Bad_pointer) | Some v \<Rightarrow> Inr v)"

lemma deref_simps [simp]: "deref None = Inl (Undefined Bad_pointer)" "deref (Some v) = Inr v"
  by (simp_all add: deref_def)

lemma deref_eq [result_iff]: "deref x = Inr v \<longleftrightarrow> x = Some v"
  by (cases x) simp_all

text \<open>The value of a variable that may not have been initialised.\<close>

definition read_var :: "'v option \<Rightarrow> 'v result" where
  "read_var v = (case v of None \<Rightarrow> Inl (Undefined Uninitialised) | Some x \<Rightarrow> Inr x)"

lemma read_var_simps [simp]: "read_var None = Inl (Undefined Uninitialised)" "read_var (Some v) = Inr v"
  by (simp_all add: read_var_def)

lemma read_var_eq [result_iff]: "read_var x = Inr v \<longleftrightarrow> x = Some v"
  by (cases x) simp_all

definition is_undefined :: "'a result \<Rightarrow> bool" where
  "is_undefined r = (case r of Inl (Undefined _) \<Rightarrow> True | _ \<Rightarrow> False)"

lemma is_undefined_simps [simp]:
  "\<not> is_undefined (Inr x)" "is_undefined (Inl (Undefined u))" "\<not> is_undefined (Inl Assertion)"
  "\<not> is_undefined (Inl (Exit n))" "\<not> is_undefined (Inl (Exception m))" "\<not> is_undefined (Inl Starved)"
  by (simp_all add: is_undefined_def)

text \<open>What holds of the value when a computation ends with one; the rules follow its structure.\<close>

definition post :: "('a \<Rightarrow> bool) \<Rightarrow> 'a result \<Rightarrow> bool" where
  "post P r \<longleftrightarrow> (\<forall>x. r = Inr x \<longrightarrow> P x)"

named_theorems post_intros

lemma post_if [post_intros]: "(c \<Longrightarrow> post P a) \<Longrightarrow> (\<not> c \<Longrightarrow> post P b) \<Longrightarrow> post P (if c then a else b)"
  by simp

lemma post_Inl [post_intros]: "post P (Inl e)"
  by (simp add: post_def)

lemma post_Inr [post_intros]: "P x \<Longrightarrow> post P (Inr x)"
  by (simp add: post_def)

lemma post_rbind: "post Q m \<Longrightarrow> (\<And>x. Q x \<Longrightarrow> post P (f x)) \<Longrightarrow> post P (rbind m f)"
  by (auto simp: post_def result_iff)

lemma post_elim: "post P r \<Longrightarrow> r = Inr x \<Longrightarrow> P x"
  by (simp add: post_def)

section \<open>32-bit signed integers\<close>

text \<open>
  A C \<^verbatim>\<open>int\<close> is modelled by \<^typ>\<open>int\<close>; where the code adds or subtracts values that
  nothing bounds, the result goes through \<open>cint\<close>, which faults outside the 32-bit range.
\<close>

abbreviation INT_MAX :: int where "INT_MAX \<equiv> 2147483647"
abbreviation INT_MIN :: int where "INT_MIN \<equiv> - 2147483648"

definition cint :: "int \<Rightarrow> int result" where
  "cint x = (if INT_MIN \<le> x \<and> x \<le> INT_MAX then Inr x else Inl (Undefined Signed_overflow))"

lemma cint_in_range [simp]: "INT_MIN \<le> x \<Longrightarrow> x \<le> INT_MAX \<Longrightarrow> cint x = Inr x"
  by (simp add: cint_def)

lemma cint_eq [result_iff]: "cint x = Inr y \<longleftrightarrow> INT_MIN \<le> x \<and> x \<le> INT_MAX \<and> y = x"
  by (auto simp: cint_def)

section \<open>Arrays of bytes\<close>

text \<open>
  An array is a list. A cell of freshly allocated memory is indeterminate: a byte array is a
  list of \<^typ>\<open>char option\<close> with \<^const>\<open>None\<close> for a byte that was never written. Reads and
  writes outside the array fault.
\<close>

type_synonym bytes = "char option list"

definition splice_at :: "nat \<Rightarrow> 'a list \<Rightarrow> 'a list \<Rightarrow> 'a list" where
  "splice_at off src dst = take off dst @ src @ drop (off + length src) dst"

definition mem_read :: "int \<Rightarrow> int \<Rightarrow> 'a list \<Rightarrow> 'a list result" where
  "mem_read off n xs =
     (if 0 \<le> off \<and> 0 \<le> n \<and> off + n \<le> int (length xs)
      then Inr (take (nat n) (drop (nat off) xs)) else Inl (Undefined Out_of_bounds))"

definition mem_write :: "int \<Rightarrow> 'a list \<Rightarrow> 'a list \<Rightarrow> 'a list result" where
  "mem_write off src dst =
     (if 0 \<le> off \<and> off + int (length src) \<le> int (length dst)
      then Inr (splice_at (nat off) src dst) else Inl (Undefined Out_of_bounds))"

lemma length_splice_at [simp]:
  "off + length src \<le> length dst \<Longrightarrow> length (splice_at off src dst) = length dst"
  by (simp add: splice_at_def)

lemma take_splice_at [bytes_simps]:
  "off + length src \<le> length dst \<Longrightarrow> take (off + length src) (splice_at off src dst) = take off dst @ src"
  by (simp add: splice_at_def)

lemma take_splice_at_0 [bytes_simps]: "take (length src) (splice_at 0 src dst) = src"
  by (simp add: splice_at_def)

lemma mem_read_ok:
  "0 \<le> off \<Longrightarrow> 0 \<le> n \<Longrightarrow> off + n \<le> int (length xs) \<Longrightarrow>
   mem_read off n xs = Inr (take (nat n) (drop (nat off) xs))"
  by (simp add: mem_read_def)

lemma mem_write_ok:
  "0 \<le> off \<Longrightarrow> off + int (length src) \<le> int (length dst) \<Longrightarrow>
   mem_write off src dst = Inr (splice_at (nat off) src dst)"
  by (simp add: mem_write_def)

lemma mem_read_eq [result_iff]:
  "mem_read off n xs = Inr ys \<longleftrightarrow>
     0 \<le> off \<and> 0 \<le> n \<and> off + n \<le> int (length xs) \<and> ys = take (nat n) (drop (nat off) xs)"
  by (auto simp: mem_read_def)

lemma mem_write_eq [result_iff]:
  "mem_write off src dst = Inr ys \<longleftrightarrow>
     0 \<le> off \<and> off + int (length src) \<le> int (length dst) \<and> ys = splice_at (nat off) src dst"
  by (auto simp: mem_write_def)

section \<open>Step systems\<close>

text \<open>
  Code that several threads run is a step relation on the shared state; a property of every
  interleaving is an invariant of its reachable states.
\<close>

inductive reach :: "('s \<Rightarrow> bool) \<Rightarrow> ('s \<Rightarrow> 's \<Rightarrow> bool) \<Rightarrow> 's \<Rightarrow> bool" for start step where
  reach_start: "start s \<Longrightarrow> reach start step s"
| reach_step: "reach start step s \<Longrightarrow> step s t \<Longrightarrow> reach start step t"

locale step_system =
  fixes start :: "'s \<Rightarrow> bool" and step :: "'s \<Rightarrow> 's \<Rightarrow> bool" and inv :: "'s \<Rightarrow> bool"
  assumes inv_start: "start s \<Longrightarrow> inv s"
    and inv_step: "inv s \<Longrightarrow> step s t \<Longrightarrow> inv t"
begin

lemma reach_inv: "reach start step s \<Longrightarrow> inv s"
  by (induction rule: reach.induct) (blast intro: inv_start inv_step)+

lemma steps_inv: "step\<^sup>*\<^sup>* s t \<Longrightarrow> inv s \<Longrightarrow> inv t"
  by (induction rule: rtranclp_induct) (blast intro: inv_step)+

end

lemma reach_steps:
  assumes "step\<^sup>*\<^sup>* s t" "reach start step s"
  shows "reach start step t"
  using assms by (induction rule: rtranclp_induct) (blast intro: reach_step)+

end
