(* ===== verification/Chunk.thy ===== *)
theory Chunk
  imports Prelude
begin

text \<open>
  The memory chunk (src/memory/chunk.h, chunk.cpp): a byte array of fixed capacity with a window
  \<open>[head, head + length)\<close> of pending bytes and the link of the pool's free list. Each member
  function is a function on the record; the lemmas give the effect on the window.
\<close>

section \<open>The struct and its member functions\<close>

type_synonym addr = nat

record chunk =
  ck_capacity :: int
  ck_length :: int
  ck_head :: int
  ck_data :: bytes
  ck_next :: "addr option"

text \<open>The constructor: \<^verbatim>\<open>new char[size]\<close> throws on a negative size and when the heap has no room for the
  array (\<open>room\<close> is false), and leaves the bytes indeterminate.\<close>

definition chunk_new :: "bool \<Rightarrow> int \<Rightarrow> chunk result" where
  "chunk_new room sz =
     (if sz < 0 then Inl (Exception ''bad_array_new_length'')
      else if \<not> room then Inl (Exception ''bad_alloc'')
      else Inr \<lparr>ck_capacity = sz, ck_length = 0, ck_head = 0,
                ck_data = replicate (nat sz) None, ck_next = None\<rparr>)"

definition chunk_clear :: "chunk \<Rightarrow> chunk" where
  "chunk_clear c = c\<lparr>ck_head := 0, ck_length := 0\<rparr>"

definition chunk_adjust :: "chunk \<Rightarrow> chunk result" where
  "chunk_adjust c =
     (if ck_head c \<noteq> 0 then
        (if ck_length c \<noteq> 0 then
           rbind (mem_read (ck_head c) (ck_length c) (ck_data c)) (\<lambda>src.
           rbind (mem_write 0 src (ck_data c)) (\<lambda>d.
           Inr (c\<lparr>ck_data := d, ck_head := 0\<rparr>)))
         else Inr (c\<lparr>ck_head := 0\<rparr>))
      else Inr c)"

definition chunk_copy :: "chunk \<Rightarrow> chunk \<Rightarrow> chunk result" where
  "chunk_copy c other =
     rbind (mem_read (ck_head other) (ck_length other) (ck_data other)) (\<lambda>src.
     rbind (mem_write 0 src (ck_data c)) (\<lambda>d.
     Inr (c\<lparr>ck_data := d, ck_head := 0, ck_length := ck_length other\<rparr>)))"

definition chunk_pop :: "chunk \<Rightarrow> int \<Rightarrow> chunk result" where
  "chunk_pop c len =
     rbind (cint (ck_length c - len)) (\<lambda>l.
     rbind (cint (ck_head c + len)) (\<lambda>h.
     Inr (c\<lparr>ck_length := l, ck_head := h\<rparr>)))"

text \<open>The bytes \<^verbatim>\<open>print_data\<close> prints before the newline: the loop runs \<^verbatim>\<open>i\<close> from
  \<^verbatim>\<open>head\<close> while \<^verbatim>\<open>i < length\<close>.\<close>

definition chunk_print_data :: "chunk \<Rightarrow> bytes result" where
  "chunk_print_data c =
     (if ck_head c < ck_length c
      then mem_read (ck_head c) (ck_length c - ck_head c) (ck_data c) else Inr [])"

section \<open>The window of pending bytes\<close>

definition chunk_ok :: "chunk \<Rightarrow> bool" where
  "chunk_ok c \<longleftrightarrow> 0 \<le> ck_head c \<and> 0 \<le> ck_length c \<and> ck_head c + ck_length c \<le> ck_capacity c \<and>
     int (length (ck_data c)) = ck_capacity c \<and> ck_capacity c \<le> INT_MAX"

definition chunk_bytes :: "chunk \<Rightarrow> bytes" where
  "chunk_bytes c = take (nat (ck_length c)) (drop (nat (ck_head c)) (ck_data c))"

lemma length_chunk_bytes: "chunk_ok c \<Longrightarrow> int (length (chunk_bytes c)) = ck_length c"
  by (auto simp: chunk_ok_def chunk_bytes_def)

lemma chunk_ok_next [simp]: "chunk_ok (c\<lparr>ck_next := p\<rparr>) = chunk_ok c"
  by (simp add: chunk_ok_def)

lemma chunk_bytes_next [simp]: "chunk_bytes (c\<lparr>ck_next := p\<rparr>) = chunk_bytes c"
  by (simp add: chunk_bytes_def)

lemma chunk_new_ok:
  "0 \<le> sz \<Longrightarrow> sz \<le> INT_MAX \<Longrightarrow>
   \<exists>c. chunk_new True sz = Inr c \<and> chunk_ok c \<and> ck_capacity c = sz \<and> ck_length c = 0 \<and>
       ck_head c = 0 \<and> ck_next c = None"
  by (simp add: chunk_new_def chunk_ok_def)

lemma chunk_clear_ok: "chunk_ok c \<Longrightarrow> chunk_ok (chunk_clear c) \<and> chunk_bytes (chunk_clear c) = []"
  by (simp add: chunk_ok_def chunk_clear_def chunk_bytes_def)

lemma chunk_adjust_ok:
  assumes "chunk_ok c"
  shows "\<exists>c'. chunk_adjust c = Inr c' \<and> chunk_ok c' \<and> ck_head c' = 0 \<and>
     ck_length c' = ck_length c \<and> ck_capacity c' = ck_capacity c \<and> ck_next c' = ck_next c \<and>
     chunk_bytes c' = chunk_bytes c"
proof (cases "ck_head c \<noteq> 0 \<and> ck_length c \<noteq> 0")
  case True
  let ?src = "chunk_bytes c" and ?d = "splice_at 0 (chunk_bytes c) (ck_data c)"
  have len: "int (length ?src) = ck_length c" by (rule length_chunk_bytes[OF assms])
  have "mem_read (ck_head c) (ck_length c) (ck_data c) = Inr ?src"
    using assms by (simp add: chunk_ok_def mem_read_ok chunk_bytes_def)
  moreover have "mem_write 0 ?src (ck_data c) = Inr ?d"
    using assms len by (simp add: chunk_ok_def mem_write_ok)
  ultimately have "chunk_adjust c = Inr (c\<lparr>ck_data := ?d, ck_head := 0\<rparr>)"
    using True by (simp add: chunk_adjust_def)
  moreover have "take (nat (ck_length c)) ?d = ?src"
    using take_splice_at_0[of ?src "ck_data c"] len by (metis nat_int)
  ultimately show ?thesis
    using assms len by (simp add: chunk_ok_def chunk_bytes_def[of "c\<lparr>ck_data := ?d, ck_head := 0\<rparr>"])
next
  case False
  with assms show ?thesis by (auto simp: chunk_adjust_def chunk_ok_def chunk_bytes_def)
qed

lemma chunk_copy_ok:
  assumes "chunk_ok c" "chunk_ok other" "ck_length other \<le> ck_capacity c"
  shows "\<exists>c'. chunk_copy c other = Inr c' \<and> chunk_ok c' \<and> ck_head c' = 0 \<and>
     ck_length c' = ck_length other \<and> ck_capacity c' = ck_capacity c \<and> ck_next c' = ck_next c \<and>
     chunk_bytes c' = chunk_bytes other"
proof -
  let ?src = "chunk_bytes other" and ?d = "splice_at 0 (chunk_bytes other) (ck_data c)"
  have len: "int (length ?src) = ck_length other" by (rule length_chunk_bytes[OF assms(2)])
  have "mem_read (ck_head other) (ck_length other) (ck_data other) = Inr ?src"
    using assms by (simp add: chunk_ok_def mem_read_ok chunk_bytes_def)
  moreover have "mem_write 0 ?src (ck_data c) = Inr ?d"
    using assms len by (simp add: chunk_ok_def mem_write_ok)
  moreover have "take (nat (ck_length other)) ?d = ?src"
    using take_splice_at_0[of ?src "ck_data c"] len by (metis nat_int)
  ultimately show ?thesis
    using assms len
    by (simp add: chunk_copy_def chunk_ok_def
        chunk_bytes_def[of "c\<lparr>ck_data := ?d, ck_head := 0, ck_length := ck_length other\<rparr>"])
qed

lemma chunk_pop_ok:
  assumes "chunk_ok c" "0 \<le> n" "n \<le> ck_length c"
  shows "\<exists>c'. chunk_pop c n = Inr c' \<and> chunk_ok c' \<and> ck_head c' = ck_head c + n \<and>
     ck_length c' = ck_length c - n \<and> ck_capacity c' = ck_capacity c \<and> ck_next c' = ck_next c \<and>
     chunk_bytes c' = drop (nat n) (chunk_bytes c)"
  using assms
  by (auto simp: chunk_pop_def chunk_ok_def chunk_bytes_def drop_take nat_diff_distrib nat_add_distrib
      add.commute)

section \<open>Properties of the chunk\<close>

definition chunk_example :: chunk where
  "chunk_example = \<lparr>ck_capacity = 4, ck_length = 2, ck_head = 1,
     ck_data = [Some CHR ''a'', Some CHR ''b'', Some CHR ''c'', None], ck_next = None\<rparr>"

text \<open>
  The member functions are operations on the window of pending bytes: \<^verbatim>\<open>pop\<close> drops a
  prefix of it, \<^verbatim>\<open>adjust\<close> moves it to the front of the array without changing it, and
  \<^verbatim>\<open>copy\<close> reproduces another chunk's window when it fits. None of them touches memory outside the
  array, and each keeps the window inside it.
\<close>

theorem chunk_window:
  assumes "chunk_ok c" "chunk_ok d" "0 \<le> n" "n \<le> ck_length c" "ck_length d \<le> ck_capacity c"
  shows "(\<exists>c'. rbind (chunk_pop c n) chunk_adjust = Inr c' \<and> chunk_ok c' \<and> ck_head c' = 0 \<and>
       chunk_bytes c' = drop (nat n) (chunk_bytes c)) \<and>
     (\<exists>c'. chunk_copy c d = Inr c' \<and> chunk_ok c' \<and> ck_head c' = 0 \<and> ck_capacity c' = ck_capacity c \<and>
       chunk_bytes c' = chunk_bytes d) \<and>
     chunk_ok (chunk_clear c) \<and> chunk_bytes (chunk_clear c) = []"
proof -
  obtain p where p: "chunk_pop c n = Inr p" "chunk_ok p" "chunk_bytes p = drop (nat n) (chunk_bytes c)"
    using chunk_pop_ok[OF assms(1,3,4)] by blast
  then show ?thesis
    using chunk_adjust_ok[OF p(2)] chunk_copy_ok[OF assms(1,2,5)] chunk_clear_ok[OF assms(1)] by auto
qed

theorem chunk_window_witness:
  "\<exists>c'. rbind (chunk_pop chunk_example 1) chunk_adjust = Inr c' \<and> chunk_bytes c' = [Some CHR ''c'']"
proof -
  have "chunk_ok chunk_example" by (simp add: chunk_ok_def chunk_example_def)
  from chunk_window[OF this this, of 1] show ?thesis
    by (auto simp: chunk_example_def chunk_bytes_def)
qed

text \<open>
  The debug printer loses bytes: its loop bound is \<^verbatim>\<open>length\<close> where the window ends at
  \<^verbatim>\<open>head + length\<close>, so it prints the first \<open>length - head\<close> bytes of the window, the whole
  window only when \<^verbatim>\<open>head\<close> is 0 or the window is empty.
\<close>

theorem print_data_truncates:
  assumes "chunk_ok c"
  shows "chunk_print_data c = Inr (take (nat (ck_length c - ck_head c)) (chunk_bytes c)) \<and>
     (chunk_print_data c = Inr (chunk_bytes c) \<longleftrightarrow> ck_head c = 0 \<or> ck_length c = 0)"
proof -
  have p: "chunk_print_data c = Inr (take (nat (ck_length c - ck_head c)) (chunk_bytes c))"
    using assms by (auto simp: chunk_print_data_def chunk_ok_def chunk_bytes_def mem_read_ok min_def)
  have len: "length (chunk_bytes c) = nat (ck_length c)" using length_chunk_bytes[OF assms] by simp
  have "take (nat (ck_length c - ck_head c)) (chunk_bytes c) = chunk_bytes c \<longleftrightarrow>
      nat (ck_length c) \<le> nat (ck_length c - ck_head c)"
    using len by (metis length_take min.absorb_iff1 take_all_iff)
  then show ?thesis using p assms by (auto simp: chunk_ok_def)
qed

theorem print_data_truncates_witness:
  "chunk_print_data chunk_example = Inr [Some CHR ''b''] \<and> chunk_bytes chunk_example = [Some CHR ''b'', Some CHR ''c'']"
proof -
  have "chunk_ok chunk_example" by (simp add: chunk_ok_def chunk_example_def)
  from print_data_truncates[OF this] show ?thesis by (simp add: chunk_example_def chunk_bytes_def)
qed

end
