(* ===== verification/Mem_Pool.thy ===== *)
theory Mem_Pool
  imports Chunk
begin

text \<open>
  The memory pool (src/memory/mem_pool.h, mem_pool.cpp): six free lists of chunks, one per
  capacity, linked through \<^verbatim>\<open>Chunk::next\<close>, with counters of the memory owned and the memory
  left. The C++ heap is an explicit store from addresses to chunks, so that sharing and
  dangling pointers are visible. \<open>pool_ok mp fl out\<close> relates a pool to the addresses on its
  free lists and the addresses handed out; every operation keeps it.
\<close>

section \<open>The C++ heap and the pool's state\<close>

text \<open>
  \<open>st_budget\<close> is the number of chunks that can still be allocated. A chunk takes two allocations, the
  object and its array; \<open>st_nothrow\<close> says which of them is the first to fail. The object comes from
  \<^verbatim>\<open>new (std::nothrow)\<close>, which returns a null pointer; the array from \<^verbatim>\<open>new char[size]\<close> in the constructor,
  which throws, and nobody catches. The callers exit on a null pointer, so nothing after a failed
  allocation matters.
\<close>

record store =
  st_heap :: "addr \<rightharpoonup> chunk"
  st_fresh :: addr
  st_budget :: nat
  st_nothrow :: bool

datatype MEM_CAP = m4K | m16K | m64K | m256K | m1M | m4M

fun cap_value :: "MEM_CAP \<Rightarrow> int" where
  "cap_value m4K = 4096"
| "cap_value m16K = 4096 * 4"
| "cap_value m64K = 4096 * 4 * 4"
| "cap_value m256K = 4096 * 4 * 4 * 4"
| "cap_value m1M = 4096 * 4 * 4 * 4 * 4"
| "cap_value m4M = 4096 * 4 * 4 * 4 * 4 * 4"

abbreviation mLow :: MEM_CAP where "mLow \<equiv> m4K"
abbreviation mUp :: MEM_CAP where "mUp \<equiv> m4M"

abbreviation MAX_POOL_SIZE :: "64 word" where "MAX_POOL_SIZE \<equiv> 4 * 1024 * 1024"

record mempool = store +
  mp_pool :: "int \<rightharpoonup> addr option"
  mp_total_size_kb :: "64 word"
  mp_left_size_kb :: "64 word"

text \<open>\<^verbatim>\<open>new (std::nothrow) Chunk(size)\<close>.\<close>

definition new_chunk :: "int \<Rightarrow> mempool \<Rightarrow> (addr option \<times> mempool) result" where
  "new_chunk sz mp =
     (if st_budget mp = 0 \<and> st_nothrow mp then Inr (None, mp)
      else rbind (chunk_new (st_budget mp \<noteq> 0) sz) (\<lambda>c.
        Inr (Some (st_fresh mp),
             mp\<lparr>st_heap := (st_heap mp)(st_fresh mp \<mapsto> c), st_fresh := st_fresh mp + 1,
                st_budget := st_budget mp - 1\<rparr>)))"

text \<open>How the process ends for lack of memory: an exit, or the exception.\<close>

abbreviation out_of_memory :: "fault \<Rightarrow> bool" where
  "out_of_memory f \<equiv> f \<in> {Exit 1, Exception ''bad_alloc''}"

abbreviation no_memory :: "'a result \<Rightarrow> bool" where
  "no_memory r \<equiv> r \<in> {Inl (Exit 1), Inl (Exception ''bad_alloc'')}"

definition heap_fault :: "'a store_scheme \<Rightarrow> fault" where
  "heap_fault mp = (if st_nothrow mp then Exit 1 else Exception ''bad_alloc'')"

text \<open>\<^verbatim>\<open>mp_pool[index]\<close>: \<^verbatim>\<open>unordered_map::operator[]\<close> inserts a null pointer for a missing key.\<close>

definition pool_ref :: "int \<Rightarrow> mempool \<Rightarrow> addr option \<times> mempool" where
  "pool_ref index mp =
     (case mp_pool mp index of
        None \<Rightarrow> (None, mp\<lparr>mp_pool := (mp_pool mp)(index \<mapsto> None)\<rparr>)
      | Some p \<Rightarrow> (p, mp))"

section \<open>Construction\<close>

text \<open>The \<^verbatim>\<open>for\<close> loop of \<^verbatim>\<open>mem_init\<close>, with the number of iterations left.\<close>

fun mem_init_loop :: "int \<Rightarrow> addr \<Rightarrow> nat \<Rightarrow> mempool \<Rightarrow> mempool result" where
  "mem_init_loop sz prev 0 mp = Inr mp"
| "mem_init_loop sz prev (Suc k) mp =
     rbind (new_chunk sz mp) (\<lambda>(p, mp).
     rbind (deref (st_heap mp prev)) (\<lambda>c.
     let mp = mp\<lparr>st_heap := (st_heap mp)(prev \<mapsto> c\<lparr>ck_next := p\<rparr>)\<rparr> in
     case p of None \<Rightarrow> Inl (Exit 1)
     | Some a \<Rightarrow> mem_init_loop sz a k mp))"

definition mem_init :: "MEM_CAP \<Rightarrow> int \<Rightarrow> mempool \<Rightarrow> mempool result" where
  "mem_init cap chunk_num mp =
     (let sz = cap_value cap in
      rbind (new_chunk sz mp) (\<lambda>(p, mp).
      let mp = mp\<lparr>mp_pool := (mp_pool mp)(sz \<mapsto> p)\<rparr> in
      case p of None \<Rightarrow> Inl (Exit 1)
      | Some prev \<Rightarrow>
        rbind (mem_init_loop sz prev (nat (chunk_num - 1)) mp) (\<lambda>mp.
        Inr (mp\<lparr>mp_total_size_kb := mp_total_size_kb mp + word_of_int (sz div 1024 * chunk_num)\<rparr>))))"

definition mempool_new :: "nat \<Rightarrow> bool \<Rightarrow> mempool result" where
  "mempool_new budget nothrow =
     (let mp = \<lparr>st_heap = Map.empty, st_fresh = 0, st_budget = budget, st_nothrow = nothrow, mp_pool = Map.empty,
                mp_total_size_kb = 0, mp_left_size_kb = 0\<rparr> in
      rbind (mem_init m4K 2000 mp) (\<lambda>mp.
      rbind (mem_init m16K 500 mp) (\<lambda>mp.
      rbind (mem_init m64K 250 mp) (\<lambda>mp.
      rbind (mem_init m256K 100 mp) (\<lambda>mp.
      rbind (mem_init m1M 25 mp) (\<lambda>mp.
      rbind (mem_init m4M 10 mp) (\<lambda>mp.
      Inr (mp\<lparr>mp_left_size_kb := mp_total_size_kb mp\<rparr>))))))))"

section \<open>Allocation and return\<close>

text \<open>
  The search loop of \<^verbatim>\<open>alloc_chunk\<close>. It starts at \<^verbatim>\<open>mLow\<close> and multiplies the index by 4, so
  the index is positive; the conjunct says so for the termination proof.
\<close>

function find_index :: "int \<Rightarrow> int \<Rightarrow> int option" where
  "find_index n index =
     (if 0 < index \<and> index \<le> cap_value mUp
      then (if n \<le> index then Some index else find_index n (index * 4))
      else None)"
  by pat_completeness auto
termination
  by (relation "measure (\<lambda>(n, index). nat (cap_value mUp + 1 - index))") auto

declare find_index.simps [simp del]

definition alloc_chunk :: "int \<Rightarrow> mempool \<Rightarrow> (addr option \<times> mempool) result" where
  "alloc_chunk n mp =
     (case find_index n (cap_value mLow) of
        None \<Rightarrow> Inr (None, mp)
      | Some index \<Rightarrow>
        (case pool_ref index mp of
           (None, mp) \<Rightarrow>
             (if mp_total_size_kb mp + word_of_int (index div 1024) \<ge> MAX_POOL_SIZE
              then Inl (Exit 1)
              else rbind (new_chunk index mp) (\<lambda>(new_buf, mp).
                case new_buf of None \<Rightarrow> Inl (Exit 1)
                | Some a \<Rightarrow> Inr (Some a, mp\<lparr>mp_total_size_kb :=
                              mp_total_size_kb mp + word_of_int (index div 1024)\<rparr>)))
         | (Some target, mp) \<Rightarrow>
             rbind (deref (st_heap mp target)) (\<lambda>t.
             Inr (Some target,
                  mp\<lparr>mp_pool := (mp_pool mp)(index \<mapsto> ck_next t),
                     st_heap := (st_heap mp)(target \<mapsto> t\<lparr>ck_next := None\<rparr>),
                     mp_left_size_kb := mp_left_size_kb mp - word_of_int (index div 1024)\<rparr>))))"

definition alloc_chunk_default :: "mempool \<Rightarrow> (addr option \<times> mempool) result" where
  "alloc_chunk_default mp = alloc_chunk (cap_value m4K) mp"

definition retrieve :: "addr \<Rightarrow> mempool \<Rightarrow> mempool result" where
  "retrieve block mp =
     rbind (deref (st_heap mp block)) (\<lambda>b.
     let index = ck_capacity b; b = b\<lparr>ck_length := 0, ck_head := 0\<rparr> in
     rbind (c_assert (mp_pool mp index \<noteq> None)) (\<lambda>_.
     case pool_ref index mp of (p, mp) \<Rightarrow>
       Inr (mp\<lparr>st_heap := (st_heap mp)(block \<mapsto> b\<lparr>ck_next := p\<rparr>),
               mp_pool := (mp_pool mp)(index \<mapsto> Some block),
               mp_left_size_kb := mp_left_size_kb mp + word_of_int (ck_capacity b div 1024)\<rparr>)))"

section \<open>Debug queries\<close>

text \<open>
  Both queries walk a free list to its end. The walk need not return on a cyclic list, so it
  yields \<^const>\<open>None\<close> for "does not return".
\<close>

partial_function (option) list_size_loop ::
  "(addr \<rightharpoonup> chunk) \<Rightarrow> addr option \<Rightarrow> int \<Rightarrow> int result option" where
  "list_size_loop h node sz =
     (case node of None \<Rightarrow> Some (Inr sz)
      | Some a \<Rightarrow> (case h a of None \<Rightarrow> Some (Inl (Undefined Bad_pointer))
        | Some c \<Rightarrow> (case cint (sz + ck_capacity c) of Inl e \<Rightarrow> Some (Inl e)
          | Inr sz' \<Rightarrow> list_size_loop h (ck_next c) sz')))"

definition get_list_size_byte :: "MEM_CAP \<Rightarrow> mempool \<Rightarrow> int result option" where
  "get_list_size_byte cap mp =
     (case mp_pool mp (cap_value cap) of
        None \<Rightarrow> Some (Inl Assertion)
      | Some p \<Rightarrow> list_size_loop (st_heap mp) p 0)"

partial_function (option) print_list_loop ::
  "(addr \<rightharpoonup> chunk) \<Rightarrow> addr option \<Rightarrow> nat \<Rightarrow> bytes list \<Rightarrow> (bytes list \<times> nat) result option" where
  "print_list_loop h node cnt acc =
     (case node of None \<Rightarrow> Some (Inr (acc, cnt))
      | Some a \<Rightarrow> (case h a of None \<Rightarrow> Some (Inl (Undefined Bad_pointer))
        | Some c \<Rightarrow>
          (case (if cnt \<le> 5 then chunk_print_data c else Inr []) of Inl e \<Rightarrow> Some (Inl e)
           | Inr bs \<Rightarrow> print_list_loop h (ck_next c) (cnt + 1) (if cnt \<le> 5 then acc @ [bs] else acc))))"

definition print_list_content :: "MEM_CAP \<Rightarrow> mempool \<Rightarrow> (bytes list \<times> nat) result option" where
  "print_list_content cap mp =
     (case mp_pool mp (cap_value cap) of
        None \<Rightarrow> Some (Inl Assertion)
      | Some p \<Rightarrow> print_list_loop (st_heap mp) p 0 [])"

definition get_total_size_kb :: "mempool \<Rightarrow> int" where
  "get_total_size_kb mp = sint (ucast (mp_total_size_kb mp) :: 32 word)"

definition get_left_size_kb :: "mempool \<Rightarrow> int" where
  "get_left_size_kb mp = sint (ucast (mp_left_size_kb mp) :: 32 word)"

section \<open>Free lists and the pool's invariant\<close>

definition caps :: "int list" where
  "caps = map cap_value [m4K, m16K, m64K, m256K, m1M, m4M]"

lemma set_caps: "set caps = {4096, 16384, 65536, 262144, 1048576, 4194304}"
  by (simp add: caps_def)

lemma caps_bounds: "c \<in> set caps \<Longrightarrow> 4096 \<le> c \<and> c \<le> 4194304"
  by (auto simp: set_caps)

lemma caps_unat_kb: "c \<in> set caps \<Longrightarrow> unat (word_of_int (c div 1024) :: 64 word) = nat (c div 1024)"
  by (auto simp: set_caps)

lemma find_index_cases:
  "find_index n 4096 =
     (if n \<le> 4096 then Some 4096 else if n \<le> 16384 then Some 16384 else if n \<le> 65536 then Some 65536
      else if n \<le> 262144 then Some 262144 else if n \<le> 1048576 then Some 1048576
      else if n \<le> 4194304 then Some 4194304 else None)"
  by (simp add: find_index.simps)

lemma find_index_Some:
  "find_index n 4096 = Some c \<Longrightarrow> c \<in> set caps \<and> n \<le> c \<and> (\<forall>d \<in> set caps. n \<le> d \<longrightarrow> c \<le> d)"
  by (auto simp: find_index_cases set_caps split: if_splits)

lemma find_index_None: "find_index n 4096 = None \<longleftrightarrow> 4194304 < n"
  by (auto simp: find_index_cases)

text \<open>A chain of \<^verbatim>\<open>next\<close> pointers from \<open>p\<close> through exactly the addresses of a list.\<close>

fun chain :: "(addr \<rightharpoonup> chunk) \<Rightarrow> addr option \<Rightarrow> addr list \<Rightarrow> bool" where
  "chain h p [] \<longleftrightarrow> p = None"
| "chain h p (a # as) \<longleftrightarrow> p = Some a \<and> (\<exists>c. h a = Some c \<and> chain h (ck_next c) as)"

lemma chain_None [simp]: "chain h None as \<longleftrightarrow> as = []"
  by (cases as) simp_all

lemma chain_Some: "chain h (Some a) as \<longleftrightarrow> (\<exists>c bs. as = a # bs \<and> h a = Some c \<and> chain h (ck_next c) bs)"
  by (cases as) auto

lemma chain_upd [simp]: "a \<notin> set as \<Longrightarrow> chain (h(a := v)) p as = chain h p as"
  by (induction as arbitrary: p) auto

lemma chain_cong: "(\<And>a. a \<in> set as \<Longrightarrow> h a = h' a) \<Longrightarrow> chain h p as = chain h' p as"
  by (induction as arbitrary: p) auto

definition free_chunk :: "int \<Rightarrow> chunk \<Rightarrow> bool" where
  "free_chunk cap c \<longleftrightarrow> chunk_ok c \<and> ck_capacity c = cap \<and> ck_length c = 0 \<and> ck_head c = 0"

definition used_chunk :: "chunk \<Rightarrow> bool" where
  "used_chunk c \<longleftrightarrow> chunk_ok c \<and> ck_capacity c \<in> set caps"

text \<open>
  Shape: over the capacities \<open>cs\<close> the pool's lists are chains through \<open>fl\<close>, of free chunks of
  that capacity, without repetition; the chunks of \<open>out\<close> are handed out; there are no others.
\<close>

definition pool_shape :: "int set \<Rightarrow> mempool \<Rightarrow> (int \<Rightarrow> addr list) \<Rightarrow> addr set \<Rightarrow> bool" where
  "pool_shape cs mp fl out \<longleftrightarrow>
     (\<forall>c \<in> cs. \<exists>p. mp_pool mp c = Some p \<and> chain (st_heap mp) p (fl c)) \<and>
     (\<forall>c \<in> cs. \<forall>a \<in> set (fl c). a \<notin> out \<and> (\<exists>k. st_heap mp a = Some k \<and> free_chunk c k)) \<and>
     (\<forall>c \<in> cs. distinct (fl c)) \<and>
     (\<forall>a \<in> out. \<exists>k. st_heap mp a = Some k \<and> used_chunk k) \<and>
     finite out \<and> dom (st_heap mp) = out \<union> (\<Union>c \<in> cs. set (fl c)) \<and>
     (\<forall>a \<in> dom (st_heap mp). a < st_fresh mp)"

definition free_kb :: "(int \<Rightarrow> addr list) \<Rightarrow> nat" where
  "free_kb fl = (\<Sum>c \<leftarrow> caps. nat (c div 1024) * length (fl c))"

definition out_kb :: "(addr \<rightharpoonup> chunk) \<Rightarrow> addr set \<Rightarrow> nat" where
  "out_kb h out = (\<Sum>a \<in> out. nat (ck_capacity (the (h a)) div 1024))"

text \<open>Accounting: \<^verbatim>\<open>mp_left_size_kb\<close> is the memory on the free lists, \<^verbatim>\<open>mp_total_size_kb\<close> all of it.\<close>

definition pool_acct :: "mempool \<Rightarrow> (int \<Rightarrow> addr list) \<Rightarrow> addr set \<Rightarrow> bool" where
  "pool_acct mp fl out \<longleftrightarrow>
     unat (mp_left_size_kb mp) = free_kb fl \<and>
     unat (mp_total_size_kb mp) = free_kb fl + out_kb (st_heap mp) out \<and>
     unat (mp_total_size_kb mp) < 4194304"

definition pool_ok :: "mempool \<Rightarrow> (int \<Rightarrow> addr list) \<Rightarrow> addr set \<Rightarrow> bool" where
  "pool_ok mp fl out \<longleftrightarrow> pool_shape (set caps) mp fl out \<and> pool_acct mp fl out"

lemma free_kb_upd:
  "c \<in> set caps \<Longrightarrow>
   free_kb (fl(c := xs)) + nat (c div 1024) * length (fl c) = free_kb fl + nat (c div 1024) * length xs"
  by (auto simp: free_kb_def caps_def set_caps)

lemma free_kb_push:
  "c \<in> set caps \<Longrightarrow> free_kb (fl(c := a # fl c)) = free_kb fl + nat (c div 1024)"
  using free_kb_upd[of c fl "a # fl c"] by simp

lemma free_kb_pop:
  "c \<in> set caps \<Longrightarrow> fl c = a # as \<Longrightarrow> free_kb fl = free_kb (fl(c := as)) + nat (c div 1024)"
  using free_kb_upd[of c fl "as"] by simp

lemma out_kb_upd [simp]: "a \<notin> out \<Longrightarrow> out_kb (h(a := v)) out = out_kb h out"
  by (auto simp: out_kb_def intro!: sum.cong)

lemma out_kb_insert:
  "finite out \<Longrightarrow> a \<notin> out \<Longrightarrow> h a = Some c \<Longrightarrow>
   out_kb h (insert a out) = nat (ck_capacity c div 1024) + out_kb h out"
  by (simp add: out_kb_def)

lemma out_kb_remove:
  "finite out \<Longrightarrow> a \<in> out \<Longrightarrow> h a = Some c \<Longrightarrow>
   out_kb h out = nat (ck_capacity c div 1024) + out_kb h (out - {a})"
  by (simp add: out_kb_def sum.remove)

lemma pool_shapeD:
  assumes "pool_shape cs mp fl out"
  shows "c \<in> cs \<Longrightarrow> \<exists>p. mp_pool mp c = Some p \<and> chain (st_heap mp) p (fl c)"
    and "c \<in> cs \<Longrightarrow> a \<in> set (fl c) \<Longrightarrow> a \<notin> out"
    and "c \<in> cs \<Longrightarrow> a \<in> set (fl c) \<Longrightarrow> \<exists>k. st_heap mp a = Some k \<and> free_chunk c k"
    and "c \<in> cs \<Longrightarrow> distinct (fl c)"
    and "a \<in> out \<Longrightarrow> \<exists>k. st_heap mp a = Some k \<and> used_chunk k"
    and "finite out" and "dom (st_heap mp) = out \<union> (\<Union>c \<in> cs. set (fl c))"
    and "a \<in> dom (st_heap mp) \<Longrightarrow> a < st_fresh mp"
  using assms by (simp_all add: pool_shape_def)

text \<open>Two lists of different capacities share no chunk.\<close>

lemma free_lists_disjoint:
  assumes "pool_shape cs mp fl out" "c \<in> cs" "d \<in> cs" "a \<in> set (fl c)" "a \<in> set (fl d)"
  shows "c = d"
  using pool_shapeD(3)[OF assms(1,2,4)] pool_shapeD(3)[OF assms(1,3,5)] by (auto simp: free_chunk_def)

text \<open>A chunk that is handed out may change, as long as it stays a chunk of its capacity.\<close>

lemma pool_ok_update:
  assumes ok: "pool_ok mp fl out" and a: "a \<in> out" "st_heap mp a = Some k"
    and k': "chunk_ok k'" "ck_capacity k' = ck_capacity k"
  shows "pool_ok (mp\<lparr>st_heap := (st_heap mp)(a \<mapsto> k')\<rparr>) fl out"
proof -
  have sh: "pool_shape (set caps) mp fl out" using ok by (simp add: pool_ok_def)
  have notin: "a \<notin> set (fl c)" if "c \<in> set caps" for c
    using pool_shapeD(2)[OF sh that] a(1) by blast
  have uk: "used_chunk k" using pool_shapeD(5)[OF sh a(1)] a(2) by auto
  have "out_kb ((st_heap mp)(a \<mapsto> k')) out = out_kb (st_heap mp) out"
    using a k'(2) by (auto simp: out_kb_def intro!: sum.cong)
  moreover have "pool_shape (set caps) (mp\<lparr>st_heap := (st_heap mp)(a \<mapsto> k')\<rparr>) fl out"
    unfolding pool_shape_def
  proof (intro conjI ballI)
    fix c assume c: "c \<in> set caps"
    show "\<exists>p. mp_pool (mp\<lparr>st_heap := (st_heap mp)(a \<mapsto> k')\<rparr>) c = Some p \<and>
            chain (st_heap (mp\<lparr>st_heap := (st_heap mp)(a \<mapsto> k')\<rparr>)) p (fl c)"
      using pool_shapeD(1)[OF sh c] notin[OF c] by simp
    show "distinct (fl c)" by (rule pool_shapeD(4)[OF sh c])
    fix b assume b: "b \<in> set (fl c)"
    show "b \<notin> out" by (rule pool_shapeD(2)[OF sh c b])
    show "\<exists>k. st_heap (mp\<lparr>st_heap := (st_heap mp)(a \<mapsto> k')\<rparr>) b = Some k \<and> free_chunk c k"
      using pool_shapeD(3)[OF sh c b] notin[OF c] b by auto
  next
    fix b assume b: "b \<in> out"
    show "\<exists>k. st_heap (mp\<lparr>st_heap := (st_heap mp)(a \<mapsto> k')\<rparr>) b = Some k \<and> used_chunk k"
      using pool_shapeD(5)[OF sh b] uk k' by (auto simp: used_chunk_def)
  next
    show "finite out" by (rule pool_shapeD(6)[OF sh])
    show "dom (st_heap (mp\<lparr>st_heap := (st_heap mp)(a \<mapsto> k')\<rparr>)) = out \<union> (\<Union>c\<in>set caps. set (fl c))"
      using pool_shapeD(7)[OF sh] a by auto
    fix b assume "b \<in> dom (st_heap (mp\<lparr>st_heap := (st_heap mp)(a \<mapsto> k')\<rparr>))"
    then show "b < st_fresh (mp\<lparr>st_heap := (st_heap mp)(a \<mapsto> k')\<rparr>)"
      using pool_shapeD(8)[OF sh] a by (auto split: if_splits)
  qed
  ultimately show ?thesis using ok by (simp add: pool_ok_def pool_acct_def)
qed

section \<open>Allocation\<close>

lemma new_chunk_eq:
  assumes "c \<in> set caps"
  shows "new_chunk c mp =
     (if st_budget mp = 0 then if st_nothrow mp then Inr (None, mp) else Inl (Exception ''bad_alloc'')
      else Inr (Some (st_fresh mp),
        mp\<lparr>st_heap := (st_heap mp)(st_fresh mp \<mapsto>
              \<lparr>ck_capacity = c, ck_length = 0, ck_head = 0, ck_data = replicate (nat c) None, ck_next = None\<rparr>),
           st_fresh := st_fresh mp + 1, st_budget := st_budget mp - 1\<rparr>))"
  using caps_bounds[OF assms] by (simp add: new_chunk_def chunk_new_def)

lemma free_chunk_blank:
  "c \<in> set caps \<Longrightarrow>
   free_chunk c \<lparr>ck_capacity = c, ck_length = 0, ck_head = 0, ck_data = replicate (nat c) None, ck_next = p\<rparr>"
  by (auto simp: free_chunk_def chunk_ok_def dest: caps_bounds)

lemma free_imp_used: "c \<in> set caps \<Longrightarrow> free_chunk c k \<Longrightarrow> used_chunk k"
  by (simp add: free_chunk_def used_chunk_def)

lemma pool_ref_ok [simp]: "mp_pool mp c = Some p \<Longrightarrow> pool_ref c mp = (p, mp)"
  by (simp add: pool_ref_def)

text \<open>Taking the first chunk off a list keeps the shape, with that chunk handed out.\<close>

lemma pool_shape_take:
  assumes sh: "pool_shape (set caps) mp fl out" and c: "c \<in> set caps" and fl: "fl c = a # as"
    and t: "st_heap mp a = Some t" and ch: "chain (st_heap mp) (ck_next t) as"
  shows "pool_shape (set caps)
     (mp\<lparr>mp_pool := (mp_pool mp)(c \<mapsto> ck_next t), st_heap := (st_heap mp)(a \<mapsto> t\<lparr>ck_next := None\<rparr>),
         mp_left_size_kb := w\<rparr>) (fl(c := as)) (insert a out)"
    (is "pool_shape _ ?mp ?fl ?out")
proof -
  have dist: "distinct (a # as)" using pool_shapeD(4)[OF sh c] fl by simp
  have fr: "free_chunk c t" using pool_shapeD(3)[OF sh c, of a] fl t by simp
  have other: "a \<notin> set (fl d)" if "d \<in> set caps" "d \<noteq> c" for d
    using free_lists_disjoint[OF sh that(1) c, of a] that(2) fl by auto
  have lists: "a \<notin> set (?fl d)" if "d \<in> set caps" for d
    using dist other[OF that] by (cases "d = c") auto
  show ?thesis
    unfolding pool_shape_def
  proof (intro conjI ballI)
    fix d assume d: "d \<in> set caps"
    have "chain (st_heap mp) (if d = c then ck_next t else the (mp_pool mp d)) (?fl d)"
      using pool_shapeD(1)[OF sh d] ch by auto
    then show "\<exists>p. mp_pool ?mp d = Some p \<and> chain (st_heap ?mp) p (?fl d)"
      using lists[OF d] pool_shapeD(1)[OF sh d] by auto
    show "distinct (?fl d)" using pool_shapeD(4)[OF sh d] dist by simp
    fix b assume b: "b \<in> set (?fl d)"
    with lists[OF d] have ba: "b \<noteq> a" by auto
    from b fl have b': "b \<in> set (fl d)" by (auto split: if_splits)
    show "b \<notin> ?out" using pool_shapeD(2)[OF sh d b'] ba by simp
    show "\<exists>k. st_heap ?mp b = Some k \<and> free_chunk d k" using pool_shapeD(3)[OF sh d b'] ba by simp
  next
    fix b assume "b \<in> ?out"
    then show "\<exists>k. st_heap ?mp b = Some k \<and> used_chunk k"
      using pool_shapeD(5)[OF sh] free_imp_used[OF c fr] by (cases "b = a") (auto simp: used_chunk_def)
  next
    show "finite ?out" using pool_shapeD(6)[OF sh] by simp
    have "set (fl d) \<subseteq> insert a (set (?fl d))" "set (?fl d) \<subseteq> set (fl d)" for d
      using fl by (cases "d = c", auto)+
    moreover have "a \<in> set (fl c)" using fl by simp
    ultimately have "(\<Union>d\<in>set caps. set (fl d)) = insert a (\<Union>d\<in>set caps. set (?fl d))"
      using c by blast
    then show "dom (st_heap ?mp) = ?out \<union> (\<Union>d\<in>set caps. set (?fl d))"
      using pool_shapeD(7)[OF sh] by auto
    fix b assume "b \<in> dom (st_heap ?mp)"
    then show "b < st_fresh ?mp" using pool_shapeD(8)[OF sh] t by (auto split: if_splits)
  qed
qed

text \<open>A new chunk can be handed out at a fresh address.\<close>

lemma pool_shape_new:
  assumes sh: "pool_shape cs mp fl out" and k: "used_chunk k"
  shows "pool_shape cs (mp\<lparr>st_heap := (st_heap mp)(st_fresh mp \<mapsto> k), st_fresh := st_fresh mp + 1,
     st_budget := bu, mp_total_size_kb := w\<rparr>) fl (insert (st_fresh mp) out)"
    (is "pool_shape _ ?mp _ ?out")
proof -
  have notin: "st_fresh mp \<notin> dom (st_heap mp)" using pool_shapeD(8)[OF sh] by blast
  have lists: "st_fresh mp \<notin> set (fl d)" if "d \<in> cs" for d
    using notin pool_shapeD(7)[OF sh] that by blast
  show ?thesis
    unfolding pool_shape_def
  proof (intro conjI ballI)
    fix d assume d: "d \<in> cs"
    show "\<exists>p. mp_pool ?mp d = Some p \<and> chain (st_heap ?mp) p (fl d)"
      using pool_shapeD(1)[OF sh d] lists[OF d] by simp
    show "distinct (fl d)" by (rule pool_shapeD(4)[OF sh d])
    fix b assume b: "b \<in> set (fl d)"
    with lists[OF d] have ba: "b \<noteq> st_fresh mp" by auto
    show "b \<notin> ?out" using pool_shapeD(2)[OF sh d b] ba by simp
    show "\<exists>k. st_heap ?mp b = Some k \<and> free_chunk d k" using pool_shapeD(3)[OF sh d b] ba by simp
  next
    fix b assume "b \<in> ?out"
    then show "\<exists>k. st_heap ?mp b = Some k \<and> used_chunk k"
      using pool_shapeD(5)[OF sh] k by (cases "b = st_fresh mp") auto
  next
    show "finite ?out" using pool_shapeD(6)[OF sh] by simp
    show "dom (st_heap ?mp) = ?out \<union> (\<Union>d\<in>cs. set (fl d))"
      using pool_shapeD(7)[OF sh] by auto
    fix b assume "b \<in> dom (st_heap ?mp)"
    then show "b < st_fresh ?mp" using pool_shapeD(8)[OF sh, of b] by (fastforce simp: less_Suc_eq split: if_splits)
  qed
qed

lemma kb_le: "c \<in> set caps \<Longrightarrow> nat (c div 1024) \<le> 4096"
  by (auto simp: set_caps)

lemma unat_plus_kb:
  assumes "c \<in> set caps" "unat (w :: 64 word) < 4194304"
  shows "unat (w + word_of_int (c div 1024)) = unat w + nat (c div 1024)"
proof -
  have "unat w + unat (word_of_int (c div 1024) :: 64 word) < 2 ^ LENGTH(64)"
    using assms kb_le[OF assms(1)] by (simp add: caps_unat_kb)
  then show ?thesis using caps_unat_kb[OF assms(1)] by (simp add: unat_plus_if')
qed

lemma unat_minus_kb:
  assumes "c \<in> set caps" "nat (c div 1024) \<le> unat (w :: 64 word)"
  shows "unat (w - word_of_int (c div 1024)) = unat w - nat (c div 1024)"
  using assms caps_unat_kb[OF assms(1)] by (simp add: unat_sub word_le_nat_alt)

lemma total_limit_iff:
  assumes "c \<in> set caps" "unat (mp_total_size_kb mp) < 4194304"
  shows "mp_total_size_kb mp + word_of_int (c div 1024) \<ge> MAX_POOL_SIZE \<longleftrightarrow>
         4194304 \<le> unat (mp_total_size_kb mp) + nat (c div 1024)"
  using unat_plus_kb[OF assms] by (simp add: word_le_nat_alt)

text \<open>When a free chunk of the right capacity is at hand, \<^verbatim>\<open>alloc_chunk\<close> hands out the first one.\<close>

lemma alloc_chunk_hit:
  assumes ok: "pool_ok mp fl out" and ix: "find_index n 4096 = Some c" and fl: "fl c = a # as"
  shows "\<exists>k mp'. alloc_chunk n mp = Inr (Some a, mp') \<and> pool_ok mp' (fl(c := as)) (insert a out) \<and>
     st_heap mp' = (st_heap mp)(a \<mapsto> k) \<and> free_chunk c k \<and> ck_next k = None"
proof -
  have c: "c \<in> set caps" using find_index_Some[OF ix] by simp
  have sh: "pool_shape (set caps) mp fl out" and ac: "pool_acct mp fl out"
    using ok by (auto simp: pool_ok_def)
  obtain p where p: "mp_pool mp c = Some p" "chain (st_heap mp) p (fl c)"
    using pool_shapeD(1)[OF sh c] by blast
  with fl obtain t where t: "p = Some a" "st_heap mp a = Some t" "chain (st_heap mp) (ck_next t) as"
    by auto
  have fr: "free_chunk c t" using pool_shapeD(3)[OF sh c, of a] fl t by simp
  have aout: "a \<notin> out" using pool_shapeD(2)[OF sh c, of a] fl by simp
  let ?k = "t\<lparr>ck_next := None\<rparr>"
  let ?mp = "mp\<lparr>mp_pool := (mp_pool mp)(c \<mapsto> ck_next t), st_heap := (st_heap mp)(a \<mapsto> ?k),
       mp_left_size_kb := mp_left_size_kb mp - word_of_int (c div 1024)\<rparr>"
  have run: "alloc_chunk n mp = Inr (Some a, ?mp)"
    using ix p t by (simp add: alloc_chunk_def)
  have kb: "free_kb fl = free_kb (fl(c := as)) + nat (c div 1024)"
    by (rule free_kb_pop[where fl = fl and a = a, OF c fl])
  have okb: "out_kb ((st_heap mp)(a \<mapsto> ?k)) (insert a out) = nat (c div 1024) + out_kb (st_heap mp) out"
    using out_kb_insert[OF pool_shapeD(6)[OF sh] aout, of "(st_heap mp)(a \<mapsto> ?k)" ?k] aout fr
    by (simp add: free_chunk_def)
  have "pool_acct ?mp (fl(c := as)) (insert a out)"
    using ac kb okb unat_minus_kb[OF c, of "mp_left_size_kb mp"] by (simp add: pool_acct_def)
  then have "pool_ok ?mp (fl(c := as)) (insert a out)"
    using pool_shape_take[OF sh c fl t(2,3)] by (simp add: pool_ok_def)
  moreover have "free_chunk c ?k" using fr by (simp add: free_chunk_def)
  ultimately show ?thesis using run
    by (intro exI[of _ ?k] exI[of _ ?mp]) simp
qed

text \<open>When the list is empty, it makes a new chunk, unless the limit or the heap forbids it.\<close>

lemma alloc_chunk_miss:
  assumes ok: "pool_ok mp fl out" and ix: "find_index n 4096 = Some c" and fl: "fl c = []"
  shows "(if 4194304 \<le> unat (mp_total_size_kb mp) + nat (c div 1024) then alloc_chunk n mp = Inl (Exit 1)
     else if st_budget mp = 0 then alloc_chunk n mp = Inl (heap_fault mp)
     else \<exists>k mp'. alloc_chunk n mp = Inr (Some (st_fresh mp), mp') \<and>
       pool_ok mp' fl (insert (st_fresh mp) out) \<and> st_heap mp' = (st_heap mp)(st_fresh mp \<mapsto> k) \<and>
       free_chunk c k \<and> ck_next k = None)"
proof -
  have c: "c \<in> set caps" using find_index_Some[OF ix] by simp
  have sh: "pool_shape (set caps) mp fl out" and ac: "pool_acct mp fl out"
    using ok by (auto simp: pool_ok_def)
  have p: "mp_pool mp c = Some None" using pool_shapeD(1)[OF sh c] fl by auto
  have lim: "unat (mp_total_size_kb mp) < 4194304" using ac by (simp add: pool_acct_def)
  have aout: "st_fresh mp \<notin> out" using pool_shapeD(7,8)[OF sh] by blast
  let ?k = "\<lparr>ck_capacity = c, ck_length = 0, ck_head = 0, ck_data = replicate (nat c) None, ck_next = None\<rparr>"
  let ?mp = "mp\<lparr>st_heap := (st_heap mp)(st_fresh mp \<mapsto> ?k), st_fresh := st_fresh mp + 1,
       st_budget := st_budget mp - 1, mp_total_size_kb := mp_total_size_kb mp + word_of_int (c div 1024)\<rparr>"
  show ?thesis
  proof (cases "4194304 \<le> unat (mp_total_size_kb mp) + nat (c div 1024) \<or> st_budget mp = 0")
    case True
    then show ?thesis using ix p total_limit_iff[OF c lim]
      by (auto simp: alloc_chunk_def new_chunk_eq[OF c] heap_fault_def)
  next
    case False
    then have run: "alloc_chunk n mp = Inr (Some (st_fresh mp), ?mp)"
      using ix p total_limit_iff[OF c lim] by (auto simp: alloc_chunk_def new_chunk_eq[OF c])
    have "out_kb ((st_heap mp)(st_fresh mp \<mapsto> ?k)) (insert (st_fresh mp) out) =
        nat (c div 1024) + out_kb (st_heap mp) out"
      using out_kb_insert[OF pool_shapeD(6)[OF sh] aout, of "(st_heap mp)(st_fresh mp \<mapsto> ?k)" ?k] aout
      by simp
    then have "pool_acct ?mp fl (insert (st_fresh mp) out)"
      using ac False unat_plus_kb[OF c lim] by (simp add: pool_acct_def)
    moreover have "free_chunk c ?k" by (rule free_chunk_blank[OF c])
    ultimately have "pool_ok ?mp fl (insert (st_fresh mp) out)"
      using pool_shape_new[OF sh free_imp_used[OF c]] by (simp add: pool_ok_def)
    with run False \<open>free_chunk c ?k\<close> show ?thesis
      by (simp only: de_Morgan_disj if_False) (intro exI[of _ ?k] exI[of _ ?mp], simp)
  qed
qed

lemma alloc_chunk_too_big: "4194304 < n \<Longrightarrow> alloc_chunk n mp = Inr (None, mp)"
  by (simp add: alloc_chunk_def find_index_None[THEN iffD2])

section \<open>Return\<close>

lemma pool_shape_put:
  assumes sh: "pool_shape (set caps) mp fl out" and a: "a \<in> out" "st_heap mp a = Some k"
    and c: "c = ck_capacity k" and p: "mp_pool mp c = Some p"
  shows "pool_shape (set caps)
     (mp\<lparr>st_heap := (st_heap mp)(a \<mapsto> k\<lparr>ck_length := 0, ck_head := 0, ck_next := p\<rparr>),
         mp_pool := (mp_pool mp)(c \<mapsto> Some a), mp_left_size_kb := w\<rparr>) (fl(c := a # fl c)) (out - {a})"
    (is "pool_shape _ ?mp ?fl ?out")
proof -
  have uk: "used_chunk k" using pool_shapeD(5)[OF sh a(1)] a(2) by auto
  have cc: "c \<in> set caps" using uk c by (simp add: used_chunk_def)
  have fr: "free_chunk c (k\<lparr>ck_length := 0, ck_head := 0, ck_next := p\<rparr>)"
    using uk c by (simp add: used_chunk_def free_chunk_def chunk_ok_def)
  have notin: "a \<notin> set (fl d)" if "d \<in> set caps" for d using pool_shapeD(2)[OF sh that] a(1) by blast
  have chp: "chain (st_heap mp) p (fl c)" using pool_shapeD(1)[OF sh cc] p by auto
  show ?thesis
    unfolding pool_shape_def
  proof (intro conjI ballI)
    fix d assume d: "d \<in> set caps"
    show "\<exists>q. mp_pool ?mp d = Some q \<and> chain (st_heap ?mp) q (?fl d)"
      using pool_shapeD(1)[OF sh d] notin[OF d] notin[OF cc] chp by (cases "d = c") auto
    show "distinct (?fl d)" using pool_shapeD(4)[OF sh d] notin[OF d] by (cases "d = c") simp_all
    fix b assume b: "b \<in> set (?fl d)"
    show "b \<notin> ?out" using pool_shapeD(2)[OF sh d, of b] b by (auto split: if_splits)
    show "\<exists>k. st_heap ?mp b = Some k \<and> free_chunk d k"
    proof (cases "b = a")
      case True
      with b notin[OF d] have "d = c" by (auto split: if_splits)
      with True fr show ?thesis by simp
    next
      case False
      with b have "b \<in> set (fl d)" by (auto split: if_splits)
      with False show ?thesis using pool_shapeD(3)[OF sh d] by simp
    qed
  next
    fix b assume "b \<in> ?out"
    then show "\<exists>k. st_heap ?mp b = Some k \<and> used_chunk k" using pool_shapeD(5)[OF sh] by auto
  next
    show "finite ?out" using pool_shapeD(6)[OF sh] by simp
    show "dom (st_heap ?mp) = ?out \<union> (\<Union>d\<in>set caps. set (?fl d))"
      using pool_shapeD(7)[OF sh] a cc by (auto split: if_splits)
    fix b assume "b \<in> dom (st_heap ?mp)"
    then show "b < st_fresh ?mp" using pool_shapeD(8)[OF sh] a by (auto split: if_splits)
  qed
qed

text \<open>Returning a chunk that is handed out always succeeds and puts it at the head of its list.\<close>

lemma retrieve_ok:
  assumes ok: "pool_ok mp fl out" and a: "a \<in> out" "st_heap mp a = Some k"
  shows "\<exists>mp' k'. retrieve a mp = Inr mp' \<and>
     pool_ok mp' (fl(ck_capacity k := a # fl (ck_capacity k))) (out - {a}) \<and>
     st_heap mp' = (st_heap mp)(a \<mapsto> k')"
proof -
  let ?c = "ck_capacity k"
  have sh: "pool_shape (set caps) mp fl out" and ac: "pool_acct mp fl out"
    using ok by (auto simp: pool_ok_def)
  have "used_chunk k" using pool_shapeD(5)[OF sh a(1)] a(2) by auto
  then have c: "?c \<in> set caps" by (simp add: used_chunk_def)
  obtain p where p: "mp_pool mp ?c = Some p" using pool_shapeD(1)[OF sh c] by blast
  let ?k = "k\<lparr>ck_length := 0, ck_head := 0, ck_next := p\<rparr>"
  let ?mp = "mp\<lparr>st_heap := (st_heap mp)(a \<mapsto> ?k), mp_pool := (mp_pool mp)(?c \<mapsto> Some a),
       mp_left_size_kb := mp_left_size_kb mp + word_of_int (?c div 1024)\<rparr>"
  have run: "retrieve a mp = Inr ?mp" using a p by (simp add: retrieve_def Let_def)
  have okb: "out_kb (st_heap mp) out = nat (?c div 1024) + out_kb (st_heap mp) (out - {a})"
    by (rule out_kb_remove[OF pool_shapeD(6)[OF sh] a(1), where h = "st_heap mp", OF a(2)])
  have "unat (mp_left_size_kb mp) < 4194304" using ac by (simp add: pool_acct_def)
  then have "pool_acct ?mp (fl(?c := a # fl ?c)) (out - {a})"
    using ac okb free_kb_push[OF c] unat_plus_kb[OF c, of "mp_left_size_kb mp"] by (simp add: pool_acct_def)
  then have "pool_ok ?mp (fl(?c := a # fl ?c)) (out - {a})"
    using pool_shape_put[OF sh a refl p] by (simp add: pool_ok_def)
  with run show ?thesis by (intro exI[of _ ?mp] exI[of _ ?k]) simp
qed

section \<open>Construction establishes the invariant\<close>

abbreviation blank :: "int \<Rightarrow> addr option \<Rightarrow> chunk" where
  "blank c p \<equiv> \<lparr>ck_capacity = c, ck_length = 0, ck_head = 0, ck_data = replicate (nat c) None, ck_next = p\<rparr>"

lemma upt_fresh: "[n..<n + Suc k] = n # [Suc n..<Suc n + k]"
  by (metis add_Suc_shift less_add_Suc1 upt_conv_Cons add_Suc_right)

text \<open>\<open>linked c h h' f k\<close>: the heap \<open>h'\<close> extends \<open>h\<close> by blank chunks at \<open>f, \<dots>, f + k - 1\<close>.\<close>

definition linked :: "int \<Rightarrow> (addr \<rightharpoonup> chunk) \<Rightarrow> (addr \<rightharpoonup> chunk) \<Rightarrow> nat \<Rightarrow> nat \<Rightarrow> bool" where
  "linked c h h' f k \<longleftrightarrow> (\<forall>a. a < f \<longrightarrow> h' a = h a) \<and> (\<forall>a \<in> {f..<f + k}. \<exists>q. h' a = Some (blank c q)) \<and>
     dom h' = dom h \<union> {f..<f + k}"

lemma mem_init_loop_run:
  assumes c: "c \<in> set caps"
  shows "st_heap mp prev = Some (blank c None) \<Longrightarrow> st_fresh mp = Suc prev \<Longrightarrow> k \<le> st_budget mp \<Longrightarrow>
     \<exists>h'. mem_init_loop c prev k mp =
        Inr (mp\<lparr>st_heap := h', st_fresh := st_fresh mp + k, st_budget := st_budget mp - k\<rparr>) \<and>
       linked c (st_heap mp) h' prev (Suc k) \<and> chain h' (Some prev) [prev..<prev + Suc k]"
proof (induction k arbitrary: prev mp)
  case 0
  have "linked c (st_heap mp) (st_heap mp) prev 1"
    using 0 by (auto simp: linked_def)
  then show ?case using 0 by (intro exI[of _ "st_heap mp"]) (simp add: chain_Some)
next
  case (Suc k)
  let ?mp = "mp\<lparr>st_fresh := Suc (Suc prev), st_budget := st_budget mp - 1,
       st_heap := (st_heap mp)(Suc prev \<mapsto> blank c None, prev \<mapsto> blank c (Some (Suc prev)))\<rparr>"
  have p: "st_heap ?mp (Suc prev) = Some (blank c None)" "st_fresh ?mp = Suc (Suc prev)" "k \<le> st_budget ?mp"
    using Suc.prems by simp_all
  have "mem_init_loop c (Suc prev) k ?mp = mem_init_loop c prev (Suc k) mp"
    using Suc.prems by (simp add: new_chunk_eq[OF c])
  moreover obtain h' where h': "mem_init_loop c (Suc prev) k ?mp =
        Inr (?mp\<lparr>st_heap := h', st_fresh := st_fresh ?mp + k, st_budget := st_budget ?mp - k\<rparr>)"
      "linked c (st_heap ?mp) h' (Suc prev) (Suc k)" "chain h' (Some (Suc prev)) [Suc prev..<Suc prev + Suc k]"
    using Suc.IH[where mp = ?mp and prev = "Suc prev", OF p] by blast
  moreover have prev: "h' prev = Some (blank c (Some (Suc prev)))"
    using h'(2) by (simp add: linked_def)
  moreover have "linked c (st_heap mp) h' prev (Suc (Suc k))"
  proof -
    have "\<exists>q. h' a = Some (blank c q)" if "a \<in> {prev..<prev + Suc (Suc k)}" for a
      using that h'(2) prev by (cases "a = prev") (auto simp: linked_def)
    moreover have "h' a = st_heap mp a" if "a < prev" for a
      using that h'(2) by (simp add: linked_def)
    moreover have "dom h' = dom (st_heap mp) \<union> {prev..<prev + Suc (Suc k)}"
      using h'(2) by (auto simp: linked_def)
    ultimately show ?thesis by (simp add: linked_def)
  qed
  moreover have "chain h' (Some prev) [prev..<prev + Suc (Suc k)]"
    using h'(3) prev by (simp only: upt_fresh[of prev]) (simp del: upt_Suc)
  ultimately show ?case using Suc.prems by (intro exI[of _ h']) (simp del: upt_Suc)
qed

lemma mem_init_loop_oom:
  assumes c: "c \<in> set caps"
  shows "st_heap mp prev = Some x \<Longrightarrow> prev < st_fresh mp \<Longrightarrow> st_budget mp < k \<Longrightarrow>
     mem_init_loop c prev k mp = Inl (heap_fault mp)"
proof (induction k arbitrary: prev x mp)
  case (Suc k)
  show ?case
  proof (cases "st_budget mp = 0")
    case False
    then show ?thesis
      using Suc.prems by (simp add: new_chunk_eq[OF c]) (subst Suc.IH[where x = "blank c None"], auto simp: heap_fault_def)
  qed (use Suc.prems in \<open>simp add: new_chunk_eq[OF c] heap_fault_def\<close>)
qed simp

lemma Union_lists_insert:
  "c \<notin> cs \<Longrightarrow> (\<Union>d\<in>insert c cs. set ((fl(c := l)) d)) = set l \<union> (\<Union>d\<in>cs. set (fl d))"
  by (auto split: if_splits)

lemma cap_value_caps: "cap_value cap \<in> set caps"
  by (cases cap) (simp_all add: set_caps)

lemma mem_init_oom:
  assumes "1 \<le> num" "st_budget mp < nat num"
  shows "mem_init cap num mp = Inl (heap_fault mp)"
proof (cases "st_budget mp = 0")
  case True
  then show ?thesis by (simp add: mem_init_def new_chunk_eq[OF cap_value_caps] heap_fault_def)
next
  case False
  then show ?thesis
    using assms
    by (simp add: mem_init_def new_chunk_eq[OF cap_value_caps] mem_init_loop_oom[OF cap_value_caps] heap_fault_def)
qed

text \<open>One call of \<^verbatim>\<open>mem_init\<close> adds a list of \<open>num\<close> fresh chunks of the given capacity.\<close>

lemma mem_init_run:
  assumes sh: "pool_shape cs mp fl {}" and cap: "cap_value cap \<notin> cs"
    and num: "1 \<le> num" "nat num \<le> st_budget mp"
  shows "\<exists>mp'. mem_init cap num mp = Inr mp' \<and>
     pool_shape (insert (cap_value cap) cs) mp'
       (fl(cap_value cap := [st_fresh mp..<st_fresh mp + nat num])) {} \<and>
     st_budget mp' = st_budget mp - nat num \<and>
     mp_total_size_kb mp' = mp_total_size_kb mp + word_of_int (cap_value cap div 1024 * num) \<and>
     mp_left_size_kb mp' = mp_left_size_kb mp \<and> st_nothrow mp' = st_nothrow mp"
proof -
  let ?c = "cap_value cap" and ?f = "st_fresh mp" and ?k = "nat (num - 1)"
  let ?l = "[?f..<?f + Suc ?k]"
  have c: "?c \<in> set caps" by (rule cap_value_caps)
  have num': "nat num = Suc ?k" using num(1) by simp
  have bud: "?k \<le> st_budget mp - 1" using num num' by simp
  let ?mp = "mp\<lparr>st_heap := (st_heap mp)(?f \<mapsto> blank ?c None), st_fresh := Suc ?f, st_budget := st_budget mp - 1,
       mp_pool := (mp_pool mp)(?c \<mapsto> Some ?f)\<rparr>"
  obtain h' where h': "mem_init_loop ?c ?f ?k ?mp =
        Inr (?mp\<lparr>st_heap := h', st_fresh := st_fresh ?mp + ?k, st_budget := st_budget ?mp - ?k\<rparr>)"
      "linked ?c (st_heap ?mp) h' ?f (Suc ?k)" "chain h' (Some ?f) ?l"
    using mem_init_loop_run[OF c, where mp = ?mp and prev = ?f and k = ?k] num bud by (auto simp del: upt_Suc)
  let ?r = "?mp\<lparr>st_heap := h', st_fresh := st_fresh ?mp + ?k, st_budget := st_budget ?mp - ?k,
       mp_total_size_kb := mp_total_size_kb mp + word_of_int (?c div 1024 * num)\<rparr>"
  have run: "mem_init cap num mp = Inr ?r"
    using h'(1) num num' by (simp add: mem_init_def Let_def new_chunk_eq[OF c])
  have old: "h' a = st_heap mp a" if "a \<in> set (fl d)" "d \<in> cs" for a d
    using that pool_shapeD(7,8)[OF sh] h'(2) by (auto simp: linked_def)
  have fresh: "\<exists>k. h' a = Some k \<and> free_chunk ?c k" if "a \<in> set ?l" for a
  proof -
    from that have "a \<in> {?f..<?f + Suc ?k}" by (simp only: set_upt)
    then obtain q where "h' a = Some (blank ?c q)" using h'(2) by (auto simp only: linked_def)
    then show ?thesis using free_chunk_blank[OF c] by blast
  qed
  have "pool_shape (insert ?c cs) ?r (fl(?c := ?l)) {}"
    unfolding pool_shape_def
  proof (intro conjI ballI)
    fix d assume d: "d \<in> insert ?c cs"
    show "\<exists>p. mp_pool ?r d = Some p \<and> chain (st_heap ?r) p ((fl(?c := ?l)) d)"
    proof (cases "d = ?c")
      case True
      then show ?thesis using h'(3) by (simp del: upt_Suc)
    next
      case False
      with d have "d \<in> cs" by simp
      then show ?thesis
        using pool_shapeD(1)[OF sh \<open>d \<in> cs\<close>] False old
        by (auto simp: chain_cong[of "fl d" h' "st_heap mp"])
    qed
    show "distinct ((fl(?c := ?l)) d)" using d pool_shapeD(4)[OF sh] by (auto simp del: upt_Suc)
    fix a assume a: "a \<in> set ((fl(?c := ?l)) d)"
    show "a \<notin> {}" by simp
    show "\<exists>k. st_heap ?r a = Some k \<and> free_chunk d k"
      using d a fresh old pool_shapeD(3)[OF sh] by (cases "d = ?c") (auto simp del: upt_Suc)
  next
    have "dom h' = dom (st_heap mp) \<union> set ?l" using h'(2) by (auto simp: linked_def)
    moreover have "(\<Union>d\<in>insert ?c cs. set ((fl(?c := ?l)) d)) = set ?l \<union> (\<Union>d\<in>cs. set (fl d))"
      by (rule Union_lists_insert[OF cap])
    ultimately show "dom (st_heap ?r) = {} \<union> (\<Union>d\<in>insert ?c cs. set ((fl(?c := ?l)) d))"
      using pool_shapeD(7)[OF sh] by auto
    fix a assume "a \<in> dom (st_heap ?r)"
    then have "a \<in> dom (st_heap mp) \<or> a \<in> set ?l" using \<open>dom h' = dom (st_heap mp) \<union> set ?l\<close> by auto
    then show "a < st_fresh ?r" using pool_shapeD(8)[OF sh, of a] by (elim disjE) (simp_all del: upt_Suc)
  qed simp_all
  then show ?thesis using run num' num by (intro exI[of _ ?r]) simp
qed

text \<open>A sequence of calls of \<^verbatim>\<open>mem_init\<close>, as the constructor makes.\<close>

fun mem_inits :: "(MEM_CAP \<times> int) list \<Rightarrow> mempool \<Rightarrow> mempool result" where
  "mem_inits [] mp = Inr mp"
| "mem_inits ((cap, num) # xs) mp = rbind (mem_init cap num mp) (mem_inits xs)"

definition pool_plan :: "(MEM_CAP \<times> int) list" where
  "pool_plan = [(m4K, 2000), (m16K, 500), (m64K, 250), (m256K, 100), (m1M, 25), (m4M, 10)]"

lemma mempool_new_eq:
  "mempool_new budget nothrow =
     rbind (mem_inits pool_plan \<lparr>st_heap = Map.empty, st_fresh = 0, st_budget = budget, st_nothrow = nothrow, mp_pool = Map.empty,
       mp_total_size_kb = 0, mp_left_size_kb = 0\<rparr>)
     (\<lambda>mp. Inr (mp\<lparr>mp_left_size_kb := mp_total_size_kb mp\<rparr>))"
  by (simp add: mempool_new_def pool_plan_def rbind_def split: sum.split)

definition plan_size :: "(MEM_CAP \<times> int) list \<Rightarrow> nat" where
  "plan_size xs = (\<Sum>(cap, num) \<leftarrow> xs. nat num)"

definition plan_kb :: "(MEM_CAP \<times> int) list \<Rightarrow> 64 word" where
  "plan_kb xs = (\<Sum>(cap, num) \<leftarrow> xs. word_of_int (cap_value cap div 1024 * num))"

lemma mem_inits_oom:
  "\<forall>(cap, num) \<in> set xs. 1 \<le> num \<Longrightarrow> st_budget mp < plan_size xs \<Longrightarrow> pool_shape cs mp fl {} \<Longrightarrow>
   distinct (map (cap_value \<circ> fst) xs) \<Longrightarrow> set (map (cap_value \<circ> fst) xs) \<inter> cs = {} \<Longrightarrow>
   mem_inits xs mp = Inl (heap_fault mp)"
proof (induction xs arbitrary: mp cs fl)
  case (Cons x xs)
  obtain cap num where x: "x = (cap, num)" by (cases x)
  show ?case
  proof (cases "st_budget mp < nat num")
    case True
    then show ?thesis using Cons.prems mem_init_oom[of num mp cap] by (simp add: x)
  next
    case False
    then obtain mp' where mp': "mem_init cap num mp = Inr mp'" "st_budget mp' = st_budget mp - nat num" "st_nothrow mp' = st_nothrow mp"
        "pool_shape (insert (cap_value cap) cs) mp' (fl(cap_value cap := [st_fresh mp..<st_fresh mp + nat num])) {}"
      using mem_init_run[of cs mp fl cap num] Cons.prems by (auto simp: x)
    have "mem_inits xs mp' = Inl (heap_fault mp')"
      using Cons.prems False mp' by (intro Cons.IH[OF _ _ mp'(4)]) (auto simp: x plan_size_def)
    then show ?thesis using mp'(1,3) by (simp add: x heap_fault_def)
  qed
qed (simp add: plan_size_def)

lemma mem_inits_run:
  "\<forall>(cap, num) \<in> set xs. 1 \<le> num \<Longrightarrow> plan_size xs \<le> st_budget mp \<Longrightarrow> pool_shape cs mp fl {} \<Longrightarrow>
   distinct (map (cap_value \<circ> fst) xs) \<Longrightarrow> set (map (cap_value \<circ> fst) xs) \<inter> cs = {} \<Longrightarrow>
   \<exists>mp' fl'. mem_inits xs mp = Inr mp' \<and> pool_shape (cs \<union> set (map (cap_value \<circ> fst) xs)) mp' fl' {} \<and>
     (\<forall>(cap, num) \<in> set xs. length (fl' (cap_value cap)) = nat num) \<and> (\<forall>d \<in> cs. fl' d = fl d) \<and>
     mp_total_size_kb mp' = mp_total_size_kb mp + plan_kb xs"
proof (induction xs arbitrary: mp cs fl)
  case Nil
  then show ?case by (auto simp: plan_kb_def)
next
  case (Cons x xs)
  obtain cap num where x: "x = (cap, num)" by (cases x)
  let ?c = "cap_value cap" and ?l = "[st_fresh mp..<st_fresh mp + nat num]"
  obtain mp' where mp': "mem_init cap num mp = Inr mp'" "st_budget mp' = st_budget mp - nat num"
      "pool_shape (insert ?c cs) mp' (fl(?c := ?l)) {}"
      "mp_total_size_kb mp' = mp_total_size_kb mp + word_of_int (?c div 1024 * num)"
    using mem_init_run[of cs mp fl cap num] Cons.prems by (auto simp: x plan_size_def)
  have "\<exists>mq fq. mem_inits xs mp' = Inr mq \<and>
      pool_shape (insert ?c cs \<union> set (map (cap_value \<circ> fst) xs)) mq fq {} \<and>
      (\<forall>(cap, num) \<in> set xs. length (fq (cap_value cap)) = nat num) \<and>
      (\<forall>d \<in> insert ?c cs. fq d = (fl(?c := ?l)) d) \<and>
      mp_total_size_kb mq = mp_total_size_kb mp' + plan_kb xs"
    using Cons.prems mp'(2) by (intro Cons.IH[OF _ _ mp'(3)]) (auto simp: x plan_size_def)
  then obtain mq fq where q: "mem_inits xs mp' = Inr mq"
      "pool_shape (insert ?c cs \<union> set (map (cap_value \<circ> fst) xs)) mq fq {}"
      "\<forall>(cap, num) \<in> set xs. length (fq (cap_value cap)) = nat num"
      "\<forall>d \<in> insert ?c cs. fq d = (fl(?c := ?l)) d" "mp_total_size_kb mq = mp_total_size_kb mp' + plan_kb xs"
    by blast
  have "\<forall>d \<in> cs. fq d = fl d" using q(4) Cons.prems by (auto simp: x)
  moreover have "length (fq ?c) = nat num" using q(4) by simp
  ultimately show ?case
    using q mp' by (intro exI[of _ mq] exI[of _ fq]) (simp add: x plan_kb_def ac_simps)
qed

text \<open>The constructor: 2885 chunks, 124160 KB.\<close>

lemma pool_shape_left [simp]: "pool_shape cs (mp\<lparr>mp_left_size_kb := w\<rparr>) fl out = pool_shape cs mp fl out"
  by (simp add: pool_shape_def)

lemma mempool_new_run:
  assumes "2885 \<le> budget"
  shows "\<exists>mp fl. mempool_new budget nothrow = Inr mp \<and> pool_ok mp fl {} \<and>
     map (\<lambda>c. length (fl c)) caps = [2000, 500, 250, 100, 25, 10] \<and> mp_total_size_kb mp = 124160"
proof -
  let ?mp = "\<lparr>st_heap = Map.empty, st_fresh = 0, st_budget = budget, st_nothrow = nothrow, mp_pool = Map.empty,
                mp_total_size_kb = 0, mp_left_size_kb = 0\<rparr> :: mempool"
  have "pool_shape {} ?mp (\<lambda>_. []) {}" by (simp add: pool_shape_def)
  from mem_inits_run[OF _ _ this, of pool_plan] obtain mp fl where r: "mem_inits pool_plan ?mp = Inr mp"
      "pool_shape (set (map (cap_value \<circ> fst) pool_plan)) mp fl {}"
      "\<forall>(cap, num) \<in> set pool_plan. length (fl (cap_value cap)) = nat num"
      "mp_total_size_kb mp = plan_kb pool_plan"
    using assms by (auto simp: pool_plan_def plan_size_def)
  have len: "length (fl 4096) = 2000" "length (fl 16384) = 500" "length (fl 65536) = 250"
      "length (fl 262144) = 100" "length (fl 1048576) = 25" "length (fl 4194304) = 10"
    using r(3) by (simp_all add: pool_plan_def)
  have kb: "plan_kb pool_plan = 124160" by (simp add: plan_kb_def pool_plan_def)
  have "pool_shape (set caps) mp fl {}" using r(2) by (simp add: pool_plan_def caps_def)
  then have "pool_ok (mp\<lparr>mp_left_size_kb := mp_total_size_kb mp\<rparr>) fl {}"
    using r(4) kb len by (simp add: pool_ok_def pool_acct_def free_kb_def out_kb_def caps_def)
  moreover have "map (\<lambda>c. length (fl c)) caps = [2000, 500, 250, 100, 25, 10]"
    using len by (simp add: caps_def)
  moreover have "mempool_new budget nothrow = Inr (mp\<lparr>mp_left_size_kb := mp_total_size_kb mp\<rparr>)"
    using r(1) by (simp add: mempool_new_eq)
  moreover have "mp_total_size_kb (mp\<lparr>mp_left_size_kb := mp_total_size_kb mp\<rparr>) = 124160"
    using r(4) kb by simp
  ultimately show ?thesis
    by (intro exI[of _ "mp\<lparr>mp_left_size_kb := mp_total_size_kb mp\<rparr>"] exI[of _ fl] conjI)
qed

lemma mempool_new_oom: "budget < 2885 \<Longrightarrow> mempool_new budget nothrow = Inl (if nothrow then Exit 1 else Exception ''bad_alloc'')"
proof -
  let ?mp = "\<lparr>st_heap = Map.empty, st_fresh = 0, st_budget = budget, st_nothrow = nothrow, mp_pool = Map.empty,
                mp_total_size_kb = 0, mp_left_size_kb = 0\<rparr> :: mempool"
  assume "budget < 2885"
  moreover have "pool_shape {} ?mp (\<lambda>_. []) {}" by (simp add: pool_shape_def)
  ultimately have "mem_inits pool_plan ?mp = Inl (heap_fault ?mp)"
    by (intro mem_inits_oom[where cs = "{}" and fl = "\<lambda>_. []"]) (auto simp: pool_plan_def plan_size_def)
  then show ?thesis by (simp add: mempool_new_eq heap_fault_def)
qed

section \<open>The debug queries return\<close>

lemma list_size_loop_chain:
  assumes "chain h p as" "\<forall>a \<in> set as. \<exists>k. h a = Some k \<and> ck_capacity k = c" "0 \<le> sz" "0 \<le> c"
  shows "list_size_loop h p sz =
     (if as = [] \<or> sz + c * int (length as) \<le> INT_MAX then Some (Inr (sz + c * int (length as)))
      else Some (Inl (Undefined Signed_overflow)))"
  using assms
proof (induction as arbitrary: p sz)
  case Nil
  then show ?case by (simp add: list_size_loop.simps)
next
  case (Cons a as)
  then obtain k where k: "p = Some a" "h a = Some k" "ck_capacity k = c" "chain h (ck_next k) as"
    by auto
  show ?case
  proof (cases "sz + c \<le> INT_MAX")
    case True
    then have "list_size_loop h p sz = list_size_loop h (ck_next k) (sz + c)"
      using k Cons.prems by (subst list_size_loop.simps) simp
    moreover have "list_size_loop h (ck_next k) (sz + c) =
        (if as = [] \<or> (sz + c) + c * int (length as) \<le> INT_MAX then Some (Inr ((sz + c) + c * int (length as)))
         else Some (Inl (Undefined Signed_overflow)))"
      using Cons.prems k by (intro Cons.IH) auto
    ultimately show ?thesis using True by (auto simp: algebra_simps)
  next
    case False
    have "0 \<le> c * int (length as)" using Cons.prems(4) by simp
    moreover have "c * int (length (a # as)) = c + c * int (length as)" by (simp add: algebra_simps)
    ultimately show ?thesis using False k by (subst list_size_loop.simps) (simp add: cint_def)
  qed
qed

lemma print_list_loop_chain:
  assumes "chain h p as" "\<forall>a \<in> set as. \<exists>k. h a = Some k \<and> ck_length k = 0 \<and> ck_head k = 0"
  shows "print_list_loop h p cnt acc =
     Some (Inr (acc @ replicate (min (length as) (6 - cnt)) [], cnt + length as))"
  using assms
proof (induction as arbitrary: p cnt acc)
  case Nil
  then show ?case by (simp add: print_list_loop.simps)
next
  case (Cons a as)
  then obtain k where k: "p = Some a" "h a = Some k" "chunk_print_data k = Inr []" "chain h (ck_next k) as"
    by (auto simp: chunk_print_data_def)
  have "print_list_loop h p cnt acc =
      print_list_loop h (ck_next k) (Suc cnt) (if cnt \<le> 5 then acc @ [[]] else acc)"
    using k by (subst print_list_loop.simps) simp
  moreover have "print_list_loop h (ck_next k) (Suc cnt) acc' =
      Some (Inr (acc' @ replicate (min (length as) (6 - Suc cnt)) [], Suc cnt + length as))" for acc'
    using Cons.prems k by (intro Cons.IH) auto
  moreover have "min (length (a # as)) (6 - cnt) = (if cnt \<le> 5 then Suc (min (length as) (6 - Suc cnt)) else 0)"
    by auto
  ultimately show ?case by simp
qed

lemma debug_queries_ok:
  assumes ok: "pool_ok mp fl out"
  shows "get_list_size_byte cap mp =
       (let n = cap_value cap * int (length (fl (cap_value cap)))
        in Some (if n \<le> INT_MAX then Inr n else Inl (Undefined Signed_overflow)))" (is ?size)
    and "print_list_content cap mp =
       Some (Inr (replicate (min (length (fl (cap_value cap))) 6) [], length (fl (cap_value cap))))" (is ?content)
proof -
  let ?c = "cap_value cap"
  have sh: "pool_shape (set caps) mp fl out" using ok by (simp add: pool_ok_def)
  obtain p where p: "mp_pool mp ?c = Some p" "chain (st_heap mp) p (fl ?c)"
    using pool_shapeD(1)[OF sh cap_value_caps] by blast
  have el: "\<forall>a \<in> set (fl ?c). \<exists>k. st_heap mp a = Some k \<and> free_chunk ?c k"
    using pool_shapeD(3)[OF sh cap_value_caps] by blast
  have "\<forall>a \<in> set (fl ?c). \<exists>k. st_heap mp a = Some k \<and> ck_capacity k = ?c" "0 \<le> ?c"
    using el caps_bounds[OF cap_value_caps, of cap] by (auto simp: free_chunk_def)
  then show ?size
    using p list_size_loop_chain[OF p(2), of ?c 0] by (simp add: get_list_size_byte_def Let_def)
  have "\<forall>a \<in> set (fl ?c). \<exists>k. st_heap mp a = Some k \<and> ck_length k = 0 \<and> ck_head k = 0"
    using el by (auto simp: free_chunk_def)
  then show ?content
    using p print_list_loop_chain[OF p(2), of 0 "[]"] by (simp add: print_list_content_def)
qed

section \<open>The pool as an allocator\<close>

text \<open>
  What a client of the pool relies on, stated over abstract states. \<open>owns s as\<close> says that the
  addresses \<open>as\<close> are handed out in the state \<open>s\<close>; \<open>cell s a\<close> is the chunk at an address.
\<close>

locale chunk_allocator =
  fixes alloc :: "int \<Rightarrow> 's \<Rightarrow> (addr option \<times> 's) result"
    and release :: "addr \<Rightarrow> 's \<Rightarrow> 's result"
    and owns :: "'s \<Rightarrow> addr set \<Rightarrow> bool"
    and cell :: "'s \<Rightarrow> addr \<Rightarrow> chunk option"
  assumes alloc_fresh: "owns s as \<Longrightarrow> alloc n s = Inr (Some a, t) \<Longrightarrow>
      a \<notin> as \<and> owns t (insert a as) \<and>
      (\<exists>k. cell t a = Some k \<and> chunk_ok k \<and> n \<le> ck_capacity k \<and> ck_length k = 0 \<and> ck_head k = 0)"
    and alloc_frame: "owns s as \<Longrightarrow> alloc n s = Inr (Some a, t) \<Longrightarrow> b \<in> as \<Longrightarrow> cell t b = cell s b"
    and alloc_null: "alloc n s = Inr (None, t) \<Longrightarrow> t = s"
    and alloc_faults: "owns s as \<Longrightarrow> alloc n s = Inl e \<Longrightarrow> out_of_memory e"
    and release_ok: "owns s as \<Longrightarrow> a \<in> as \<Longrightarrow> \<exists>t. release a s = Inr t \<and> owns t (as - {a})"
    and release_frame: "owns s as \<Longrightarrow> a \<in> as \<Longrightarrow> release a s = Inr t \<Longrightarrow> b \<in> as - {a} \<Longrightarrow> cell t b = cell s b"
    and owns_cell: "owns s as \<Longrightarrow> a \<in> as \<Longrightarrow> \<exists>k. cell s a = Some k \<and> chunk_ok k"
begin

text \<open>Replacing a chunk by a larger one: the new address is distinct and the old one is given back.\<close>

lemma swap:
  assumes "owns s as" "a \<in> as" "alloc n s = Inr (Some b, t)"
  shows "\<exists>u. release a t = Inr u \<and> owns u (insert b (as - {a})) \<and> b \<noteq> a \<and> cell u b = cell t b"
proof -
  have b: "b \<notin> as" "owns t (insert b as)" using alloc_fresh[OF assms(1,3)] by auto
  obtain u where u: "release a t = Inr u" "owns u (insert b as - {a})"
    using release_ok[OF b(2)] assms(2) by auto
  have "b \<noteq> a" using b(1) assms(2) by auto
  then have "insert b as - {a} = insert b (as - {a})" by auto
  moreover have "cell u b = cell t b"
    using release_frame[OF b(2) _ u(1), of b] assms(2) \<open>b \<noteq> a\<close> by simp
  ultimately show ?thesis using u \<open>b \<noteq> a\<close> by auto
qed

end

definition pool_owns :: "mempool \<Rightarrow> addr set \<Rightarrow> bool" where
  "pool_owns mp out \<longleftrightarrow> (\<exists>fl. pool_ok mp fl out)"

lemma alloc_chunk_cases:
  assumes ok: "pool_ok mp fl out"
  shows "(4194304 < n \<and> alloc_chunk n mp = Inr (None, mp)) \<or> no_memory (alloc_chunk n mp) \<or>
     (\<exists>c a k mp'. find_index n 4096 = Some c \<and> alloc_chunk n mp = Inr (Some a, mp') \<and>
        pool_ok mp' (fl(c := tl (fl c))) (insert a out) \<and> a \<notin> out \<and>
        st_heap mp' = (st_heap mp)(a \<mapsto> k) \<and> free_chunk c k \<and> ck_next k = None)"
proof (cases "find_index n 4096")
  case None
  then show ?thesis using alloc_chunk_too_big by (simp add: find_index_None)
next
  case (Some c)
  have sh: "pool_shape (set caps) mp fl out" using ok by (simp add: pool_ok_def)
  have c: "c \<in> set caps" using find_index_Some[OF Some] by simp
  have fresh: "st_fresh mp \<notin> out" using pool_shapeD(7,8)[OF sh] by blast
  show ?thesis
  proof (cases "fl c")
    case Nil
    then have "fl(c := tl (fl c)) = fl" by auto
    then show ?thesis using alloc_chunk_miss[OF ok Some Nil] Some fresh by (auto simp: heap_fault_def split: if_splits)
  next
    case (Cons a as)
    then have "a \<notin> out" using pool_shapeD(2)[OF sh c, of a] by simp
    then show ?thesis using alloc_chunk_hit[OF ok Some Cons] Some Cons by auto
  qed
qed

interpretation pool: chunk_allocator alloc_chunk retrieve pool_owns st_heap
proof (unfold_locales, goal_cases)
  case (1 s as n a t)
  then show ?case
    unfolding pool_owns_def
    using alloc_chunk_cases[of s _ as n] find_index_Some[of n] by (fastforce simp: free_chunk_def)
next
  case (2 s as n a t b)
  then show ?case unfolding pool_owns_def using alloc_chunk_cases[of s _ as n] by fastforce
next
  case (3 n s t)
  then show ?case
    by (auto simp: alloc_chunk_def result_iff split: option.splits prod.splits if_splits)
next
  case (4 s as n e)
  then show ?case unfolding pool_owns_def using alloc_chunk_cases[of s _ as n] by fastforce
next
  case (5 s as a)
  then obtain fl k where "pool_ok s fl as" "st_heap s a = Some k"
    unfolding pool_owns_def pool_ok_def using pool_shapeD(5) by blast
  then show ?case unfolding pool_owns_def using retrieve_ok[OF _ 5(2)] by blast
next
  case (6 s as a t b)
  then obtain fl k where "pool_ok s fl as" "st_heap s a = Some k"
    unfolding pool_owns_def pool_ok_def using pool_shapeD(5) by blast
  from retrieve_ok[OF this(1) 6(2) this(2)] 6(3,4) show ?case by auto
next
  case (7 s as a)
  then show ?case unfolding pool_owns_def pool_ok_def using pool_shapeD(5) used_chunk_def by blast
qed

lemma pool_owns_update:
  "pool_owns mp out \<Longrightarrow> a \<in> out \<Longrightarrow> st_heap mp a = Some k \<Longrightarrow> chunk_ok k' \<Longrightarrow> ck_capacity k' = ck_capacity k \<Longrightarrow>
   pool_owns (mp\<lparr>st_heap := (st_heap mp)(a \<mapsto> k')\<rparr>) out"
  unfolding pool_owns_def using pool_ok_update by blast

section \<open>Properties of the pool\<close>

text \<open>A pool whose lists are all empty and from which one more chunk can be made.\<close>

definition drained_pool :: mempool where
  "drained_pool = \<lparr>st_heap = Map.empty, st_fresh = 0, st_budget = 1, st_nothrow = True,
     mp_pool = [4096 \<mapsto> None, 16384 \<mapsto> None, 65536 \<mapsto> None, 262144 \<mapsto> None, 1048576 \<mapsto> None, 4194304 \<mapsto> None],
     mp_total_size_kb = 0, mp_left_size_kb = 0\<rparr>"

lemma drained_pool_ok: "pool_ok drained_pool (\<lambda>_. []) {}"
  by (simp add: drained_pool_def pool_ok_def pool_shape_def pool_acct_def set_caps free_kb_def out_kb_def caps_def)

text \<open>One 4 KB chunk handed out, at address 0.\<close>

definition one_out_pool :: mempool where
  "one_out_pool = drained_pool\<lparr>st_heap := [0 \<mapsto> blank 4096 None], st_fresh := 1, st_budget := 0, mp_total_size_kb := 4\<rparr>"

lemma one_out_pool_ok: "pool_ok one_out_pool (\<lambda>_. []) {0}"
  by (simp add: one_out_pool_def drained_pool_def pool_ok_def pool_shape_def pool_acct_def set_caps free_kb_def
      out_kb_def caps_def used_chunk_def chunk_ok_def)

text \<open>
  C9. The constructor builds six free lists of 2000, 500, 250, 100, 25 and 10 chunks, 124160 KB
  in all, in a state that satisfies the pool's invariant with nothing handed out; with fewer than
  2885 chunks to be had the process ends for lack of memory, by an exit or by an exception.
\<close>

theorem mempool_new_correct:
  "if 2885 \<le> budget
   then \<exists>mp fl. mempool_new budget nothrow = Inr mp \<and> pool_ok mp fl {} \<and>
          map (\<lambda>c. length (fl c)) caps = [2000, 500, 250, 100, 25, 10] \<and> mp_total_size_kb mp = 124160 \<and>
          mp_left_size_kb mp = 124160
   else mempool_new budget nothrow = Inl (if nothrow then Exit 1 else Exception ''bad_alloc'')"
proof (cases "2885 \<le> budget")
  case True
  then obtain mp fl where r: "mempool_new budget nothrow = Inr mp" "pool_ok mp fl {}"
      "map (\<lambda>c. length (fl c)) caps = [2000, 500, 250, 100, 25, 10]" "mp_total_size_kb mp = 124160"
    using mempool_new_run[OF True, of nothrow] by (elim exE conjE) (rule that)
  have "unat (mp_left_size_kb mp) = unat (mp_total_size_kb mp)"
    using r(2) by (simp add: pool_ok_def pool_acct_def out_kb_def)
  then have "mp_left_size_kb mp = mp_total_size_kb mp" by (rule unsigned_word_eqI)
  then show ?thesis using r True by (simp only: if_True) (intro exI[of _ mp] exI[of _ fl], simp)
qed (simp add: mempool_new_oom)

text \<open>
  C6. \<^verbatim>\<open>alloc_chunk\<close> rounds a request up to the smallest of the six capacities that holds it
  (a null pointer above 4 MB). It hands out the first chunk of that list, or a new chunk when the
  list is empty, and ends the process exactly when a new chunk would reach the 4 GB limit or the
  heap is exhausted (by an exit, or by \<^verbatim>\<open>bad_alloc\<close> when it is the array that finds no room). The chunk is empty, was not handed out before, and the invariant
  (with its memory accounting) holds afterwards; no other chunk changes.
\<close>

theorem alloc_chunk_correct:
  assumes "pool_ok mp fl out"
  shows "case find_index n (cap_value mLow) of
      None \<Rightarrow> cap_value mUp < n \<and> alloc_chunk n mp = Inr (None, mp)
    | Some c \<Rightarrow> c \<in> set caps \<and> n \<le> c \<and> (\<forall>d \<in> set caps. n \<le> d \<longrightarrow> c \<le> d) \<and>
        (if fl c = [] \<and> 4194304 \<le> unat (mp_total_size_kb mp) + nat (c div 1024) then alloc_chunk n mp = Inl (Exit 1)
         else if fl c = [] \<and> st_budget mp = 0
         then alloc_chunk n mp = Inl (if st_nothrow mp then Exit 1 else Exception ''bad_alloc'')
         else \<exists>a k mp'. alloc_chunk n mp = Inr (Some a, mp') \<and>
           a = (if fl c = [] then st_fresh mp else hd (fl c)) \<and> a \<notin> out \<and>
           pool_ok mp' (fl(c := tl (fl c))) (insert a out) \<and> st_heap mp' = (st_heap mp)(a \<mapsto> k) \<and>
           free_chunk c k \<and> ck_next k = None)"
proof (cases "find_index n 4096")
  case None
  then have "4194304 < n" by (simp add: find_index_None)
  then show ?thesis using None alloc_chunk_too_big by simp
next
  case (Some c)
  have sh: "pool_shape (set caps) mp fl out" using assms by (simp add: pool_ok_def)
  have c: "c \<in> set caps" using find_index_Some[OF Some] by simp
  show ?thesis
  proof (cases "fl c")
    case Nil
    then have "fl(c := tl (fl c)) = fl" by auto
    moreover have "st_fresh mp \<notin> out" using pool_shapeD(7,8)[OF sh] by blast
    ultimately show ?thesis
      using alloc_chunk_miss[OF assms Some Nil] Some Nil find_index_Some[OF Some] by (auto simp: heap_fault_def)
  next
    case (Cons a as)
    then have "a \<notin> out" using pool_shapeD(2)[OF sh c, of a] by simp
    then show ?thesis using alloc_chunk_hit[OF assms Some Cons] Some Cons find_index_Some[OF Some] by auto
  qed
qed

theorem alloc_chunk_correct_witness:
  "\<exists>k mp'. alloc_chunk 100 drained_pool = Inr (Some 0, mp') \<and> pool_ok mp' (\<lambda>_. []) {0} \<and>
     st_heap mp' 0 = Some k \<and> free_chunk 4096 k"
proof -
  have "(\<lambda>_. [])((4096 :: int) := tl []) = (\<lambda>_. [] :: addr list)" by auto
  then show ?thesis
    using alloc_chunk_correct[OF drained_pool_ok, of 100]
    by (auto simp: find_index_cases drained_pool_def)
qed

text \<open>
  C7. \<^verbatim>\<open>retrieve\<close> of a chunk that is handed out never faults: it empties the chunk, puts it at the
  head of the list of its capacity and gives its memory back in the accounting. An allocation of
  that capacity right afterwards returns the same chunk and restores the free lists.
\<close>

theorem retrieve_alloc_roundtrip:
  assumes "pool_ok mp fl out" "a \<in> out" "st_heap mp a = Some k" "find_index n (cap_value mLow) = Some (ck_capacity k)"
  shows "\<exists>mp' mp''. retrieve a mp = Inr mp' \<and>
     pool_ok mp' (fl(ck_capacity k := a # fl (ck_capacity k))) (out - {a}) \<and>
     alloc_chunk n mp' = Inr (Some a, mp'') \<and> pool_ok mp'' fl out"
proof -
  let ?c = "ck_capacity k"
  obtain mp' where r: "retrieve a mp = Inr mp'" "pool_ok mp' (fl(?c := a # fl ?c)) (out - {a})"
    using retrieve_ok[OF assms(1-3)] by blast
  obtain mp'' where "alloc_chunk n mp' = Inr (Some a, mp'')"
      "pool_ok mp'' ((fl(?c := a # fl ?c))(?c := fl ?c)) (insert a (out - {a}))"
    using alloc_chunk_hit[OF r(2), of n ?c a "fl ?c"] assms(4) by auto
  moreover have "(fl(?c := a # fl ?c))(?c := fl ?c) = fl" "insert a (out - {a}) = out"
    using assms(2) by auto
  ultimately show ?thesis using r by auto
qed

theorem retrieve_alloc_roundtrip_witness:
  "\<exists>mp' mp''. retrieve 0 one_out_pool = Inr mp' \<and> alloc_chunk 4096 mp' = Inr (Some 0, mp'') \<and>
     pool_ok mp'' (\<lambda>_. []) {0}"
  using retrieve_alloc_roundtrip[OF one_out_pool_ok, of 0 "blank 4096 None" 4096]
  by (auto simp: one_out_pool_def find_index_cases)

text \<open>
  The debug queries terminate on every pool that satisfies the invariant:
  \<^verbatim>\<open>get_list_size_byte\<close> is capacity times length of the list, or a signed overflow once a list
  holds 2 GB; \<^verbatim>\<open>print_list_content\<close> visits every chunk and prints at most six (empty) windows.
\<close>

theorem pool_debug_queries:
  assumes "pool_ok mp fl out"
  shows "get_list_size_byte cap mp =
       (let n = cap_value cap * int (length (fl (cap_value cap)))
        in Some (if n \<le> INT_MAX then Inr n else Inl (Undefined Signed_overflow))) \<and>
     print_list_content cap mp =
       Some (Inr (replicate (min (length (fl (cap_value cap))) 6) [], length (fl (cap_value cap))))"
  using debug_queries_ok[OF assms] by blast

theorem pool_debug_queries_witness:
  "get_list_size_byte m4K one_out_pool = Some (Inr 0) \<and> print_list_content m4K one_out_pool = Some (Inr ([], 0))"
  using pool_debug_queries[OF one_out_pool_ok, of m4K] by simp

section \<open>Every history of the pool\<close>

text \<open>
  The pool as the threads of the server use it: each operation runs under \<^verbatim>\<open>mp_mutex\<close>, so a
  history is a sequence of whole operations. The state carries the set of chunks handed out; a
  client may write to a chunk it holds, and gives back only chunks it holds.
\<close>

inductive pool_step :: "mempool \<times> addr set \<Rightarrow> mempool \<times> addr set \<Rightarrow> bool" where
  ps_alloc: "alloc_chunk n mp = Inr (Some a, mp') \<Longrightarrow> pool_step (mp, out) (mp', insert a out)"
| ps_alloc_null: "alloc_chunk n mp = Inr (None, mp') \<Longrightarrow> pool_step (mp, out) (mp', out)"
| ps_retrieve: "a \<in> out \<Longrightarrow> retrieve a mp = Inr mp' \<Longrightarrow> pool_step (mp, out) (mp', out - {a})"
| ps_write: "a \<in> out \<Longrightarrow> st_heap mp a = Some k \<Longrightarrow> chunk_ok k' \<Longrightarrow> ck_capacity k' = ck_capacity k \<Longrightarrow>
     pool_step (mp, out) (mp\<lparr>st_heap := (st_heap mp)(a \<mapsto> k')\<rparr>, out)"

definition pool_start :: "mempool \<times> addr set \<Rightarrow> bool" where
  "pool_start s \<longleftrightarrow> (\<exists>budget nothrow. mempool_new budget nothrow = Inr (fst s)) \<and> snd s = {}"

interpretation pool_history: step_system pool_start pool_step "\<lambda>(mp, out). pool_owns mp out"
proof
  fix s assume "pool_start s"
  then obtain budget nothrow where b: "mempool_new budget nothrow = Inr (fst s)" "snd s = {}"
    by (auto simp: pool_start_def)
  then have "2885 \<le> budget" using mempool_new_oom[of budget nothrow] by (cases "2885 \<le> budget") auto
  with b show "case s of (mp, out) \<Rightarrow> pool_owns mp out"
    using mempool_new_run[of budget nothrow] by (auto simp: pool_owns_def split: prod.split)
next
  fix s t assume "case s of (mp, out) \<Rightarrow> pool_owns mp out" "pool_step s t"
  from this(2,1) show "case t of (mp, out) \<Rightarrow> pool_owns mp out"
  proof cases
    case (ps_alloc n mp a mp' out)
    with \<open>case s of (mp, out) \<Rightarrow> pool_owns mp out\<close> show ?thesis using pool.alloc_fresh by auto
  next
    case (ps_alloc_null n mp mp' out)
    with \<open>case s of (mp, out) \<Rightarrow> pool_owns mp out\<close> show ?thesis using pool.alloc_null by auto
  next
    case (ps_retrieve a out mp mp')
    with \<open>case s of (mp, out) \<Rightarrow> pool_owns mp out\<close> show ?thesis using pool.release_ok[of mp out a] by auto
  next
    case (ps_write a out mp k k')
    with \<open>case s of (mp, out) \<Rightarrow> pool_owns mp out\<close> show ?thesis using pool_owns_update by auto
  qed
qed

text \<open>
  C8. In every history of the pool: a chunk is never handed out twice, nothing handed out is on a
  free list; \<^verbatim>\<open>mp_left_size_kb\<close> is exactly the memory on the free lists and \<^verbatim>\<open>mp_total_size_kb\<close> that
  together with the memory of the chunks handed out, below the 4 GB limit; and neither operation can
  fault otherwise than for lack of memory.
\<close>

theorem pool_history_safe:
  assumes "reach pool_start pool_step (mp, out)"
  shows "(\<forall>n a mp'. alloc_chunk n mp = Inr (Some a, mp') \<longrightarrow> a \<notin> out \<and> n \<le> ck_capacity (the (st_heap mp' a))) \<and>
     (\<forall>n e. alloc_chunk n mp = Inl e \<longrightarrow> out_of_memory e) \<and>
     (\<forall>a \<in> out. \<exists>mp'. retrieve a mp = Inr mp') \<and>
     (\<exists>fl. (\<forall>c \<in> set caps. (\<exists>p. mp_pool mp c = Some p \<and> chain (st_heap mp) p (fl c)) \<and> set (fl c) \<inter> out = {}) \<and>
        unat (mp_left_size_kb mp) = (\<Sum>c \<leftarrow> caps. nat (c div 1024) * length (fl c)) \<and>
        unat (mp_total_size_kb mp) = unat (mp_left_size_kb mp) + (\<Sum>a \<in> out. nat (ck_capacity (the (st_heap mp a)) div 1024))) \<and>
     mp_left_size_kb mp \<le> mp_total_size_kb mp \<and> mp_total_size_kb mp < MAX_POOL_SIZE"
proof -
  have own: "pool_owns mp out" using pool_history.reach_inv[OF assms] by simp
  then obtain fl where fl: "pool_shape (set caps) mp fl out" "pool_acct mp fl out"
    by (auto simp: pool_owns_def pool_ok_def)
  have "\<forall>c \<in> set caps. (\<exists>p. mp_pool mp c = Some p \<and> chain (st_heap mp) p (fl c)) \<and> set (fl c) \<inter> out = {}"
    using pool_shapeD(1,2)[OF fl(1)] by blast
  moreover have "unat (mp_left_size_kb mp) = (\<Sum>c \<leftarrow> caps. nat (c div 1024) * length (fl c))"
      "unat (mp_total_size_kb mp) = unat (mp_left_size_kb mp) + (\<Sum>a \<in> out. nat (ck_capacity (the (st_heap mp a)) div 1024))"
    using fl(2) by (simp_all add: pool_acct_def free_kb_def out_kb_def)
  moreover have "mp_left_size_kb mp \<le> mp_total_size_kb mp \<and> mp_total_size_kb mp < MAX_POOL_SIZE"
    using fl(2) by (simp add: pool_acct_def word_le_nat_alt word_less_nat_alt)
  moreover have "a \<notin> out \<and> n \<le> ck_capacity (the (st_heap mp' a))"
    if "alloc_chunk n mp = Inr (Some a, mp')" for n a mp'
    using pool.alloc_fresh[OF own that] by auto
  ultimately show ?thesis using pool.alloc_faults[OF own] pool.release_ok[OF own] by blast
qed

theorem pool_history_safe_witness:
  "\<exists>mp. reach pool_start pool_step (mp, {}) \<and> mp_left_size_kb mp \<le> mp_total_size_kb mp"
proof -
  obtain mp where "mempool_new 2885 True = Inr mp" using mempool_new_run[of 2885 True] by auto
  then have r: "reach pool_start pool_step (mp, {})" by (intro reach_start) (auto simp: pool_start_def)
  show ?thesis using r pool_history_safe[OF r] by blast
qed

end
