(* ===== verification/Data_Buf.thy ===== *)
theory Data_Buf
  imports Mem_Pool
begin

text \<open>
  The application buffers (src/memory/data_buf.h, data_buf.cpp). A buffer object holds one
  pointer into the pool; its operations take the pointer and the pool and return both. The
  kernel's answers to \<^verbatim>\<open>ioctl\<close>, \<^verbatim>\<open>read\<close> and \<^verbatim>\<open>write\<close> are arguments. The lemmas relate every
  operation to the sequence of bytes the buffer holds, and show that the heap is not corrupted.
\<close>

section \<open>Answers of the kernel\<close>

text \<open>
  An answer to \<^verbatim>\<open>read(fd, p, n)\<close> is an error number, or the bytes that are ready, of which the
  call takes at most \<open>n\<close> (a negative \<open>n\<close> is converted to a huge \<^verbatim>\<open>size_t\<close>). An answer to
  \<^verbatim>\<open>write(fd, p, n)\<close> is an error number, or the room the kernel has, of which the call uses at
  most \<open>n\<close>. A call that is retried takes the next answer of the list.
\<close>

datatype read_answer = Read_ok "char list" | Read_err int
datatype write_answer = Write_ok nat | Write_err int

abbreviation EINTR :: int where "EINTR \<equiv> 4"
abbreviation EAGAIN :: int where "EAGAIN \<equiv> 11"

definition read_take :: "int \<Rightarrow> char list \<Rightarrow> char list" where
  "read_take n bs = (if n < 0 then bs else take (nat n) bs)"

text \<open>The loops \<^verbatim>\<open>do { r = read(...); } while (r == -1 && errno == EINTR)\<close>, and for \<^verbatim>\<open>write\<close>.\<close>

fun read_retry :: "read_answer list \<Rightarrow> read_answer result" where
  "read_retry [] = Inl Starved"
| "read_retry (Read_ok bs # as) = Inr (Read_ok bs)"
| "read_retry (Read_err e # as) = (if e = EINTR then read_retry as else Inr (Read_err e))"

fun write_retry :: "write_answer list \<Rightarrow> write_answer result" where
  "write_retry [] = Inl Starved"
| "write_retry (Write_ok k # as) = Inr (Write_ok k)"
| "write_retry (Write_err e # as) = (if e = EINTR then write_retry as else Inr (Write_err e))"

section \<open>The base class\<close>

type_synonym buffer = "addr option"

definition put_chunk :: "addr \<Rightarrow> chunk \<Rightarrow> mempool \<Rightarrow> mempool" where
  "put_chunk a c mp = mp\<lparr>st_heap := (st_heap mp)(a \<mapsto> c)\<rparr>"

definition buf_length :: "buffer \<Rightarrow> mempool \<Rightarrow> int result" where
  "buf_length b mp =
     (case b of None \<Rightarrow> Inr 0
      | Some a \<Rightarrow> rbind (deref (st_heap mp a)) (\<lambda>c. Inr (ck_length c)))"

definition buf_pop :: "int \<Rightarrow> buffer \<Rightarrow> mempool \<Rightarrow> (buffer \<times> mempool) result" where
  "buf_pop len b mp =
     (case b of None \<Rightarrow> Inl Assertion
      | Some a \<Rightarrow>
        rbind (deref (st_heap mp a)) (\<lambda>c.
        rbind (c_assert (len \<le> ck_length c)) (\<lambda>_.
        rbind (chunk_pop c len) (\<lambda>c.
        let mp = put_chunk a c mp in
        if ck_length c = 0 then rbind (retrieve a mp) (\<lambda>mp. Inr (None, mp))
        else Inr (Some a, mp)))))"

definition buf_clear :: "buffer \<Rightarrow> mempool \<Rightarrow> (buffer \<times> mempool) result" where
  "buf_clear b mp =
     (case b of None \<Rightarrow> Inr (None, mp)
      | Some a \<Rightarrow> rbind (retrieve a mp) (\<lambda>mp. Inr (None, mp)))"

section \<open>Room for more bytes\<close>

text \<open>
  The first half of \<^verbatim>\<open>read_from_fd\<close> and of \<^verbatim>\<open>write2buf\<close> is the same code: allocate a chunk when
  there is none; otherwise, when \<open>n\<close> bytes do not fit, move to a larger chunk. The flag is False
  where the code returns -1.
\<close>

text \<open>The constructor leaves the pointer null; the destructor clears.\<close>

definition buf_new :: buffer where
  [simp]: "buf_new = None"

definition buf_delete :: "buffer \<Rightarrow> mempool \<Rightarrow> mempool result" where
  "buf_delete b mp = rbind (buf_clear b mp) (\<lambda>(_, mp). Inr mp)"

definition buf_reserve :: "int \<Rightarrow> buffer \<Rightarrow> mempool \<Rightarrow> (bool \<times> buffer \<times> mempool) result" where
  "buf_reserve n b mp =
     (case b of
        None \<Rightarrow> rbind (alloc_chunk n mp) (\<lambda>(p, mp). Inr (p \<noteq> None, p, mp))
      | Some a \<Rightarrow>
        rbind (deref (st_heap mp a)) (\<lambda>c.
        rbind (c_assert (ck_head c = 0)) (\<lambda>_.
        if ck_capacity c - ck_length c < n then
          rbind (cint (n + ck_length c)) (\<lambda>m.
          rbind (alloc_chunk m mp) (\<lambda>(new_buf, mp).
          case new_buf of None \<Rightarrow> Inr (False, b, mp)
          | Some a' \<Rightarrow>
            rbind (deref (st_heap mp a')) (\<lambda>c'.
            rbind (deref (st_heap mp a)) (\<lambda>old.
            rbind (chunk_copy c' old) (\<lambda>c'.
            rbind (retrieve a (put_chunk a' c' mp)) (\<lambda>mp.
            Inr (True, Some a', mp)))))))
        else Inr (True, b, mp))))"

section \<open>The input buffer\<close>

definition read_from_fd ::
  "int option \<Rightarrow> read_answer list \<Rightarrow> buffer \<Rightarrow> mempool \<Rightarrow> (int \<times> buffer \<times> mempool) result" where
  "read_from_fd fionread answers b mp =
     (case fionread of
        None \<Rightarrow> Inr (- 1, b, mp)
      | Some need_read \<Rightarrow>
        rbind (buf_reserve need_read b mp) (\<lambda>(ok, b, mp).
        if \<not> ok then Inr (- 1, b, mp)
        else
          rbind (deref b) (\<lambda>a.
          rbind (deref (st_heap mp a)) (\<lambda>c.
          rbind (read_retry answers) (\<lambda>answer.
          case answer of
            Read_err e \<Rightarrow> Inr (- 1, b, mp)
          | Read_ok ready \<Rightarrow>
            (let bs = read_take (if need_read = 0 then cap_value m4K else need_read) ready in
             rbind (mem_write (ck_length c) (map Some bs) (ck_data c)) (\<lambda>d.
             let c = c\<lparr>ck_data := d\<rparr>; already_read = int (length bs) in
             if 0 < already_read then
               rbind (if need_read \<noteq> 0 then c_assert (already_read = need_read) else Inr ()) (\<lambda>_.
               rbind (cint (ck_length c + already_read)) (\<lambda>l.
               Inr (already_read, b, put_chunk a (c\<lparr>ck_length := l\<rparr>) mp)))
             else Inr (already_read, b, put_chunk a c mp))))))))"

text \<open>The bytes from the returned pointer to the end of the chunk's array.\<close>

definition get_from_buf :: "buffer \<Rightarrow> mempool \<Rightarrow> bytes option result" where
  "get_from_buf b mp =
     (case b of None \<Rightarrow> Inr None
      | Some a \<Rightarrow> rbind (deref (st_heap mp a)) (\<lambda>c. Inr (Some (drop (nat (ck_head c)) (ck_data c)))))"

definition ibuf_adjust :: "buffer \<Rightarrow> mempool \<Rightarrow> mempool result" where
  "ibuf_adjust b mp =
     (case b of None \<Rightarrow> Inr mp
      | Some a \<Rightarrow>
        rbind (deref (st_heap mp a)) (\<lambda>c.
        rbind (chunk_adjust c) (\<lambda>c.
        Inr (put_chunk a c mp))))"

section \<open>The output buffer\<close>

definition write2buf ::
  "char list \<Rightarrow> int \<Rightarrow> buffer \<Rightarrow> mempool \<Rightarrow> (int \<times> buffer \<times> mempool) result" where
  "write2buf data len b mp =
     rbind (buf_reserve len b mp) (\<lambda>(ok, b, mp).
     if \<not> ok then Inr (- 1, b, mp)
     else
       rbind (deref b) (\<lambda>a.
       rbind (deref (st_heap mp a)) (\<lambda>c.
       rbind (mem_read 0 len data) (\<lambda>src.
       rbind (mem_write (ck_length c) (map Some src) (ck_data c)) (\<lambda>d.
       rbind (cint (ck_length c + len)) (\<lambda>l.
       Inr (0, b, put_chunk a (c\<lparr>ck_data := d, ck_length := l\<rparr>) mp)))))))"

text \<open>\<^verbatim>\<open>write2fd\<close> returns, beside its value, the bytes the kernel took.\<close>

definition write2fd ::
  "write_answer list \<Rightarrow> buffer \<Rightarrow> mempool \<Rightarrow> (int \<times> bytes \<times> mempool) result" where
  "write2fd answers b mp =
     (case b of None \<Rightarrow> Inl Assertion
      | Some a \<Rightarrow>
        rbind (deref (st_heap mp a)) (\<lambda>c.
        rbind (c_assert (ck_head c = 0)) (\<lambda>_.
        rbind (mem_read 0 (ck_length c) (ck_data c)) (\<lambda>src.
        rbind (write_retry answers) (\<lambda>answer.
        case answer of
          Write_err e \<Rightarrow> Inr (if e = EAGAIN then 0 else - 1, [], mp)
        | Write_ok room \<Rightarrow>
          (let sent = take room src; already_write = int (length sent) in
           if 0 < already_write then
             rbind (chunk_pop c already_write) (\<lambda>c.
             rbind (chunk_adjust c) (\<lambda>c.
             Inr (already_write, sent, put_chunk a c mp)))
           else Inr (already_write, sent, mp)))))))"

section \<open>What a buffer holds\<close>

definition contents :: "buffer \<Rightarrow> mempool \<Rightarrow> bytes" where
  "contents b mp =
     (case b of None \<Rightarrow> []
      | Some a \<Rightarrow> (case st_heap mp a of None \<Rightarrow> [] | Some c \<Rightarrow> chunk_bytes c))"

text \<open>
  \<open>buf_ok b mp out\<close>: the pool is intact with \<open>out\<close> handed out, and the buffer's chunk is among
  them. \<open>aligned\<close>: the window starts at offset 0, which \<^verbatim>\<open>read_from_fd\<close>, \<^verbatim>\<open>write2buf\<close> and
  \<^verbatim>\<open>write2fd\<close> assert.
\<close>

definition buf_ok :: "buffer \<Rightarrow> mempool \<Rightarrow> addr set \<Rightarrow> bool" where
  "buf_ok b mp out \<longleftrightarrow> pool_owns mp out \<and> set_option b \<subseteq> out"

definition aligned :: "buffer \<Rightarrow> mempool \<Rightarrow> bool" where
  "aligned b mp \<longleftrightarrow> (\<forall>a c. b = Some a \<longrightarrow> st_heap mp a = Some c \<longrightarrow> ck_head c = 0)"

text \<open>After a buffer \<open>b\<close> became \<open>b'\<close>: the chunks handed out, and the others untouched.\<close>

definition swapped :: "addr set \<Rightarrow> buffer \<Rightarrow> buffer \<Rightarrow> addr set" where
  "swapped out b b' = out - set_option b \<union> set_option b'"

definition others_same :: "addr set \<Rightarrow> buffer \<Rightarrow> mempool \<Rightarrow> mempool \<Rightarrow> bool" where
  "others_same out b mp mp' \<longleftrightarrow> (\<forall>x \<in> out - set_option b. st_heap mp' x = st_heap mp x)"

lemma swapped_same [simp]: "set_option b \<subseteq> out \<Longrightarrow> swapped out b b = out"
  by (auto simp: swapped_def)

lemma contents_Some: "st_heap mp a = Some c \<Longrightarrow> contents (Some a) mp = chunk_bytes c"
  by (simp add: contents_def)

lemma contents_None [simp]: "contents None mp = []"
  by (simp add: contents_def)

lemma contents_put [simp]: "contents (Some a) (put_chunk a c mp) = chunk_bytes c"
  by (simp add: contents_def put_chunk_def)

lemma aligned_put [simp]: "aligned (Some a) (put_chunk a c mp) \<longleftrightarrow> ck_head c = 0"
  by (simp add: aligned_def put_chunk_def)

lemma put_chunk_heap [simp]:
  "st_heap (put_chunk a c mp) = (st_heap mp)(a \<mapsto> c)"
  by (simp add: put_chunk_def)

lemma buf_chunk:
  assumes "buf_ok (Some a) mp out"
  obtains c where "st_heap mp a = Some c" "chunk_ok c" "int (length (contents (Some a) mp)) = ck_length c"
proof -
  obtain c where c: "st_heap mp a = Some c" "chunk_ok c"
    using assms pool.owns_cell[of mp out a] by (auto simp: buf_ok_def)
  then have "int (length (contents (Some a) mp)) = ck_length c"
    using length_chunk_bytes by (simp add: contents_Some)
  with c show ?thesis by (rule that)
qed

text \<open>The chunks handed out hold 4 KB to 4 MB.\<close>

lemma owned_capacity:
  assumes "pool_owns mp out" "a \<in> out" "st_heap mp a = Some c"
  shows "4096 \<le> ck_capacity c \<and> ck_capacity c \<le> 4194304"
proof -
  obtain fl where "pool_shape (set caps) mp fl out" using assms(1) by (auto simp: pool_owns_def pool_ok_def)
  from pool_shapeD(5)[OF this assms(2)] have "used_chunk c" using assms(3) by simp
  then show ?thesis using caps_bounds by (simp add: used_chunk_def)
qed

lemma contents_bound:
  assumes "buf_ok b mp out"
  shows "int (length (contents b mp)) \<le> 4194304"
proof (cases b)
  case (Some a)
  then obtain c where c: "st_heap mp a = Some c" "chunk_ok c" "int (length (contents (Some a) mp)) = ck_length c"
    using buf_chunk assms by blast
  have "ck_capacity c \<le> 4194304" using owned_capacity[of mp out a c] assms Some c(1) by (simp add: buf_ok_def)
  then show ?thesis using c(2,3) Some by (simp add: chunk_ok_def)
qed simp

text \<open>Writing a chunk the buffer owns.\<close>

lemma put_chunk_ok:
  assumes "buf_ok (Some a) mp out" "st_heap mp a = Some c" "chunk_ok c'" "ck_capacity c' = ck_capacity c"
  shows "buf_ok (Some a) (put_chunk a c' mp) out" "others_same out (Some a) mp (put_chunk a c' mp)"
  using assms pool_owns_update[of mp out a c c']
  by (auto simp: buf_ok_def put_chunk_def others_same_def)

text \<open>Bytes appended behind an aligned window.\<close>

lemma append_window:
  assumes c: "chunk_ok c" "ck_head c = 0" "ck_length c + int (length bs) \<le> ck_capacity c"
  shows "\<exists>d. mem_write (ck_length c) bs (ck_data c) = Inr d \<and>
     chunk_ok (c\<lparr>ck_data := d, ck_length := ck_length c + int (length bs)\<rparr>) \<and>
     chunk_bytes (c\<lparr>ck_data := d, ck_length := ck_length c + int (length bs)\<rparr>) = chunk_bytes c @ bs"
proof -
  let ?d = "splice_at (nat (ck_length c)) bs (ck_data c)"
  have fit: "nat (ck_length c) + length bs \<le> length (ck_data c)"
    using c unfolding chunk_ok_def by linarith
  have "mem_write (ck_length c) bs (ck_data c) = Inr ?d"
    using c by (intro mem_write_ok) (auto simp: chunk_ok_def)
  moreover have "take (nat (ck_length c + int (length bs))) ?d = take (nat (ck_length c)) (ck_data c) @ bs"
    using take_splice_at[OF fit] c by (simp add: chunk_ok_def nat_add_distrib)
  ultimately show ?thesis
    using c fit by (simp add: chunk_ok_def chunk_bytes_def)
qed

section \<open>Reserving room\<close>

text \<open>
  With at most \<^verbatim>\<open>INT_MAX\<close> bytes in all, reserving room has three outcomes: it exits for lack
  of memory, it refuses a request above 4 MB and changes nothing, or the buffer has room for \<open>n\<close>
  more bytes behind the same contents.
\<close>

definition has_room :: "int \<Rightarrow> buffer \<Rightarrow> mempool \<Rightarrow> bool" where
  "has_room n b mp \<longleftrightarrow> (\<exists>a c. b = Some a \<and> st_heap mp a = Some c \<and> ck_head c = 0 \<and> ck_length c + n \<le> ck_capacity c)"

definition fresh_for :: "addr set \<Rightarrow> buffer \<Rightarrow> buffer \<Rightarrow> bool" where
  "fresh_for out b b' \<longleftrightarrow> set_option b' \<inter> (out - set_option b) = {}"

lemma reserve_first:
  assumes ok: "buf_ok None mp out"
  shows "no_memory (buf_reserve n None mp) \<or>
     (buf_reserve n None mp = Inr (False, None, mp) \<and> 4194304 < n) \<or>
     (\<exists>b' mp'. buf_reserve n None mp = Inr (True, b', mp') \<and> buf_ok b' mp' (swapped out None b') \<and>
        contents b' mp' = [] \<and> has_room n b' mp' \<and> others_same out None mp mp' \<and> fresh_for out None b')"
proof -
  obtain fl where fl: "pool_ok mp fl out" using ok by (auto simp: buf_ok_def pool_owns_def)
  consider (null) "4194304 < n" "alloc_chunk n mp = Inr (None, mp)" | (out) "no_memory (alloc_chunk n mp)"
    | (some) a mp' where "alloc_chunk n mp = Inr (Some a, mp')"
    using alloc_chunk_cases[OF fl, of n] by blast
  then show ?thesis
  proof cases
    case some
    have own: "pool_owns mp out" using ok by (simp add: buf_ok_def)
    obtain k where k: "st_heap mp' a = Some k" "n \<le> ck_capacity k" "ck_length k = 0" "ck_head k = 0"
        "pool_owns mp' (insert a out)" "a \<notin> out"
      using pool.alloc_fresh[OF own some] by blast
    have "buf_ok (Some a) mp' (swapped out None (Some a))"
      using k by (simp add: buf_ok_def swapped_def)
    moreover have "contents (Some a) mp' = []" using k by (simp add: contents_def chunk_bytes_def)
    moreover have "has_room n (Some a) mp'" using k by (auto simp: has_room_def)
    moreover have "others_same out None mp mp'"
      using pool.alloc_frame[OF own some] by (simp add: others_same_def)
    ultimately show ?thesis using some k by (auto simp: buf_reserve_def fresh_for_def)
  qed (auto simp: buf_reserve_def)
qed

lemma reserve_more:
  assumes ok: "buf_ok (Some a) mp out" and al: "aligned (Some a) mp"
    and small: "n + int (length (contents (Some a) mp)) \<le> INT_MAX"
  shows "no_memory (buf_reserve n (Some a) mp) \<or>
     (buf_reserve n (Some a) mp = Inr (False, Some a, mp) \<and> 4194304 < n + int (length (contents (Some a) mp))) \<or>
     (\<exists>b' mp'. buf_reserve n (Some a) mp = Inr (True, b', mp') \<and> buf_ok b' mp' (swapped out (Some a) b') \<and>
        contents b' mp' = contents (Some a) mp \<and> has_room n b' mp' \<and> others_same out (Some a) mp mp' \<and>
        fresh_for out (Some a) b')"
proof -
  obtain c where c: "st_heap mp a = Some c" "chunk_ok c" "int (length (contents (Some a) mp)) = ck_length c"
    using buf_chunk[OF ok] by blast
  have hd: "ck_head c = 0" using al c by (simp add: aligned_def)
  have own: "pool_owns mp out" and aout: "a \<in> out" using ok by (auto simp: buf_ok_def)
  show ?thesis
  proof (cases "ck_capacity c - ck_length c < n")
    case False
    then have "buf_reserve n (Some a) mp = Inr (True, Some a, mp)"
      using c hd by (simp add: buf_reserve_def)
    then show ?thesis using ok aout False c hd by (auto simp: has_room_def others_same_def fresh_for_def)
  next
    case True
    define m where "m = n + ck_length c"
    have ci: "cint m = Inr m" using True c small by (simp add: m_def chunk_ok_def)
    obtain fl where fl: "pool_ok mp fl out" using own by (auto simp: pool_owns_def)
    consider (null) "4194304 < m" "alloc_chunk m mp = Inr (None, mp)" | (out) "no_memory (alloc_chunk m mp)"
      | (some) a' mp' where "alloc_chunk m mp = Inr (Some a', mp')"
      using alloc_chunk_cases[OF fl, of m] by blast
    then show ?thesis
    proof cases
      case null
      then show ?thesis using True c hd ci by (simp add: buf_reserve_def m_def)
    next
      case out
      then show ?thesis using True c hd ci by (auto simp: buf_reserve_def m_def)
    next
      case some
      obtain k where k: "st_heap mp' a' = Some k" "chunk_ok k" "m \<le> ck_capacity k" "pool_owns mp' (insert a' out)" "a' \<notin> out"
        using pool.alloc_fresh[OF own some] by blast
      have n0: "0 \<le> n" using True c by (simp add: chunk_ok_def)
      then obtain k' where k': "chunk_copy k c = Inr k'" "chunk_ok k'" "ck_head k' = 0"
          "ck_length k' = ck_length c" "ck_capacity k' = ck_capacity k" "chunk_bytes k' = chunk_bytes c"
        using chunk_copy_ok[OF k(2) c(2)] k(3) by (auto simp: m_def)
      have ca: "st_heap mp' a = Some c" using pool.alloc_frame[OF own some aout] c by simp
      let ?mp = "put_chunk a' k' mp'"
      have own': "pool_owns ?mp (insert a' out)"
        using pool_owns_update[OF k(4) _ k(1) k'(2,5)] by (simp add: put_chunk_def)
      obtain u where u: "retrieve a ?mp = Inr u" "pool_owns u (insert a' out - {a})"
        using pool.release_ok[OF own'] aout by blast
      have keep: "st_heap u x = st_heap ?mp x" if "x \<in> insert a' out - {a}" for x
        using pool.release_frame[OF own' _ u(1) that] aout by simp
      have "a' \<noteq> a" using k(5) aout by auto
      have run: "buf_reserve n (Some a) mp = Inr (True, Some a', u)"
        using True c hd ci some k k' ca u by (simp add: buf_reserve_def m_def)
      have ua: "st_heap u a' = Some k'" using keep[of a'] \<open>a' \<noteq> a\<close> by simp
      have "buf_ok (Some a') u (swapped out (Some a) (Some a'))"
        using u(2) \<open>a' \<noteq> a\<close> by (simp add: buf_ok_def swapped_def insert_Diff_if)
      moreover have "contents (Some a') u = contents (Some a) mp" using ua c k' by (simp add: contents_Some)
      moreover have "has_room n (Some a') u" using ua k' k by (simp add: has_room_def m_def)
      moreover have "others_same out (Some a) mp u"
        using keep pool.alloc_frame[OF own some] k(5) by (auto simp: others_same_def)
      moreover have "fresh_for out (Some a) (Some a')" using k(5) by (auto simp: fresh_for_def)
      ultimately show ?thesis using run by auto
    qed
  qed
qed

lemma reserve_cases:
  assumes "buf_ok b mp out" "aligned b mp" "n + int (length (contents b mp)) \<le> INT_MAX"
  obtains (oom) "no_memory (buf_reserve n b mp)"
    | (big) "buf_reserve n b mp = Inr (False, b, mp)" "4194304 < n + int (length (contents b mp))"
    | (room) a c mp' where "buf_reserve n b mp = Inr (True, Some a, mp')"
        "buf_ok (Some a) mp' (swapped out b (Some a))" "contents (Some a) mp' = contents b mp"
        "st_heap mp' a = Some c" "chunk_ok c" "ck_head c = 0" "ck_length c + n \<le> ck_capacity c"
        "ck_length c = int (length (contents b mp))" "others_same out b mp mp'" "fresh_for out b (Some a)"
proof -
  have "no_memory (buf_reserve n b mp) \<or>
     (buf_reserve n b mp = Inr (False, b, mp) \<and> 4194304 < n + int (length (contents b mp))) \<or>
     (\<exists>b' mp'. buf_reserve n b mp = Inr (True, b', mp') \<and> buf_ok b' mp' (swapped out b b') \<and>
        contents b' mp' = contents b mp \<and> has_room n b' mp' \<and> others_same out b mp mp' \<and> fresh_for out b b')"
    using assms reserve_first reserve_more by (cases b) auto
  then show ?thesis
  proof (elim disjE exE conjE)
    fix b' mp'
    assume r: "buf_reserve n b mp = Inr (True, b', mp')" "buf_ok b' mp' (swapped out b b')"
      "contents b' mp' = contents b mp" "has_room n b' mp'" "others_same out b mp mp'" "fresh_for out b b'"
    then obtain a c where a: "b' = Some a" "st_heap mp' a = Some c" "ck_head c = 0" "ck_length c + n \<le> ck_capacity c"
      by (auto simp: has_room_def)
    moreover obtain c' where "st_heap mp' a = Some c'" "chunk_ok c'" "int (length (contents (Some a) mp')) = ck_length c'"
      using buf_chunk r(2) a(1) by blast
    ultimately show ?thesis using room r by auto
  qed (use oom big in auto)
qed

section \<open>The operations on the contents\<close>

lemma swapped_twice [simp]: "swapped (swapped out b b') b' b'' = swapped (out - set_option b') b b''"
  by (auto simp: swapped_def)

lemma others_same_trans:
  assumes "others_same out b mp mp'" "others_same (swapped out b b') b' mp' mp''" "fresh_for out b b'"
  shows "others_same out b mp mp''"
  unfolding others_same_def
proof
  fix x assume x: "x \<in> out - set_option b"
  then have "x \<in> swapped out b b' - set_option b'" using assms(3) by (auto simp: swapped_def fresh_for_def)
  then have "st_heap mp'' x = st_heap mp' x" using assms(2) unfolding others_same_def by blast
  then show "st_heap mp'' x = st_heap mp x" using assms(1) x by (simp add: others_same_def)
qed

text \<open>Another buffer of the same pool is not touched.\<close>

lemma other_buffer:
  assumes "buf_ok b2 mp out" "set_option b2 \<inter> set_option b = {}" "others_same out b mp mp'" "pool_owns mp' (swapped out b b')"
  shows "buf_ok b2 mp' (swapped out b b') \<and> contents b2 mp' = contents b2 mp \<and> (aligned b2 mp' \<longleftrightarrow> aligned b2 mp)"
proof (cases b2)
  case None
  then show ?thesis using assms(4) by (simp add: buf_ok_def aligned_def)
next
  case (Some a)
  then have "a \<in> out - set_option b" using assms(1,2) by (auto simp: buf_ok_def)
  then have "st_heap mp' a = st_heap mp a" using assms(3) by (simp add: others_same_def)
  then show ?thesis using Some assms(4) \<open>a \<in> out - set_option b\<close> by (simp add: buf_ok_def aligned_def contents_def swapped_def)
qed

lemma write2buf_cases:
  assumes ok: "buf_ok b mp out" "aligned b mp" "int (length data) + int (length (contents b mp)) \<le> INT_MAX"
  shows "no_memory (write2buf data (int (length data)) b mp) \<or>
     (write2buf data (int (length data)) b mp = Inr (- 1, b, mp) \<and>
        4194304 < int (length data) + int (length (contents b mp))) \<or>
     (\<exists>b' mp'. write2buf data (int (length data)) b mp = Inr (0, b', mp') \<and>
        buf_ok b' mp' (swapped out b b') \<and> aligned b' mp' \<and>
        contents b' mp' = contents b mp @ map Some data \<and> others_same out b mp mp' \<and> fresh_for out b b')"
proof (rule reserve_cases[OF ok])
  fix a c mp'
  assume r: "buf_reserve (int (length data)) b mp = Inr (True, Some a, mp')"
    "buf_ok (Some a) mp' (swapped out b (Some a))" "contents (Some a) mp' = contents b mp"
    "st_heap mp' a = Some c" "chunk_ok c" "ck_head c = 0" "ck_length c + int (length data) \<le> ck_capacity c"
    "others_same out b mp mp'" "fresh_for out b (Some a)"
  let ?l = "ck_length c + int (length data)"
  obtain d where d: "mem_write (ck_length c) (map Some data) (ck_data c) = Inr d"
      "chunk_ok (c\<lparr>ck_data := d, ck_length := ?l\<rparr>)"
      "chunk_bytes (c\<lparr>ck_data := d, ck_length := ?l\<rparr>) = chunk_bytes c @ map Some data"
    using append_window[of c "map Some data"] r by auto
  have "cint ?l = Inr ?l" using r by (simp add: chunk_ok_def)
  then have "write2buf data (int (length data)) b mp =
      Inr (0, Some a, put_chunk a (c\<lparr>ck_data := d, ck_length := ?l\<rparr>) mp')"
    using r d by (simp add: write2buf_def mem_read_ok)
  moreover have "others_same out b mp (put_chunk a (c\<lparr>ck_data := d, ck_length := ?l\<rparr>) mp')"
    using others_same_trans[OF r(8) _ r(9)] put_chunk_ok(2)[OF r(2,4) d(2)] by simp
  ultimately show ?thesis
    using put_chunk_ok(1)[OF r(2,4) d(2)] d(3) r by (simp add: contents_Some[OF r(4), symmetric])
qed (auto simp: write2buf_def)

lemma write2fd_cases:
  assumes ok: "buf_ok (Some a) mp out" "aligned (Some a) mp" and ans: "write_retry answers = Inr ans"
  shows "case ans of
      Write_err e \<Rightarrow> write2fd answers (Some a) mp = Inr (if e = EAGAIN then 0 else - 1, [], mp)
    | Write_ok room \<Rightarrow> \<exists>mp'. write2fd answers (Some a) mp =
        Inr (int (min room (length (contents (Some a) mp))), take room (contents (Some a) mp), mp') \<and>
        buf_ok (Some a) mp' out \<and> aligned (Some a) mp' \<and>
        contents (Some a) mp' = drop room (contents (Some a) mp) \<and> others_same out (Some a) mp mp'"
proof -
  obtain c where c: "st_heap mp a = Some c" "chunk_ok c" "int (length (contents (Some a) mp)) = ck_length c"
    using buf_chunk[OF ok(1)] by blast
  have hd: "ck_head c = 0" using ok(2) c by (simp add: aligned_def)
  have src: "mem_read 0 (ck_length c) (ck_data c) = Inr (chunk_bytes c)"
    using c hd by (simp add: mem_read_ok chunk_ok_def chunk_bytes_def)
  show ?thesis
  proof (cases ans)
    case (Write_err e)
    then show ?thesis using c hd src ans by (simp add: write2fd_def)
  next
    case (Write_ok room)
    let ?k = "min room (length (chunk_bytes c))"
    have kl: "int ?k \<le> ck_length c" using length_chunk_bytes[OF c(2)] by linarith
    show ?thesis
    proof (cases "?k = 0")
      case True
      then have "write2fd answers (Some a) mp = Inr (0, [], mp)" "take room (chunk_bytes c) = []"
          "drop room (chunk_bytes c) = chunk_bytes c"
        using c hd src ans Write_ok by (auto simp: write2fd_def min_def split: if_splits)
      then show ?thesis using Write_ok True ok c by (auto simp: contents_Some others_same_def)
    next
      case False
      obtain p where p: "chunk_pop c (int ?k) = Inr p" "chunk_ok p" "ck_length p = ck_length c - int ?k"
          "ck_capacity p = ck_capacity c" "chunk_bytes p = drop ?k (chunk_bytes c)"
        using chunk_pop_ok[OF c(2), of "int ?k"] kl by auto
      obtain q where q: "chunk_adjust p = Inr q" "chunk_ok q" "ck_head q = 0" "ck_capacity q = ck_capacity p"
          "chunk_bytes q = chunk_bytes p"
        using chunk_adjust_ok[OF p(2)] by auto
      have "write2fd answers (Some a) mp = Inr (int ?k, take room (chunk_bytes c), put_chunk a q mp)"
        using c hd src ans Write_ok False p q by (auto simp: write2fd_def min.commute)
      moreover have "drop ?k (chunk_bytes c) = drop room (chunk_bytes c)"
        by (cases "room \<le> length (chunk_bytes c)") simp_all
      ultimately show ?thesis
        using Write_ok c p q put_chunk_ok[OF ok(1) c(1) q(2)] by (simp add: contents_Some min.commute)
    qed
  qed
qed

lemma buf_pop_ok:
  assumes ok: "buf_ok b mp out" and n: "0 \<le> n" "n \<le> int (length (contents b mp))" and b: "b \<noteq> None"
  shows "\<exists>b' mp'. buf_pop n b mp = Inr (b', mp') \<and> buf_ok b' mp' (swapped out b b') \<and>
     contents b' mp' = drop (nat n) (contents b mp) \<and> (b' = None \<longleftrightarrow> n = int (length (contents b mp))) \<and> others_same out b mp mp'"
proof -
  obtain a where a: "b = Some a" using b by auto
  obtain c where c: "st_heap mp a = Some c" "chunk_ok c" "int (length (contents b mp)) = ck_length c"
    using buf_chunk ok a by blast
  obtain p where p: "chunk_pop c n = Inr p" "chunk_ok p" "ck_length p = ck_length c - n"
      "ck_capacity p = ck_capacity c" "chunk_bytes p = drop (nat n) (chunk_bytes c)"
    using chunk_pop_ok[OF c(2), of n] n c(3) by auto
  have ok': "buf_ok (Some a) (put_chunk a p mp) out"
    using put_chunk_ok(1)[of a mp out, OF _ c(1) p(2,4)] ok a by simp
  show ?thesis
  proof (cases "n = ck_length c")
    case True
    have own: "pool_owns (put_chunk a p mp) out" "a \<in> out" using ok' by (auto simp: buf_ok_def)
    obtain u where u: "retrieve a (put_chunk a p mp) = Inr u" "pool_owns u (out - {a})"
      using pool.release_ok[OF own] by blast
    have "others_same out b mp u" using pool.release_frame[OF own] u(1) a by (auto simp: others_same_def)
    have "buf_pop n b mp = Inr (None, u)" using a c p u True by (simp add: buf_pop_def)
    moreover have "drop (nat n) (contents b mp) = []" using True c(3)[symmetric] by simp
    ultimately show ?thesis using u True c(3) a \<open>others_same out b mp u\<close> by (simp add: buf_ok_def swapped_def)
  next
    case False
    then have "buf_pop n b mp = Inr (Some a, put_chunk a p mp)"
      using a c p n by (simp add: buf_pop_def)
    then show ?thesis using ok' False a c p ok by (auto simp: contents_Some buf_ok_def others_same_def)
  qed
qed

lemma buf_clear_ok:
  assumes ok: "buf_ok b mp out"
  shows "\<exists>mp'. buf_clear b mp = Inr (None, mp') \<and> pool_owns mp' (out - set_option b) \<and> others_same out b mp mp'"
proof (cases b)
  case None
  then show ?thesis using ok by (simp add: buf_clear_def buf_ok_def others_same_def)
next
  case (Some a)
  then have own: "pool_owns mp out" "a \<in> out" using ok by (auto simp: buf_ok_def)
  obtain u where "retrieve a mp = Inr u" "pool_owns u (out - {a})" using pool.release_ok[OF own] by blast
  then show ?thesis using Some pool.release_frame[OF own] by (auto simp: buf_clear_def others_same_def)
qed

lemma ibuf_adjust_ok:
  assumes ok: "buf_ok b mp out"
  shows "\<exists>mp'. ibuf_adjust b mp = Inr mp' \<and> buf_ok b mp' out \<and> aligned b mp' \<and>
     contents b mp' = contents b mp \<and> others_same out b mp mp'"
proof (cases b)
  case None
  then show ?thesis using ok by (simp add: ibuf_adjust_def aligned_def others_same_def)
next
  case (Some a)
  obtain c where c: "st_heap mp a = Some c" "chunk_ok c" using buf_chunk ok Some by blast
  obtain q where q: "chunk_adjust c = Inr q" "chunk_ok q" "ck_head q = 0" "ck_capacity q = ck_capacity c"
      "chunk_bytes q = chunk_bytes c"
    using chunk_adjust_ok[OF c(2)] by auto
  then show ?thesis
    using Some c ok put_chunk_ok[of a mp out, OF _ c(1) q(2,4)] by (simp add: ibuf_adjust_def contents_Some)
qed

lemma read_from_fd_cases:
  assumes ok: "buf_ok b mp out" "aligned b mp" and n: "0 \<le> n" "n + int (length (contents b mp)) \<le> INT_MAX"
    and first: "n = 0 \<Longrightarrow> b = None" and ans: "read_retry answers = Inr (Read_ok ready)"
  shows "no_memory (read_from_fd (Some n) answers b mp) \<or>
     (read_from_fd (Some n) answers b mp = Inr (- 1, b, mp) \<and> 4194304 < n + int (length (contents b mp))) \<or>
     (\<exists>b' mp'. let bs = take (if n = 0 then 4096 else nat n) ready in
        read_from_fd (Some n) answers b mp =
          (if n \<noteq> 0 \<and> bs \<noteq> [] \<and> int (length bs) \<noteq> n then Inl Assertion
           else Inr (int (length bs), b', mp')) \<and>
        buf_ok b' mp' (swapped out b b') \<and> aligned b' mp' \<and> contents b' mp' = contents b mp @ map Some bs \<and>
        others_same out b mp mp' \<and> fresh_for out b b')"
proof (rule reserve_cases[OF ok n(2)])
  fix a c mp'
  assume r: "buf_reserve n b mp = Inr (True, Some a, mp')"
    "buf_ok (Some a) mp' (swapped out b (Some a))" "contents (Some a) mp' = contents b mp"
    "st_heap mp' a = Some c" "chunk_ok c" "ck_head c = 0" "ck_length c + n \<le> ck_capacity c"
    "ck_length c = int (length (contents b mp))" "others_same out b mp mp'" "fresh_for out b (Some a)"
  define bs where "bs = take (if n = 0 then 4096 else nat n) ready"
  have bs: "read_take (if n = 0 then cap_value m4K else n) ready = bs"
    using n(1) by (simp add: read_take_def bs_def)
  have "4096 \<le> ck_capacity c"
    using owned_capacity[of mp' "swapped out b (Some a)" a c] r(2,4) by (simp add: buf_ok_def)
  then have fit: "ck_length c + int (length bs) \<le> ck_capacity c"
    using r(7,8) first n(1) by (cases "n = 0") (auto simp: bs_def)
  let ?l = "ck_length c + int (length bs)"
  obtain d where d: "mem_write (ck_length c) (map Some bs) (ck_data c) = Inr d"
      "chunk_ok (c\<lparr>ck_data := d, ck_length := ?l\<rparr>)"
      "chunk_bytes (c\<lparr>ck_data := d, ck_length := ?l\<rparr>) = chunk_bytes c @ map Some bs"
    using append_window[of c "map Some bs"] r fit by auto
  let ?mp = "put_chunk a (c\<lparr>ck_data := d, ck_length := ?l\<rparr>) mp'"
  have "cint ?l = Inr ?l" using d(2) by (simp add: chunk_ok_def)
  then have "read_from_fd (Some n) answers b mp =
      (if n \<noteq> 0 \<and> bs \<noteq> [] \<and> int (length bs) \<noteq> n then Inl Assertion else Inr (int (length bs), Some a, ?mp))"
    using r(1,4) ans d(1) bs by (cases "n = 0") (auto simp: read_from_fd_def Let_def)
  moreover have "others_same out b mp ?mp"
    using others_same_trans[OF r(9) _ r(10)] put_chunk_ok(2)[OF r(2,4) d(2)] by simp
  moreover have "contents (Some a) ?mp = contents b mp @ map Some bs" "aligned (Some a) ?mp"
    using d(3) r by (simp_all add: contents_Some[OF r(4), symmetric])
  ultimately show ?thesis
    using put_chunk_ok(1)[OF r(2,4) d(2)] r(10) unfolding bs_def[symmetric] Let_def
    by (intro disjI2 exI[of _ "Some a"] exI[of _ ?mp]) simp
qed (use assms in \<open>auto simp: read_from_fd_def\<close>)

text \<open>When \<^verbatim>\<open>FIONREAD\<close> or \<^verbatim>\<open>read\<close> fails, the buffer holds what it held, in a chunk it may have got just before.\<close>

lemma read_from_fd_fails:
  assumes ok: "buf_ok b mp out" "aligned b mp"
    and fail: "fionread = None \<or> (\<exists>n e. fionread = Some n \<and> n + int (length (contents b mp)) \<le> INT_MAX \<and> read_retry answers = Inr (Read_err e))"
  shows "no_memory (read_from_fd fionread answers b mp) \<or>
     (\<exists>b' mp'. read_from_fd fionread answers b mp = Inr (- 1, b', mp') \<and> buf_ok b' mp' (swapped out b b') \<and> aligned b' mp' \<and>
        contents b' mp' = contents b mp \<and> others_same out b mp mp' \<and> fresh_for out b b')"
proof -
  have same: "swapped out b b = out" "others_same out b mp mp" "fresh_for out b b"
    using ok(1) by (auto simp: buf_ok_def others_same_def fresh_for_def)
  from fail show ?thesis
  proof (elim disjE exE conjE)
    assume "fionread = None"
    then show ?thesis using ok same by (simp add: read_from_fd_def)
  next
    fix n e
    assume n: "fionread = Some n" "n + int (length (contents b mp)) \<le> INT_MAX" "read_retry answers = Inr (Read_err e)"
    show ?thesis
    proof (rule reserve_cases[OF ok n(2)])
      fix a c mp'
      assume "buf_reserve n b mp = Inr (True, Some a, mp')" "buf_ok (Some a) mp' (swapped out b (Some a))"
        "contents (Some a) mp' = contents b mp" "st_heap mp' a = Some c" "ck_head c = 0" "others_same out b mp mp'" "fresh_for out b (Some a)"
      then show ?thesis using n by (auto simp: read_from_fd_def aligned_def)
    qed (use ok same n in \<open>auto simp: read_from_fd_def\<close>)
  qed
qed

section \<open>Properties of the buffers\<close>

text \<open>A pool with one full 4 KB chunk handed out, and with one that holds two bytes.\<close>

definition full_pool :: mempool where
  "full_pool = one_out_pool\<lparr>st_heap := [0 \<mapsto> (blank 4096 None)\<lparr>ck_length := 4096\<rparr>]\<rparr>"

lemma full_pool_ok: "buf_ok (Some 0) full_pool {0}" "aligned (Some 0) full_pool"
  using pool_ok_update[OF one_out_pool_ok, of 0 "blank 4096 None" "(blank 4096 None)\<lparr>ck_length := 4096\<rparr>"]
  by (auto simp: buf_ok_def pool_owns_def full_pool_def one_out_pool_def aligned_def chunk_ok_def)

definition hi_chunk :: chunk where
  "hi_chunk = (blank 4096 None)\<lparr>ck_length := 2, ck_data := [Some CHR ''h'', Some CHR ''i''] @ replicate 4094 None\<rparr>"

definition hi_pool :: mempool where
  "hi_pool = one_out_pool\<lparr>st_heap := [0 \<mapsto> hi_chunk]\<rparr>"

lemma hi_pool_ok: "buf_ok (Some 0) hi_pool {0}" "aligned (Some 0) hi_pool"
    "contents (Some 0) hi_pool = map Some ''hi''"
proof -
  have "chunk_ok hi_chunk" by (simp add: hi_chunk_def chunk_ok_def)
  moreover have "ck_capacity hi_chunk = ck_capacity (blank 4096 None)" by (simp add: hi_chunk_def)
  ultimately have "pool_ok hi_pool (\<lambda>_. []) {0}"
    using pool_ok_update[OF one_out_pool_ok, of 0 "blank 4096 None" hi_chunk]
    by (simp add: hi_pool_def one_out_pool_def)
  then show "buf_ok (Some 0) hi_pool {0}" by (auto simp: buf_ok_def pool_owns_def)
qed (simp_all add: hi_pool_def hi_chunk_def aligned_def contents_def chunk_bytes_def)

text \<open>
  C10. \<^verbatim>\<open>write2buf\<close> on an aligned buffer appends the data behind the bytes it holds, or refuses
  with -1 and changes nothing when the bytes in all would not fit in a 4 MB chunk, or the process
  exits for lack of memory. It never corrupts the heap, keeps the pool's invariant, and touches
  no other buffer's chunk.
\<close>

theorem write2buf_correct:
  assumes "buf_ok b mp out" "aligned b mp" "int (length data) + int (length (contents b mp)) \<le> INT_MAX"
  shows "case write2buf data (int (length data)) b mp of
      Inl e \<Rightarrow> out_of_memory e
    | Inr (ret, b', mp') \<Rightarrow>
        (if ret = 0 then buf_ok b' mp' (swapped out b b') \<and> aligned b' mp' \<and>
           contents b' mp' = contents b mp @ map Some data \<and> others_same out b mp mp'
         else ret = - 1 \<and> b' = b \<and> mp' = mp \<and> 4194304 < length data + length (contents b mp))"
  using write2buf_cases[OF assms] by auto

theorem write2buf_correct_witness:
  "case write2buf ''!'' 1 (Some 0) hi_pool of
      Inl e \<Rightarrow> out_of_memory e
    | Inr (ret, b', mp') \<Rightarrow> ret = 0 \<and> contents b' mp' = map Some ''hi!''"
  using write2buf_correct[OF hi_pool_ok(1,2), of "''!''"] hi_pool_ok(3)
  by (auto split: sum.splits prod.splits if_splits)

text \<open>
  C11. \<^verbatim>\<open>write2fd\<close> sends a prefix of the bytes the buffer holds, in order, and keeps exactly the
  rest, aligned again; it sends only bytes that were written before. A full socket
  (\<^verbatim>\<open>EAGAIN\<close>) is 0 and any other error -1, both without a change.
\<close>

theorem write2fd_correct:
  assumes "buf_ok (Some a) mp out" "aligned (Some a) mp" "write_retry answers = Inr ans"
  shows "case ans of
      Write_err e \<Rightarrow> write2fd answers (Some a) mp = Inr (if e = EAGAIN then 0 else - 1, [], mp)
    | Write_ok room \<Rightarrow> \<exists>mp' sent. write2fd answers (Some a) mp = Inr (int (length sent), sent, mp') \<and>
        sent @ contents (Some a) mp' = contents (Some a) mp \<and> length sent = min room (length (contents (Some a) mp)) \<and>
        buf_ok (Some a) mp' out \<and> aligned (Some a) mp' \<and> others_same out (Some a) mp mp'"
proof (cases ans)
  case (Write_err e)
  then show ?thesis using write2fd_cases[OF assms] by simp
next
  case (Write_ok room)
  then obtain mp' where "write2fd answers (Some a) mp =
        Inr (int (min room (length (contents (Some a) mp))), take room (contents (Some a) mp), mp')"
      "buf_ok (Some a) mp' out" "aligned (Some a) mp'"
      "contents (Some a) mp' = drop room (contents (Some a) mp)" "others_same out (Some a) mp mp'"
    using write2fd_cases[OF assms] by auto
  then show ?thesis
    using Write_ok by (auto intro!: exI[of _ mp'] exI[of _ "take room (contents (Some a) mp)"] simp: min.commute)
qed

theorem write2fd_correct_witness:
  "\<exists>mp'. write2fd [Write_err EINTR, Write_ok 1] (Some 0) hi_pool = Inr (1, [Some CHR ''h''], mp') \<and>
     contents (Some 0) mp' = [Some CHR ''i'']"
proof -
  have "write_retry [Write_err EINTR, Write_ok 1] = Inr (Write_ok 1)" by simp
  from write2fd_correct[OF hi_pool_ok(1,2) this] obtain mp' sent where
    "write2fd [Write_err EINTR, Write_ok 1] (Some 0) hi_pool = Inr (int (length sent), sent, mp')"
    "sent @ contents (Some 0) mp' = map Some ''hi''" "length sent = 1"
    by (auto simp: hi_pool_ok(3))
  then show ?thesis by (cases sent) auto
qed

text \<open>
  C12. \<^verbatim>\<open>read_from_fd\<close>, called with \<open>n\<close> bytes reported by \<^verbatim>\<open>FIONREAD\<close> (and, when it reports 0, on
  an empty buffer): it appends the bytes read behind those held, keeping alignment and the pool's
  invariant; it refuses above 4 MB and exits for lack of memory. A short read, neither empty nor
  of the reported size, aborts in the assertion. No other fault is possible.
\<close>

theorem read_from_fd_correct:
  assumes "buf_ok b mp out" "aligned b mp" "0 \<le> n" "n + int (length (contents b mp)) \<le> INT_MAX"
    "n = 0 \<Longrightarrow> b = None" "read_retry answers = Inr (Read_ok ready)"
  shows "let bs = take (if n = 0 then 4096 else nat n) ready in
     case read_from_fd (Some n) answers b mp of
      Inl e \<Rightarrow> out_of_memory e \<or> (e = Assertion \<and> bs \<noteq> [] \<and> length bs < nat n)
    | Inr (ret, b', mp') \<Rightarrow>
        (if ret = - 1 then b' = b \<and> mp' = mp \<and> 4194304 < n + int (length (contents b mp))
         else ret = int (length bs) \<and> contents b' mp' = contents b mp @ map Some bs \<and>
           buf_ok b' mp' (swapped out b b') \<and> aligned b' mp' \<and> others_same out b mp mp')"
  using read_from_fd_cases[OF assms] assms(3) by (auto simp: Let_def split: if_splits)

theorem read_from_fd_correct_witness:
  "case read_from_fd (Some 2) [Read_ok ''abc''] (Some 0) hi_pool of
      Inl e \<Rightarrow> out_of_memory e
    | Inr (ret, b', mp') \<Rightarrow> ret = 2 \<and> contents b' mp' = map Some ''hiab''"
  using read_from_fd_correct[OF hi_pool_ok(1,2), of 2 "[Read_ok ''abc'']" "''abc''"] hi_pool_ok(3)
  by (auto split: sum.splits prod.splits if_splits)

text \<open>
  C40. A heap overflow in \<^verbatim>\<open>read_from_fd\<close>: when \<^verbatim>\<open>FIONREAD\<close> reports 0 and the buffer already holds
  a chunk, the code asks \<^verbatim>\<open>read\<close> for 4096 bytes without reserving room. If more bytes than the
  chunk has left arrive between the two system calls, they are written past its end.
\<close>

theorem read_from_fd_overflow:
  assumes "buf_ok (Some a) mp out" "aligned (Some a) mp" "st_heap mp a = Some c"
    "ck_capacity c - ck_length c < int (length ready)" "length ready \<le> 4096"
  shows "read_from_fd (Some 0) [Read_ok ready] (Some a) mp = Inl (Undefined Out_of_bounds)"
proof -
  obtain c' where "st_heap mp a = Some c'" "chunk_ok c'" using buf_chunk[OF assms(1)] by blast
  then have c: "chunk_ok c" using assms(3) by simp
  moreover have "ck_head c = 0" using assms(2,3) by (simp add: aligned_def)
  ultimately have "buf_reserve 0 (Some a) mp = Inr (True, Some a, mp)"
    using assms(3) by (simp add: buf_reserve_def chunk_ok_def)
  moreover have "mem_write (ck_length c) (map Some ready) (ck_data c) = Inl (Undefined Out_of_bounds)"
    using assms(4) c by (simp add: mem_write_def chunk_ok_def)
  ultimately show ?thesis using assms(3,5) by (simp add: read_from_fd_def read_take_def)
qed

theorem read_from_fd_overflow_witness:
  "read_from_fd (Some 0) [Read_ok ''x''] (Some 0) full_pool = Inl (Undefined Out_of_bounds)"
  by (rule read_from_fd_overflow[OF full_pool_ok, where c = "(blank 4096 None)\<lparr>ck_length := 4096\<rparr>"])
    (simp_all add: full_pool_def)

text \<open>
  Consuming input: \<^verbatim>\<open>pop(n)\<close> drops the first \<open>n\<close> bytes and gives the chunk back to the pool
  exactly when none is left; \<^verbatim>\<open>adjust\<close> then makes the buffer aligned for the next read without
  changing its bytes; \<^verbatim>\<open>clear\<close> gives the chunk back.
\<close>

theorem consume_correct:
  assumes "buf_ok b mp out" "b \<noteq> None" "0 \<le> n" "n \<le> int (length (contents b mp))"
  shows "\<exists>b' mp1 mp2 mp3. buf_pop n b mp = Inr (b', mp1) \<and> contents b' mp1 = drop (nat n) (contents b mp) \<and>
     (b' = None \<longleftrightarrow> n = int (length (contents b mp))) \<and>
     ibuf_adjust b' mp1 = Inr mp2 \<and> aligned b' mp2 \<and> contents b' mp2 = contents b' mp1 \<and>
     buf_ok b' mp2 (swapped out b b') \<and>
     buf_clear b' mp2 = Inr (None, mp3) \<and> pool_owns mp3 (out - set_option b)"
proof -
  obtain b' mp1 where p: "buf_pop n b mp = Inr (b', mp1)" "buf_ok b' mp1 (swapped out b b')"
      "contents b' mp1 = drop (nat n) (contents b mp)" "b' = None \<longleftrightarrow> n = int (length (contents b mp))"
    using buf_pop_ok[OF assms(1,3,4,2)] by blast
  obtain mp2 where a: "ibuf_adjust b' mp1 = Inr mp2" "buf_ok b' mp2 (swapped out b b')" "aligned b' mp2"
      "contents b' mp2 = contents b' mp1"
    using ibuf_adjust_ok[OF p(2)] by blast
  have sub: "set_option b' \<subseteq> set_option b"
    using p(1) assms(2) by (auto simp: buf_pop_def result_iff Let_def split: option.splits if_splits)
  obtain mp3 where "buf_clear b' mp2 = Inr (None, mp3)" "pool_owns mp3 (swapped out b b' - set_option b')"
    using buf_clear_ok[OF a(2)] by blast
  moreover have "swapped out b b' - set_option b' = out - set_option b"
    using sub by (auto simp: swapped_def)
  ultimately show ?thesis using p a by auto
qed

theorem consume_correct_witness:
  "\<exists>b' mp1 mp2. buf_pop 1 (Some 0) hi_pool = Inr (b', mp1) \<and> ibuf_adjust b' mp1 = Inr mp2 \<and>
     contents b' mp2 = [Some CHR ''i''] \<and> aligned b' mp2"
  using consume_correct[OF hi_pool_ok(1), of 1] hi_pool_ok(3) by auto

section \<open>The output buffer as a byte stream\<close>

text \<open>
  A client of an output buffer puts data and flushes; the bytes that went out, followed by the
  bytes still held, are the bytes accepted. The interface, and the run of a client over it:
\<close>

fun stream_run ::
  "(char list \<Rightarrow> 's \<Rightarrow> (bool \<times> 's) result) \<Rightarrow> ('w \<Rightarrow> 's \<Rightarrow> (bytes \<times> 's) result) \<Rightarrow>
   (char list + 'w) list \<Rightarrow> 's \<Rightarrow> (char list \<times> bytes \<times> 's) result" where
  "stream_run put flush [] s = Inr ([], [], s)"
| "stream_run put flush (Inl data # ops) s =
     rbind (put data s) (\<lambda>(ok, s). rbind (stream_run put flush ops s) (\<lambda>(acc, sent, s).
     Inr (if ok then data @ acc else acc, sent, s)))"
| "stream_run put flush (Inr w # ops) s =
     rbind (flush w s) (\<lambda>(out, s). rbind (stream_run put flush ops s) (\<lambda>(acc, sent, s).
     Inr (acc, out @ sent, s)))"

locale byte_stream =
  fixes put :: "char list \<Rightarrow> 's \<Rightarrow> (bool \<times> 's) result"
    and flush :: "'w \<Rightarrow> 's \<Rightarrow> (bytes \<times> 's) result"
    and held :: "'s \<Rightarrow> bytes" and ok :: "'s \<Rightarrow> bool"
  assumes put_law: "ok s \<Longrightarrow> put data s = Inr (acc, t) \<Longrightarrow>
      ok t \<and> held t = (if acc then held s @ map Some data else held s)"
    and flush_law: "ok s \<Longrightarrow> flush w s = Inr (out, t) \<Longrightarrow> ok t \<and> out @ held t = held s"
begin

lemma run_fifo:
  "stream_run put flush ops s = Inr (acc, sent, t) \<Longrightarrow> ok s \<Longrightarrow> ok t \<and> sent @ held t = held s @ map Some acc"
proof (induction ops arbitrary: s acc sent t)
  case (Cons op ops)
  show ?case
  proof (cases op)
    case (Inl data)
    then obtain a s' acc' where p: "put data s = Inr (a, s')" "stream_run put flush ops s' = Inr (acc', sent, t)"
        "acc = (if a then data @ acc' else acc')"
      using Cons.prems(1) by (auto simp: result_iff)
    then show ?thesis using put_law[OF Cons.prems(2) p(1)] Cons.IH[OF p(2)] by auto
  next
    case (Inr w)
    then obtain out s' sent' where p: "flush w s = Inr (out, s')" "stream_run put flush ops s' = Inr (acc, sent', t)"
        "sent = out @ sent'"
      using Cons.prems(1) by (auto simp: result_iff)
    then show ?thesis using flush_law[OF Cons.prems(2) p(1)] Cons.IH[OF p(2)] by auto
  qed
qed simp

end

text \<open>The output buffer provides it; the state carries the chunks handed out.\<close>

definition obuf_put :: "char list \<Rightarrow> buffer \<times> mempool \<Rightarrow> (bool \<times> buffer \<times> mempool) result" where
  "obuf_put data s = rbind (write2buf data (int (length data)) (fst s) (snd s)) (\<lambda>(ret, b, mp). Inr (ret = 0, b, mp))"

definition obuf_flush :: "write_answer list \<Rightarrow> buffer \<times> mempool \<Rightarrow> (bytes \<times> buffer \<times> mempool) result" where
  "obuf_flush answers s = rbind (write2fd answers (fst s) (snd s)) (\<lambda>(ret, sent, mp). Inr (sent, fst s, mp))"

definition obuf_ok :: "buffer \<times> mempool \<Rightarrow> bool" where
  "obuf_ok s \<longleftrightarrow> (\<exists>out. buf_ok (fst s) (snd s) out) \<and> aligned (fst s) (snd s)"

lemma write2buf_huge:
  assumes "buf_ok b mp out" "INT_MAX < int (length data) + int (length (contents b mp))"
    "write2buf data (int (length data)) b mp = Inr (ret, b', mp')"
  shows "ret = - 1 \<and> b' = b \<and> mp' = mp"
proof (cases b)
  case None
  then have "alloc_chunk (int (length data)) mp = Inr (None, mp)"
    using assms(2) by (intro alloc_chunk_too_big) simp
  then show ?thesis using assms(3) None by (simp add: write2buf_def buf_reserve_def)
next
  case (Some a)
  obtain c where c: "st_heap mp a = Some c" "chunk_ok c" "int (length (contents b mp)) = ck_length c"
    using buf_chunk assms(1) Some by blast
  have "cint (int (length data) + ck_length c) = Inl (Undefined Signed_overflow)"
    using assms(2) c by (simp add: cint_def)
  moreover have "ck_capacity c - ck_length c < int (length data)"
    using assms(2) c by (simp add: chunk_ok_def)
  ultimately show ?thesis
    using assms(3) Some c by (auto simp: write2buf_def buf_reserve_def result_iff)
qed

interpretation obuf: byte_stream obuf_put obuf_flush "\<lambda>s. contents (fst s) (snd s)" obuf_ok
proof
  fix s data acc t
  assume s: "obuf_ok s" and p: "obuf_put data s = Inr (acc, t)"
  obtain b mp where bm: "s = (b, mp)" by (cases s)
  obtain out where ok: "buf_ok b mp out" "aligned b mp" using s bm by (auto simp: obuf_ok_def)
  obtain ret where w: "write2buf data (int (length data)) b mp = Inr (ret, fst t, snd t)" "acc = (ret = 0)"
    using p bm by (auto simp: obuf_put_def result_iff)
  show "obuf_ok t \<and> contents (fst t) (snd t) =
      (if acc then contents (fst s) (snd s) @ map Some data else contents (fst s) (snd s))"
  proof (cases "int (length data) + int (length (contents b mp)) \<le> INT_MAX")
    case True
    then show ?thesis using write2buf_cases[OF ok True] w bm s by (auto simp: obuf_ok_def)
  next
    case False
    then show ?thesis using write2buf_huge[OF ok(1) _ w(1)] w(2) bm s by (simp add: obuf_ok_def)
  qed
next
  fix s w out t
  assume s: "obuf_ok s" and p: "obuf_flush w s = Inr (out, t)"
  obtain b mp where bm: "s = (b, mp)" by (cases s)
  obtain ret where r: "write2fd w b mp = Inr (ret, out, snd t)" "fst t = b"
    using p bm by (auto simp: obuf_flush_def result_iff)
  then obtain a ans where a: "b = Some a" "write_retry w = Inr ans"
    by (auto simp: write2fd_def result_iff split: option.splits)
  obtain own where ok: "buf_ok (Some a) mp own" "aligned (Some a) mp"
    using s bm a by (auto simp: obuf_ok_def)
  show "obuf_ok t \<and> out @ contents (fst t) (snd t) = contents (fst s) (snd s)"
    using write2fd_cases[OF ok a(2)] r a bm s by (auto simp: obuf_ok_def split: write_answer.splits)
qed

text \<open>
  C13. An output buffer is a lossless FIFO: over any sequence of \<^verbatim>\<open>write2buf\<close> and \<^verbatim>\<open>write2fd\<close>
  calls that completes, the bytes sent to the socket, followed by the bytes still held, are
  exactly the accepted data in the order of the calls. Nothing is lost, duplicated, reordered or
  invented, across growth to larger chunks, partial writes, retries and refusals.
\<close>

theorem output_stream_fifo:
  assumes "buf_ok None mp out"
    "stream_run obuf_put obuf_flush ops (None, mp) = Inr (accepted, sent, b', mp')"
  shows "sent @ contents b' mp' = map Some accepted"
proof -
  have "obuf_ok (None, mp)" using assms(1) by (auto simp: obuf_ok_def aligned_def)
  then show ?thesis using obuf.run_fifo[OF assms(2)] by simp
qed

lemma drained_buf_ok: "buf_ok None drained_pool {}"
  using drained_pool_ok by (auto simp: buf_ok_def pool_owns_def)

theorem output_stream_fifo_witness:
  "\<exists>acc sent b' mp'.
     stream_run obuf_put obuf_flush [Inl ''hi'', Inr [Write_ok 1]] (None, drained_pool) = Inr (acc, sent, b', mp') \<and>
     sent @ contents b' mp' = map Some ''hi'' \<and> sent = [Some CHR ''h'']"
proof -
  have al: "\<exists>k mp'. alloc_chunk 2 drained_pool = Inr (Some 0, mp') \<and> st_heap mp' 0 = Some k"
    using alloc_chunk_miss[OF drained_pool_ok, of 2 4096] by (auto simp: find_index_cases drained_pool_def)
  then have "\<not> no_memory (write2buf ''hi'' 2 None drained_pool)"
    by (auto simp: write2buf_def buf_reserve_def result_iff mem_read_def mem_write_def cint_def)
  then have "\<exists>b' mp'. write2buf ''hi'' 2 None drained_pool = Inr (0, b', mp') \<and>
      buf_ok b' mp' (swapped {} None b') \<and> aligned b' mp' \<and> contents b' mp' = map Some ''hi''"
    using write2buf_cases[OF drained_buf_ok, of "''hi''"] by (auto simp: aligned_def)
  then obtain b1 mp1 where w: "write2buf ''hi'' 2 None drained_pool = Inr (0, b1, mp1)"
      "buf_ok b1 mp1 (swapped {} None b1)" "aligned b1 mp1" "contents b1 mp1 = map Some ''hi''" by blast
  then obtain a where a: "b1 = Some a" by (cases b1) auto
  obtain mp2 where "write2fd [Write_ok 1] b1 mp1 = Inr (1, [Some CHR ''h''], mp2)"
    using write2fd_cases[of a mp1 _ "[Write_ok 1]" "Write_ok 1"] w a by auto
  then have run: "stream_run obuf_put obuf_flush [Inl ''hi'', Inr [Write_ok 1]] (None, drained_pool) =
      Inr (''hi'', [Some CHR ''h''], b1, mp2)"
    using w(1) by (simp add: obuf_put_def obuf_flush_def)
  show ?thesis using run output_stream_fifo[OF drained_buf_ok run] by simp
qed

end
