(* ===== verification/Epoll.thy ===== *)
theory Epoll
  imports Prelude
begin

unbundle bit_operations_syntax

text \<open>
  The epoll wrapper (src/net/epoll.h, epoll.cpp): a map from descriptors to the events asked for and
  their callbacks, kept beside the kernel's own interest list. \<^verbatim>\<open>epoll_ctl\<close> is an argument; what the
  code relies on of it is the locale \<open>epoll_kernel\<close>. The lemmas relate the map to the kernel's list,
  and follow the dispatch of a batch of events.
\<close>

section \<open>The class\<close>

abbreviation (input) EPOLLIN :: "32 word" where "EPOLLIN \<equiv> 0x001"
abbreviation (input) EPOLLOUT :: "32 word" where "EPOLLOUT \<equiv> 0x004"
abbreviation (input) EPOLLERR :: "32 word" where "EPOLLERR \<equiv> 0x008"
abbreviation (input) EPOLLHUP :: "32 word" where "EPOLLHUP \<equiv> 0x010"

datatype epoll_op = EPOLL_CTL_ADD | EPOLL_CTL_MOD | EPOLL_CTL_DEL

text \<open>The kernel's interest list, and \<^verbatim>\<open>epoll_ctl\<close>: whether the call succeeds, and the new list.\<close>

type_synonym interest = "int \<rightharpoonup> 32 word"
type_synonym epoll_ctl = "epoll_op \<Rightarrow> int \<Rightarrow> 32 word \<Rightarrow> interest \<Rightarrow> bool \<times> interest"

text \<open>\<^verbatim>\<open>io_event\<close>; an empty \<^verbatim>\<open>std::function\<close> is \<^const>\<open>None\<close>.\<close>

record 'cb io_event =
  ev_event :: "32 word"
  read_callback :: "'cb option"
  write_callback :: "'cb option"

record 'cb epoll =
  ep_kernel :: interest
  ep_listen_fds :: "int set"
  ep_event_map :: "int \<rightharpoonup> 'cb io_event"

text \<open>The constructor asserts that the kernel gave a descriptor above 0.\<close>

definition epoll_new :: "int \<Rightarrow> 'cb epoll result" where
  "epoll_new epoll_fd =
     rbind (c_assert (epoll_fd > 0)) (\<lambda>_. Inr \<lparr>ep_kernel = Map.empty, ep_listen_fds = {}, ep_event_map = Map.empty\<rparr>)"

text \<open>\<^verbatim>\<open>ep_event_map[fd]\<close>: a missing entry is created, with both callbacks empty and the events 0.\<close>

definition map_entry :: "int \<Rightarrow> 'cb epoll \<Rightarrow> 'cb io_event" where
  "map_entry fd ep = (case ep_event_map ep fd of None \<Rightarrow> \<lparr>ev_event = 0, read_callback = None, write_callback = None\<rparr> | Some e \<Rightarrow> e)"

definition final_events :: "int \<Rightarrow> 32 word \<Rightarrow> 'cb epoll \<Rightarrow> 32 word" where
  "final_events fd event ep = (case ep_event_map ep fd of None \<Rightarrow> event | Some e \<Rightarrow> ev_event e OR event)"

definition epoll_add :: "epoll_ctl \<Rightarrow> int \<Rightarrow> 32 word \<Rightarrow> 'cb \<Rightarrow> 'cb epoll \<Rightarrow> 'cb epoll" where
  "epoll_add ctl fd event cb ep =
     (let final = final_events fd event ep;
          op = (if ep_event_map ep fd = None then EPOLL_CTL_ADD else EPOLL_CTL_MOD);
          e = map_entry fd ep;
          e = (if event AND EPOLLIN \<noteq> 0 then e\<lparr>read_callback := Some cb\<rparr>
               else if event AND EPOLLOUT \<noteq> 0 then e\<lparr>write_callback := Some cb\<rparr> else e);
          ep = ep\<lparr>ep_event_map := (ep_event_map ep)(fd \<mapsto> e\<lparr>ev_event := final\<rparr>)\<rparr>
      in case ctl op fd final (ep_kernel ep) of
           (False, k) \<Rightarrow> ep\<lparr>ep_kernel := k\<rparr>
         | (True, k) \<Rightarrow> ep\<lparr>ep_kernel := k, ep_listen_fds := insert fd (ep_listen_fds ep)\<rparr>)"

definition epoll_del :: "epoll_ctl \<Rightarrow> int \<Rightarrow> 'cb epoll \<Rightarrow> 'cb epoll" where
  "epoll_del ctl fd ep =
     (let ep = ep\<lparr>ep_event_map := (ep_event_map ep)(fd := None), ep_listen_fds := ep_listen_fds ep - {fd}\<rparr>
      in ep\<lparr>ep_kernel := snd (ctl EPOLL_CTL_DEL fd 0 (ep_kernel ep))\<rparr>)"

definition epoll_del_event :: "epoll_ctl \<Rightarrow> int \<Rightarrow> 32 word \<Rightarrow> 'cb epoll \<Rightarrow> 'cb epoll" where
  "epoll_del_event ctl fd event ep =
     (case ep_event_map ep fd of
        None \<Rightarrow> ep
      | Some e \<Rightarrow>
        let target = ev_event e AND NOT event;
            ep = ep\<lparr>ep_event_map := (ep_event_map ep)(fd \<mapsto> e\<lparr>ev_event := target\<rparr>)\<rparr>
        in if target = 0 then epoll_del ctl fd ep
           else ep\<lparr>ep_kernel := snd (ctl EPOLL_CTL_MOD fd target (ep_kernel ep))\<rparr>)"

definition get_listen_fds :: "'cb epoll \<Rightarrow> int set" where
  "get_listen_fds ep = ep_listen_fds ep"

section \<open>Dispatch\<close>

text \<open>
  Which callback an event runs. A callback is an argument of the model: \<^verbatim>\<open>run\<close> says what it does to
  the state \<^verbatim>\<open>'s\<close> it shares with the poller, of which \<^verbatim>\<open>get\<close> is the poller.
\<close>

datatype 'cb dispatch = Run 'cb | Skip | Forget

definition choose_cb :: "32 word \<Rightarrow> 'cb io_event \<Rightarrow> 'cb dispatch" where
  "choose_cb events ev =
     (if events AND EPOLLIN \<noteq> 0 then (case read_callback ev of Some cb \<Rightarrow> Run cb | None \<Rightarrow> Skip)
      else if events AND EPOLLOUT \<noteq> 0 then (case write_callback ev of Some cb \<Rightarrow> Run cb | None \<Rightarrow> Skip)
      else if events AND (EPOLLHUP OR EPOLLERR) \<noteq> 0 then
        (case read_callback ev of Some cb \<Rightarrow> Run cb
         | None \<Rightarrow> (case write_callback ev of Some cb \<Rightarrow> Run cb | None \<Rightarrow> Forget))
      else Skip)"

abbreviation dispatch_event :: "epoll_ctl \<Rightarrow> ('cb \<Rightarrow> 's \<Rightarrow> 's result) \<Rightarrow> ('s \<Rightarrow> 'cb epoll) \<Rightarrow> ('cb epoll \<Rightarrow> 's \<Rightarrow> 's) \<Rightarrow>
    int \<Rightarrow> 32 word \<Rightarrow> 'cb io_event \<Rightarrow> 's \<Rightarrow> 's result" where
  "dispatch_event ctl run get put fd events ev s \<equiv>
     (case choose_cb events ev of
        Run cb \<Rightarrow> run cb s
      | Skip \<Rightarrow> Inr s
      | Forget \<Rightarrow> Inr (put (epoll_del ctl fd (get s)) s))"

fun execute_cbs :: "epoll_ctl \<Rightarrow> ('cb \<Rightarrow> 's \<Rightarrow> 's result) \<Rightarrow> ('s \<Rightarrow> 'cb epoll) \<Rightarrow> ('cb epoll \<Rightarrow> 's \<Rightarrow> 's) \<Rightarrow>
    (int \<times> 32 word) list \<Rightarrow> 's \<Rightarrow> 's result" where
  "execute_cbs ctl run get put [] s = Inr s"
| "execute_cbs ctl run get put ((fd, events) # evs) s =
     (case ep_event_map (get s) fd of
        None \<Rightarrow> Inl Assertion
      | Some ev \<Rightarrow>
        rbind (dispatch_event ctl run get put fd events ev s) (\<lambda>s. execute_cbs ctl run get put evs s))"

text \<open>\<^verbatim>\<open>poll\<close>: an error of \<^verbatim>\<open>epoll_wait\<close> is retried, whatever it is; the answers are listed.\<close>

fun poll :: "epoll_ctl \<Rightarrow> ('cb \<Rightarrow> 's \<Rightarrow> 's result) \<Rightarrow> ('s \<Rightarrow> 'cb epoll) \<Rightarrow> ('cb epoll \<Rightarrow> 's \<Rightarrow> 's) \<Rightarrow>
    (int \<times> 32 word) list option list \<Rightarrow> 's \<Rightarrow> (nat \<times> 's) result" where
  "poll ctl run get put [] s = Inl Starved"
| "poll ctl run get put (None # ws) s = poll ctl run get put ws s"
| "poll ctl run get put (Some evs # ws) s =
     rbind (execute_cbs ctl run get put evs s) (\<lambda>s. Inr (length evs, s))"

section \<open>What the code relies on of the kernel\<close>

text \<open>epoll\_ctl(2): a successful call changes the list as it says, a failed one leaves it alone;
  adding a descriptor twice, or changing or removing an absent one, fails; removing a present one
  succeeds.\<close>

locale epoll_kernel =
  fixes ctl :: epoll_ctl
  assumes ctl_fails: "ctl op fd ev k = (False, k') \<Longrightarrow> k' = k"
    and ctl_sets: "op \<noteq> EPOLL_CTL_DEL \<Longrightarrow> ctl op fd ev k = (True, k') \<Longrightarrow> k' = k(fd \<mapsto> ev)"
    and ctl_add_dup: "k fd \<noteq> None \<Longrightarrow> \<not> fst (ctl EPOLL_CTL_ADD fd ev k)"
    and ctl_mod_absent: "k fd = None \<Longrightarrow> \<not> fst (ctl EPOLL_CTL_MOD fd ev k)"
    and ctl_del: "snd (ctl EPOLL_CTL_DEL fd ev k) = k(fd := None)"
begin

lemma ctl_cases: "op \<noteq> EPOLL_CTL_DEL \<Longrightarrow> snd (ctl op fd ev k) = (if fst (ctl op fd ev k) then k(fd \<mapsto> ev) else k)"
  using ctl_sets[of op fd ev k "snd (ctl op fd ev k)"] ctl_fails[of op fd ev k "snd (ctl op fd ev k)"]
  by (cases "ctl op fd ev k") auto

end

text \<open>The kernel takes changes of a descriptor it watches.\<close>

definition ctl_accepts :: "epoll_ctl \<Rightarrow> bool" where
  "ctl_accepts ctl \<longleftrightarrow> (\<forall>fd ev k. k fd \<noteq> None \<longrightarrow> fst (ctl EPOLL_CTL_MOD fd ev k))"

lemma ctl_mod_ok: "ctl_accepts ctl \<Longrightarrow> fst (ctl EPOLL_CTL_MOD fd ev k) \<or> k fd = None"
  by (auto simp: ctl_accepts_def)

text \<open>A kernel that has not reached its limits: it also takes every new descriptor.\<close>

locale roomy_kernel = epoll_kernel +
  assumes ctl_takes: "k fd = None \<Longrightarrow> fst (ctl EPOLL_CTL_ADD fd ev k)"
    and ctl_changes: "k fd \<noteq> None \<Longrightarrow> fst (ctl EPOLL_CTL_MOD fd ev k)"
begin

lemma accepts: "ctl_accepts ctl"
  by (simp add: ctl_accepts_def ctl_changes)

end

text \<open>A kernel with a list of given size, and one without a limit.\<close>

definition ctl_model :: "nat \<Rightarrow> epoll_ctl" where
  "ctl_model n op fd ev k =
     (case op of
        EPOLL_CTL_ADD \<Rightarrow> if k fd = None \<and> finite (dom k) \<and> card (dom k) < n then (True, k(fd \<mapsto> ev)) else (False, k)
      | EPOLL_CTL_MOD \<Rightarrow> if k fd \<noteq> None then (True, k(fd \<mapsto> ev)) else (False, k)
      | EPOLL_CTL_DEL \<Rightarrow> if k fd \<noteq> None then (True, k(fd := None)) else (False, k))"

definition ctl_free :: epoll_ctl where
  "ctl_free op fd ev k =
     (case op of
        EPOLL_CTL_ADD \<Rightarrow> if k fd = None then (True, k(fd \<mapsto> ev)) else (False, k)
      | EPOLL_CTL_MOD \<Rightarrow> if k fd \<noteq> None then (True, k(fd \<mapsto> ev)) else (False, k)
      | EPOLL_CTL_DEL \<Rightarrow> if k fd \<noteq> None then (True, k(fd := None)) else (False, k))"

lemma epoll_kernelI:
  assumes "\<And>fd ev k. ctl EPOLL_CTL_ADD fd ev k = (if takes fd k \<and> k fd = None then (True, k(fd \<mapsto> ev)) else (False, k))"
    and "\<And>fd ev k. ctl EPOLL_CTL_MOD fd ev k = (if k fd \<noteq> None then (True, k(fd \<mapsto> ev)) else (False, k))"
    and "\<And>fd ev k. ctl EPOLL_CTL_DEL fd ev k = (if k fd \<noteq> None then (True, k(fd := None)) else (False, k))"
  shows "epoll_kernel ctl"
proof
  fix op fd ev k k'
  show "ctl op fd ev k = (False, k') \<Longrightarrow> k' = k" by (cases op) (auto simp: assms split: if_splits)
  show "op \<noteq> EPOLL_CTL_DEL \<Longrightarrow> ctl op fd ev k = (True, k') \<Longrightarrow> k' = k(fd \<mapsto> ev)"
    by (cases op) (auto simp: assms split: if_splits)
  show "k fd \<noteq> None \<Longrightarrow> \<not> fst (ctl EPOLL_CTL_ADD fd ev k)" "k fd = None \<Longrightarrow> \<not> fst (ctl EPOLL_CTL_MOD fd ev k)"
    by (auto simp: assms)
  show "snd (ctl EPOLL_CTL_DEL fd ev k) = k(fd := None)" by (auto simp: assms fun_upd_idem)
qed

lemma ctl_model_kernel: "epoll_kernel (ctl_model n)"
  by (rule epoll_kernelI[where takes = "\<lambda>fd k. finite (dom k) \<and> card (dom k) < n"]) (auto simp: ctl_model_def)

interpretation kernel_model: epoll_kernel "ctl_model n" for n
  by (rule ctl_model_kernel)

lemma ctl_model_accepts: "ctl_accepts (ctl_model n)"
  by (simp add: ctl_accepts_def ctl_model_def)

lemma ctl_free_kernel: "epoll_kernel ctl_free"
  by (rule epoll_kernelI[where takes = "\<lambda>fd k. True"]) (auto simp: ctl_free_def)

lemma ctl_free_roomy: "roomy_kernel ctl_free"
  by (intro roomy_kernel.intro roomy_kernel_axioms.intro ctl_free_kernel) (auto simp: ctl_free_def)

interpretation free: roomy_kernel ctl_free
  by (rule ctl_free_roomy)

section \<open>The map and the kernel agree\<close>

definition in_sync :: "'cb epoll \<Rightarrow> bool" where
  "in_sync ep \<longleftrightarrow> (\<forall>fd. ep_kernel ep fd = map_option ev_event (ep_event_map ep fd)) \<and>
     ep_listen_fds ep = dom (ep_event_map ep)"

definition add_entry :: "int \<Rightarrow> 32 word \<Rightarrow> 'cb \<Rightarrow> 'cb epoll \<Rightarrow> 'cb io_event" where
  "add_entry fd event cb ep =
     (let e = map_entry fd ep in
      (if event AND EPOLLIN \<noteq> 0 then e\<lparr>read_callback := Some cb\<rparr>
       else if event AND EPOLLOUT \<noteq> 0 then e\<lparr>write_callback := Some cb\<rparr> else e)\<lparr>ev_event := final_events fd event ep\<rparr>)"

definition add_op :: "int \<Rightarrow> 'cb epoll \<Rightarrow> epoll_op" where
  "add_op fd ep = (if ep_event_map ep fd = None then EPOLL_CTL_ADD else EPOLL_CTL_MOD)"

lemma epoll_add_eq:
  assumes "epoll_kernel ctl"
  shows "epoll_add ctl fd event cb ep =
     ep\<lparr>ep_event_map := (ep_event_map ep)(fd \<mapsto> add_entry fd event cb ep),
        ep_kernel := (if fst (ctl (add_op fd ep) fd (final_events fd event ep) (ep_kernel ep))
                      then (ep_kernel ep)(fd \<mapsto> final_events fd event ep) else ep_kernel ep),
        ep_listen_fds := (if fst (ctl (add_op fd ep) fd (final_events fd event ep) (ep_kernel ep))
                      then insert fd (ep_listen_fds ep) else ep_listen_fds ep)\<rparr>"
  using epoll_kernel.ctl_cases[OF assms, of "add_op fd ep" fd "final_events fd event ep" "ep_kernel ep"]
  by (cases "ctl (add_op fd ep) fd (final_events fd event ep) (ep_kernel ep)")
    (auto simp: epoll_add_def add_entry_def add_op_def Let_def)

lemma epoll_add_sync:
  assumes k: "epoll_kernel ctl" and sync: "in_sync ep"
    and ok: "fst (ctl (add_op fd ep) fd (final_events fd event ep) (ep_kernel ep))"
  shows "in_sync (epoll_add ctl fd event cb ep)"
  using sync ok unfolding epoll_add_eq[OF k] by (auto simp: in_sync_def add_entry_def Let_def)

lemma epoll_del_sync:
  assumes "epoll_kernel ctl" "in_sync ep"
  shows "in_sync (epoll_del ctl fd ep) \<and> ep_event_map (epoll_del ctl fd ep) = (ep_event_map ep)(fd := None)"
  using assms(2) epoll_kernel.ctl_del[OF assms(1)] by (auto simp: in_sync_def epoll_del_def Let_def)

text \<open>Dropping one event of a descriptor, when the kernel takes the change.\<close>

lemma epoll_del_event_sync:
  assumes k: "epoll_kernel ctl" and sync: "in_sync ep"
    and ok: "\<And>ev. fst (ctl EPOLL_CTL_MOD fd ev (ep_kernel ep)) \<or> ep_kernel ep fd = None"
  shows "in_sync (epoll_del_event ctl fd event ep) \<and>
     ep_kernel (epoll_del_event ctl fd event ep) fd =
       (case ep_kernel ep fd of None \<Rightarrow> None | Some e \<Rightarrow> if e AND NOT event = 0 then None else Some (e AND NOT event))"
proof (cases "ep_event_map ep fd")
  case None
  then show ?thesis using sync by (simp add: epoll_del_event_def in_sync_def)
next
  case (Some e)
  then have kf: "ep_kernel ep fd = Some (ev_event e)" using sync by (simp add: in_sync_def)
  let ?t = "ev_event e AND NOT event"
  show ?thesis
  proof (cases "?t = 0")
    case True
    then show ?thesis using Some kf sync epoll_kernel.ctl_del[OF k]
      by (auto simp: epoll_del_event_def epoll_del_def in_sync_def Let_def)
  next
    case False
    have "snd (ctl EPOLL_CTL_MOD fd ?t (ep_kernel ep)) = (ep_kernel ep)(fd \<mapsto> ?t)"
      using epoll_kernel.ctl_cases[OF k, of EPOLL_CTL_MOD fd ?t "ep_kernel ep"] ok[of ?t] kf by simp
    then show ?thesis using Some kf sync False by (auto simp: epoll_del_event_def in_sync_def Let_def)
  qed
qed

section \<open>A batch of events\<close>

text \<open>Every callback returns and keeps the entries of all descriptors but its own.\<close>

definition well_behaved :: "('cb \<Rightarrow> int) \<Rightarrow> ('cb \<Rightarrow> 's \<Rightarrow> 's result) \<Rightarrow> ('s \<Rightarrow> 'cb epoll) \<Rightarrow> bool" where
  "well_behaved owner run get \<longleftrightarrow>
     (\<forall>cb s. \<exists>s'. run cb s = Inr s' \<and> (\<forall>fd. fd \<noteq> owner cb \<longrightarrow> ep_event_map (get s') fd = ep_event_map (get s) fd))"

definition owned :: "('cb \<Rightarrow> int) \<Rightarrow> int \<Rightarrow> 'cb io_event \<Rightarrow> bool" where
  "owned owner fd e \<longleftrightarrow> (\<forall>cb. read_callback e = Some cb \<or> write_callback e = Some cb \<longrightarrow> owner cb = fd)"

lemma choose_cb_registered: "choose_cb events e = Run cb \<Longrightarrow> read_callback e = Some cb \<or> write_callback e = Some cb"
  by (auto simp: choose_cb_def split: if_splits option.splits)

text \<open>
  The contract of the callbacks towards the dispatcher: from a state in which \<open>inv\<close> holds and the event of
  a registered descriptor can be handled, handling it ends in an admitted fault, or keeps \<open>inv\<close>, the entries
  of the other descriptors, and that their events can be handled.
\<close>

locale dispatcher =
  fixes ctl :: epoll_ctl and run :: "'cb \<Rightarrow> 's \<Rightarrow> 's result" and get :: "'s \<Rightarrow> 'cb epoll" and put :: "'cb epoll \<Rightarrow> 's \<Rightarrow> 's"
    and inv :: "'s \<Rightarrow> bool" and can_handle :: "int \<Rightarrow> 's \<Rightarrow> bool" and admitted :: "fault \<Rightarrow> bool"
  assumes handled: "inv s \<Longrightarrow> ep_event_map (get s) fd = Some e \<Longrightarrow> can_handle fd s \<Longrightarrow>
     case dispatch_event ctl run get put fd events e s of
       Inl f \<Rightarrow> admitted f
     | Inr s' \<Rightarrow> inv s' \<and> (\<forall>fd'. fd' \<noteq> fd \<longrightarrow>
         ep_event_map (get s') fd' = ep_event_map (get s) fd' \<and> (can_handle fd' s \<longrightarrow> can_handle fd' s'))"
begin

lemma batch:
  assumes "inv s" "distinct (map fst evs)" "\<forall>fd \<in> set (map fst evs). ep_event_map (get s) fd \<noteq> None \<and> can_handle fd s"
  shows "case execute_cbs ctl run get put evs s of Inl f \<Rightarrow> admitted f | Inr s' \<Rightarrow> inv s'"
  using assms
proof (induction evs arbitrary: s)
  case (Cons ev evs)
  obtain fd events where ev: "ev = (fd, events)" by (cases ev)
  obtain e where e: "ep_event_map (get s) fd = Some e" "can_handle fd s" using Cons.prems(3) ev by auto
  note h = handled[OF Cons.prems(1) e, of events]
  show ?case
  proof (cases "dispatch_event ctl run get put fd events e s")
    case (Inl f)
    then show ?thesis using h ev e(1) by simp
  next
    case (Inr s1)
    have "fd \<notin> set (map fst evs)" using Cons.prems(2) ev by simp
    moreover have "\<forall>fd'. fd' \<noteq> fd \<longrightarrow> ep_event_map (get s1) fd' = ep_event_map (get s) fd' \<and> (can_handle fd' s \<longrightarrow> can_handle fd' s1)"
      using h unfolding Inr by simp
    moreover have "\<forall>fd' \<in> set (map fst evs). ep_event_map (get s) fd' \<noteq> None \<and> can_handle fd' s"
      using Cons.prems(3) by simp
    ultimately have "\<forall>fd' \<in> set (map fst evs). ep_event_map (get s1) fd' \<noteq> None \<and> can_handle fd' s1"
      by metis
    then show ?thesis using Cons.IH[of s1] Cons.prems(2) h Inr ev e(1) by simp
  qed
qed simp

text \<open>\<^verbatim>\<open>poll\<close>, whatever errors \<^verbatim>\<open>epoll_wait\<close> gives first.\<close>

lemma polled:
  assumes "inv s" "distinct (map fst evs)" "\<forall>fd \<in> set (map fst evs). ep_event_map (get s) fd \<noteq> None \<and> can_handle fd s"
  shows "case poll ctl run get put (replicate errors None @ Some evs # ws) s of
      Inl f \<Rightarrow> admitted f | Inr (n, s') \<Rightarrow> n = length evs \<and> inv s'"
proof (induction errors)
  case 0
  then show ?case using batch[OF assms] by (cases "execute_cbs ctl run get put evs s") simp_all
qed simp

end

lemma execute_cbs_safe:
  assumes wb: "well_behaved owner run get" and put: "\<And>ep s. get (put ep s) = ep"
    and evs: "distinct (map fst evs)" "\<forall>fd \<in> set (map fst evs). \<exists>e. ep_event_map (get s) fd = Some e \<and> owned owner fd e"
  shows "\<exists>s'. execute_cbs ctl run get put evs s = Inr s'"
proof -
  let ?own = "\<lambda>fd s. \<forall>e. ep_event_map (get s) fd = Some e \<longrightarrow> owned owner fd e"
  have d: "dispatcher ctl run get put (\<lambda>_. True) ?own (\<lambda>_. False)"
  proof
    fix s fd e events
    assume e: "ep_event_map (get s) fd = Some e" and own: "?own fd s"
    show "case dispatch_event ctl run get put fd events e s of Inl f \<Rightarrow> False
      | Inr s' \<Rightarrow> True \<and> (\<forall>fd'. fd' \<noteq> fd \<longrightarrow> ep_event_map (get s') fd' = ep_event_map (get s) fd' \<and> (?own fd' s \<longrightarrow> ?own fd' s'))"
    proof (cases "choose_cb events e")
      case (Run cb)
      then have "owner cb = fd" using e own choose_cb_registered[OF Run] by (auto simp: owned_def)
      then obtain s' where "run cb s = Inr s'" "\<forall>fd'. fd' \<noteq> fd \<longrightarrow> ep_event_map (get s') fd' = ep_event_map (get s) fd'"
        using wb unfolding well_behaved_def by blast
      then show ?thesis using Run by simp
    qed (simp_all add: put epoll_del_def Let_def)
  qed
  have "\<forall>fd \<in> set (map fst evs). ep_event_map (get s) fd \<noteq> None \<and> ?own fd s" using evs(2) by fastforce
  from dispatcher.batch[OF d TrueI evs(1) this] show ?thesis
    by (cases "execute_cbs ctl run get put evs s") simp_all
qed

text \<open>Whatever every callback and the removal of a descriptor keep, a poll keeps.\<close>

lemma execute_cbs_keeps:
  assumes run: "\<And>cb s s'. P s \<Longrightarrow> run cb s = Inr s' \<Longrightarrow> P s'" and put: "\<And>fd e s. P s \<Longrightarrow> ep_event_map (get s) fd = Some e \<Longrightarrow> read_callback e = None \<Longrightarrow> P (put (epoll_del ctl fd (get s)) s)"
  shows "P s \<Longrightarrow> execute_cbs ctl run get put evs s = Inr s' \<Longrightarrow> P s'"
proof (induction evs arbitrary: s)
  case (Cons ev evs)
  obtain fd events where ev: "ev = (fd, events)" by (cases ev)
  then obtain e where e: "ep_event_map (get s) fd = Some e" using Cons.prems(2) by (cases "ep_event_map (get s) fd") auto
  then obtain s1 where s1: "(case choose_cb events e of Run cb \<Rightarrow> run cb s | Skip \<Rightarrow> Inr s
       | Forget \<Rightarrow> Inr (put (epoll_del ctl fd (get s)) s)) = Inr s1" "execute_cbs ctl run get put evs s1 = Inr s'"
    using Cons.prems(2) ev by (auto simp: result_iff)
  have "read_callback e = None" if "choose_cb events e = Forget" using that by (auto simp: choose_cb_def split: if_splits option.splits)
  then have "P s1" using s1(1) Cons.prems(1) run put[OF _ e] by (cases "choose_cb events e") auto
  then show ?case using Cons.IH s1(2) by blast
qed simp

lemma poll_keeps:
  assumes "\<And>cb s s'. P s \<Longrightarrow> run cb s = Inr s' \<Longrightarrow> P s'" "\<And>fd e s. P s \<Longrightarrow> ep_event_map (get s) fd = Some e \<Longrightarrow> read_callback e = None \<Longrightarrow> P (put (epoll_del ctl fd (get s)) s)"
    and "P s" "poll ctl run get put ws s = Inr (n, s')"
  shows "P s'"
  using assms(4)
proof (induction ws)
  case (Cons w ws)
  then show ?case using execute_cbs_keeps[of P run get put ctl, OF assms(1,2,3)] by (cases w) (auto simp: result_iff)
qed simp

section \<open>Properties of the poller\<close>

text \<open>
  C20. As long as the kernel accepts the calls, the wrapper's map and the kernel's interest list
  agree: after \<^verbatim>\<open>epoll_add\<close> the kernel watches the descriptor for the old events and the new one,
  after \<^verbatim>\<open>epoll_del\<close> of an event for the others only, and not at all when none is left.
\<close>

theorem epoll_interest:
  assumes k: "epoll_kernel ctl" and sync: "in_sync ep"
    and add: "fst (ctl (add_op fd ep) fd (final_events fd event ep) (ep_kernel ep))"
    and modify: "\<And>ev. fst (ctl EPOLL_CTL_MOD fd ev (ep_kernel ep)) \<or> ep_kernel ep fd = None"
  shows "in_sync (epoll_add ctl fd event cb ep) \<and>
     ep_kernel (epoll_add ctl fd event cb ep) fd =
       Some (case ep_kernel ep fd of None \<Rightarrow> event | Some old \<Rightarrow> old OR event) \<and>
     in_sync (epoll_del_event ctl fd event ep) \<and>
     ep_kernel (epoll_del_event ctl fd event ep) fd =
       (case ep_kernel ep fd of None \<Rightarrow> None | Some e \<Rightarrow> if e AND NOT event = 0 then None else Some (e AND NOT event)) \<and>
     in_sync (epoll_del ctl fd ep) \<and> ep_kernel (epoll_del ctl fd ep) fd = None"
proof -
  have "ep_kernel (epoll_add ctl fd event cb ep) fd = Some (final_events fd event ep)"
    using add unfolding epoll_add_eq[OF k] by simp
  moreover have "final_events fd event ep = (case ep_kernel ep fd of None \<Rightarrow> event | Some old \<Rightarrow> old OR event)"
    using sync by (auto simp: final_events_def in_sync_def split: option.splits)
  moreover have d: "in_sync (epoll_del ctl fd ep) \<and> ep_event_map (epoll_del ctl fd ep) fd = None"
    using epoll_del_sync[OF k sync, of fd] by simp
  moreover have "ep_kernel (epoll_del ctl fd ep) fd = None" using d unfolding in_sync_def by simp
  ultimately show ?thesis using epoll_add_sync[OF k sync add] epoll_del_event_sync[OF k sync modify] by simp
qed

definition idle_poller :: "nat epoll" where
  "idle_poller = \<lparr>ep_kernel = Map.empty, ep_listen_fds = {}, ep_event_map = Map.empty\<rparr>"

theorem epoll_interest_witness:
  "in_sync (epoll_add (ctl_model 8) 5 EPOLLIN 0 idle_poller) \<and> ep_kernel (epoll_add (ctl_model 8) 5 EPOLLIN 0 idle_poller) 5 = Some EPOLLIN"
proof -
  have "in_sync idle_poller" "ep_kernel idle_poller = Map.empty"
    "fst (ctl_model 8 (add_op 5 idle_poller) 5 (final_events 5 EPOLLIN idle_poller) (ep_kernel idle_poller))"
    by (simp_all add: idle_poller_def in_sync_def add_op_def ctl_model_def)
  from epoll_interest[OF ctl_model_kernel this(1,3), of 0] this(2) show ?thesis by simp
qed

text \<open>
  A refused \<^verbatim>\<open>epoll_add\<close> is never made good: the entry of a new descriptor stays in the map though
  the kernel does not watch it, so every later \<^verbatim>\<open>epoll_add\<close> of that descriptor asks the kernel to
  modify an absent entry and is refused too, until the descriptor is deleted.
\<close>

theorem epoll_add_refused_sticks:
  assumes k: "epoll_kernel ctl" and new: "ep_event_map ep fd = None" "ep_kernel ep fd = None"
    and refused: "\<not> fst (ctl EPOLL_CTL_ADD fd event (ep_kernel ep))"
  shows "ep_kernel (foldl (\<lambda>ep (ev, cb). epoll_add ctl fd ev cb ep) (epoll_add ctl fd event cb ep) later) fd = None"
proof -
  let ?dead = "\<lambda>ep :: 'b epoll. ep_event_map ep fd \<noteq> None \<and> ep_kernel ep fd = None"
  have first: "?dead (epoll_add ctl fd event cb ep)"
    using new refused unfolding epoll_add_eq[OF k] by (simp add: add_op_def final_events_def)
  have step: "?dead (epoll_add ctl fd ev cb ep)" if "?dead ep" for ev cb ep
    using that epoll_kernel.ctl_mod_absent[OF k] unfolding epoll_add_eq[OF k] by (auto simp: add_op_def)
  have "?dead (foldl (\<lambda>ep (ev, cb). epoll_add ctl fd ev cb ep) ep0 later)" if "?dead ep0" for ep0
    using that
  proof (induction later arbitrary: ep0)
    case (Cons m later)
    obtain ev c where m: "m = (ev, c)" by (cases m)
    show ?case using Cons.IH[OF step[OF Cons.prems, of ev c]] m by simp
  qed simp
  then show ?thesis using first by blast
qed

theorem epoll_add_refused_sticks_witness:
  "ep_kernel (foldl (\<lambda>ep (ev, cb). epoll_add (ctl_model 0) 5 ev cb ep)
     (epoll_add (ctl_model 0) 5 EPOLLIN 0 idle_poller) [(EPOLLIN, 1), (EPOLLOUT, 2)]) 5 = None"
  by (rule epoll_add_refused_sticks[OF ctl_model_kernel]) (simp_all add: idle_poller_def ctl_model_def)

text \<open>
  A batch of events is dispatched without failing the assertion, in full, when the events are of
  different registered descriptors and every callback returns and keeps the entries of the other
  descriptors.
\<close>

theorem execute_cbs_batch:
  assumes "well_behaved owner run get" "\<And>ep s. get (put ep s) = ep" "distinct (map fst evs)"
    "\<forall>fd \<in> set (map fst evs). \<exists>e. ep_event_map (get s) fd = Some e \<and> owned owner fd e"
  shows "\<exists>s'. execute_cbs ctl run get put evs s = Inr s'"
  by (rule execute_cbs_safe[OF assms])

definition busy_poller :: "nat epoll" where
  "busy_poller = epoll_add (ctl_model 8) 6 EPOLLIN 6 (epoll_add (ctl_model 8) 5 EPOLLIN 5 idle_poller)"

lemma busy_poller_map:
  "ep_event_map busy_poller 5 = Some \<lparr>ev_event = EPOLLIN, read_callback = Some 5, write_callback = None\<rparr>"
  "ep_event_map busy_poller 6 = Some \<lparr>ev_event = EPOLLIN, read_callback = Some 6, write_callback = None\<rparr>"
  by (simp_all add: busy_poller_def idle_poller_def epoll_add_eq[OF ctl_model_kernel] add_entry_def map_entry_def
      final_events_def Let_def)

theorem execute_cbs_batch_witness:
  "\<exists>s'. execute_cbs (ctl_model 8) (\<lambda>cb (s :: nat epoll). Inr s) (\<lambda>ep. ep) (\<lambda>ep _. ep) [(5, EPOLLIN), (6, EPOLLIN)] busy_poller = Inr s'"
proof -
  have "owned int 5 \<lparr>ev_event = EPOLLIN, read_callback = Some 5, write_callback = None\<rparr>"
    "owned int 6 \<lparr>ev_event = EPOLLIN, read_callback = Some 6, write_callback = None\<rparr>"
    by (simp_all add: owned_def)
  moreover have "well_behaved int (\<lambda>cb (s :: nat epoll). Inr s) (\<lambda>ep. ep)" by (simp add: well_behaved_def)
  ultimately show ?thesis
    by (intro execute_cbs_batch[where owner = int]) (simp_all add: busy_poller_map)
qed

text \<open>
  When the callback of one event removes the descriptor of a later event of the batch, the
  assertion fails and the process ends.
\<close>

theorem execute_cbs_removed:
  assumes "ep_event_map (get s) fd1 = Some e1" "choose_cb ev1 e1 = Run cb" "run cb s = Inr s1" "ep_event_map (get s1) fd2 = None"
  shows "execute_cbs ctl run get put ((fd1, ev1) # (fd2, ev2) # rest) s = Inl Assertion"
  using assms by simp

theorem execute_cbs_removed_witness:
  "execute_cbs (ctl_model 8) (\<lambda>cb ep. Inr (epoll_del (ctl_model 8) 6 ep)) (\<lambda>ep. ep) (\<lambda>ep _. ep)
     [(5, EPOLLIN), (6, EPOLLIN)] busy_poller = Inl Assertion"
  by (rule execute_cbs_removed[where get = "\<lambda>ep. ep" and cb = 5 and ?s1.0 = "epoll_del (ctl_model 8) 6 busy_poller", OF busy_poller_map(1)])
    (simp_all add: choose_cb_def epoll_del_def Let_def)

end
