(* ===== verification/Hash_Map.thy ===== *)
theory Hash_Map
  imports Prelude
begin

text \<open>
  The locked hash map (src/timer/hash_map.h). Every member function runs under the map's mutex, so
  a call is one atomic operation on a finite map; the interface the timer relies on is a locale.
\<close>

type_synonym ('k, 'v) hash_map = "'k \<rightharpoonup> 'v"

definition hm_new :: "('k, 'v) hash_map" where
  "hm_new = Map.empty"

definition hm_emplace :: "'k \<Rightarrow> 'v \<Rightarrow> ('k, 'v) hash_map \<Rightarrow> ('k, 'v) hash_map" where
  "hm_emplace key v m = m(key \<mapsto> v)"

definition hm_erase :: "'k \<Rightarrow> ('k, 'v) hash_map \<Rightarrow> ('k, 'v) hash_map" where
  "hm_erase key m = (if m key \<noteq> None then m(key := None) else m)"

text \<open>\<^verbatim>\<open>get_val\<close> returns false and leaves its output argument alone when the key is absent.\<close>

definition hm_get_val :: "'k \<Rightarrow> 'v \<Rightarrow> ('k, 'v) hash_map \<Rightarrow> bool \<times> 'v" where
  "hm_get_val key old m = (case m key of None \<Rightarrow> (False, old) | Some v \<Rightarrow> (True, v))"

definition hm_is_key_exist :: "'k \<Rightarrow> ('k, 'v) hash_map \<Rightarrow> bool" where
  "hm_is_key_exist key m \<longleftrightarrow> m key \<noteq> None"

definition hm_size :: "('k, 'v) hash_map \<Rightarrow> nat" where
  "hm_size m = card (dom m)"

section \<open>The interface\<close>

locale key_map =
  fixes put :: "'k \<Rightarrow> 'v \<Rightarrow> 'm \<Rightarrow> 'm" and del :: "'k \<Rightarrow> 'm \<Rightarrow> 'm" and get :: "'k \<Rightarrow> 'v \<Rightarrow> 'm \<Rightarrow> bool \<times> 'v"
    and has :: "'k \<Rightarrow> 'm \<Rightarrow> bool" and count :: "'m \<Rightarrow> nat" and fin :: "'m \<Rightarrow> bool" and empty :: 'm
  assumes has_put: "has a (put b v m) \<longleftrightarrow> a = b \<or> has a m"
    and has_del: "has a (del b m) \<longleftrightarrow> a \<noteq> b \<and> has a m"
    and has_empty: "\<not> has a empty"
    and get_put: "get a old (put b v m) = (if a = b then (True, v) else get a old m)"
    and get_fails: "\<not> has a m \<Longrightarrow> get a old m = (False, old)"
    and fin_ops: "fin empty" "fin m \<Longrightarrow> fin (put a v m)" "fin m \<Longrightarrow> fin (del a m)"
    and count_empty: "count empty = 0"
    and count_put: "fin m \<Longrightarrow> count (put a v m) = (if has a m then count m else count m + 1)"
    and count_del: "fin m \<Longrightarrow> count (del a m) = (if has a m then count m - 1 else count m)"
begin

lemma del_put: "has a (del b (put b v m)) \<longleftrightarrow> a \<noteq> b \<and> has a m"
  by (auto simp: has_del has_put)

lemma get_del: "get a old (del a m) = (False, old)"
  by (rule get_fails) (simp add: has_del)

lemma count_put_fresh: "fin m \<Longrightarrow> \<not> has a m \<Longrightarrow> count (del a (put a v m)) = count m"
  by (simp add: count_del count_put fin_ops has_put)

end

lemma card_insert_dom: "finite (dom m) \<Longrightarrow> card (insert a (dom m)) = (if m a \<noteq> None then card (dom m) else card (dom m) + 1)"
  by (auto simp: card_insert_if domIff)

interpretation hm: key_map hm_emplace hm_erase hm_get_val hm_is_key_exist hm_size "\<lambda>m. finite (dom m)" hm_new
proof
  fix m :: "('k, 'v) hash_map" and a b :: 'k and v old :: 'v
  show "hm_is_key_exist a (hm_emplace b v m) \<longleftrightarrow> a = b \<or> hm_is_key_exist a m"
    "hm_is_key_exist a (hm_erase b m) \<longleftrightarrow> a \<noteq> b \<and> hm_is_key_exist a m" "\<not> hm_is_key_exist a hm_new"
    by (auto simp: hm_is_key_exist_def hm_emplace_def hm_erase_def hm_new_def)
  show "hm_get_val a old (hm_emplace b v m) = (if a = b then (True, v) else hm_get_val a old m)"
    "\<not> hm_is_key_exist a m \<Longrightarrow> hm_get_val a old m = (False, old)"
    by (auto simp: hm_get_val_def hm_emplace_def hm_is_key_exist_def)
  show "finite (dom hm_new)" "finite (dom m) \<Longrightarrow> finite (dom (hm_emplace a v m))"
    "finite (dom m) \<Longrightarrow> finite (dom (hm_erase a m))" "hm_size hm_new = 0"
    by (simp_all add: hm_new_def hm_emplace_def hm_erase_def hm_size_def)
  show "finite (dom m) \<Longrightarrow> hm_size (hm_emplace a v m) = (if hm_is_key_exist a m then hm_size m else hm_size m + 1)"
    by (auto simp: hm_size_def hm_emplace_def hm_is_key_exist_def card_insert_dom)
  show "finite (dom m) \<Longrightarrow> hm_size (hm_erase a m) = (if hm_is_key_exist a m then hm_size m - 1 else hm_size m)"
    by (auto simp: hm_size_def hm_erase_def hm_is_key_exist_def card_Diff_singleton domIff)
qed

text \<open>The facts the timer uses.\<close>

lemmas hm_facts = hm.has_put hm.has_del hm.has_empty hm.fin_ops

end
