(* ===== verification/Threadpool.thy ===== *)
theory Threadpool
  imports Prelude "HOL-Library.Multiset"
begin

text \<open>
  The thread pool (src/threadpool/threadpool.h): a task queue, a mutex, a condition variable and
  worker threads. The workers, the callers of \<^verbatim>\<open>post_task\<close> and the destructor interleave at the
  points where they take the mutex, sleep, or touch an atomic; each such piece is one function on
  the pool and one rule of the step relation. The lemmas show that tasks start in the order they
  were queued, each once, that no queued task is forgotten while the pool runs, and what the
  destructor can do wrong.
\<close>

section \<open>The pool\<close>

abbreviation (input) THREADPOOL_MAX_NUM :: nat where "THREADPOOL_MAX_NUM \<equiv> 64"

text \<open>
  Where a worker is in its loop: before the test of \<^verbatim>\<open>tp_run\<close>; about to lock, at first or after a
  wake-up; with the mutex and a false wait predicate, about to sleep; asleep; with a task taken
  and the mutex released; in the task; returned.
\<close>

datatype 'a worker = Top | Want_lock | Sleeping_soon | Asleep | Got 'a | Running 'a | Exited

datatype destructor = Not_stopping | Stored_run | Joining

record 'a threadpool =
  tp_size :: nat
  tp_pool :: "nat \<Rightarrow> 'a worker"
  tp_tasks :: "'a list"
  tp_lock :: "nat option"
  tp_run :: bool
  tp_idl_tnum :: int
  tp_posting :: "'a multiset"   \<comment> \<open>callers between the test of \<^verbatim>\<open>tp_run\<close> and the push\<close>
  tp_notifying :: nat           \<comment> \<open>callers between the push and \<^verbatim>\<open>notify_one\<close>\<close>
  tp_destructor :: destructor
  tp_accepted :: "'a list"      \<comment> \<open>ghost: the tasks queued so far, in order\<close>
  tp_started :: "'a list"       \<comment> \<open>ghost: the tasks taken from the queue, in order\<close>
  tp_done :: "'a list"          \<comment> \<open>ghost: the tasks that returned\<close>

text \<open>\<^verbatim>\<open>add_thread\<close> starts threads up to the maximum; the constructor asserts the size first.\<close>

definition add_thread :: "nat \<Rightarrow> 'a threadpool \<Rightarrow> 'a threadpool" where
  "add_thread n tp =
     (let k = min n (THREADPOOL_MAX_NUM - tp_size tp) in
      tp\<lparr>tp_size := tp_size tp + k,
         tp_pool := (\<lambda>i. if tp_size tp \<le> i \<and> i < tp_size tp + k then Top else tp_pool tp i),
         tp_idl_tnum := tp_idl_tnum tp + int k\<rparr>)"

definition threadpool_new :: "nat \<Rightarrow> 'a threadpool result" where
  "threadpool_new n =
     rbind (c_assert (n \<le> THREADPOOL_MAX_NUM)) (\<lambda>_.
     Inr (add_thread n \<lparr>tp_size = 0, tp_pool = (\<lambda>_. Exited), tp_tasks = [], tp_lock = None, tp_run = True,
       tp_idl_tnum = 0, tp_posting = {#}, tp_notifying = 0, tp_destructor = Not_stopping,
       tp_accepted = [], tp_started = [], tp_done = []\<rparr>))"

definition idl_thread_cnt :: "'a threadpool \<Rightarrow> int" where
  "idl_thread_cnt tp = tp_idl_tnum tp"

definition thread_cnt :: "'a threadpool \<Rightarrow> nat" where
  "thread_cnt tp = tp_size tp"

abbreviation set_pc :: "nat \<Rightarrow> 'a worker \<Rightarrow> 'a threadpool \<Rightarrow> 'a threadpool" where
  "set_pc i w tp \<equiv> tp\<lparr>tp_pool := (tp_pool tp)(i := w)\<rparr>"

section \<open>Posting a task\<close>

definition post_check :: "'a \<Rightarrow> 'a threadpool \<Rightarrow> 'a threadpool result" where
  "post_check t tp =
     (if \<not> tp_run tp then Inl (Exception ''post_task on Threadpool has been stopped.'')
      else Inr (tp\<lparr>tp_posting := add_mset t (tp_posting tp)\<rparr>))"

definition post_push :: "'a \<Rightarrow> 'a threadpool \<Rightarrow> 'a threadpool" where
  "post_push t tp = tp\<lparr>tp_posting := tp_posting tp - {#t#}, tp_tasks := tp_tasks tp @ [t],
     tp_notifying := tp_notifying tp + 1, tp_accepted := tp_accepted tp @ [t]\<rparr>"

text \<open>Both in one go, for a caller that nothing interrupts.\<close>

definition post_task :: "'a \<Rightarrow> 'a threadpool \<Rightarrow> 'a threadpool result" where
  "post_task t tp = rbind (post_check t tp) (\<lambda>tp. Inr (post_push t tp))"

text \<open>\<^verbatim>\<open>notify_one\<close> wakes one sleeping worker, any one, if there is one.\<close>

definition post_notify :: "nat option \<Rightarrow> 'a threadpool \<Rightarrow> 'a threadpool" where
  "post_notify who tp =
     (let tp = tp\<lparr>tp_notifying := tp_notifying tp - 1\<rparr> in
      case who of None \<Rightarrow> tp | Some i \<Rightarrow> set_pc i Want_lock tp)"

definition asleep_at :: "nat \<Rightarrow> 'a threadpool \<Rightarrow> bool" where
  "asleep_at i tp \<longleftrightarrow> i < tp_size tp \<and> tp_pool tp i = Asleep"

section \<open>A worker\<close>

definition worker_test :: "nat \<Rightarrow> 'a threadpool \<Rightarrow> 'a threadpool" where
  "worker_test i tp = set_pc i (if tp_run tp then Want_lock else Exited) tp"

text \<open>From taking the mutex, through the predicate of \<^verbatim>\<open>wait\<close>, to sleeping or having a task.\<close>

definition worker_lock :: "nat \<Rightarrow> 'a threadpool \<Rightarrow> 'a threadpool" where
  "worker_lock i tp =
     (if \<not> (\<not> tp_run tp \<or> tp_tasks tp \<noteq> []) then (set_pc i Sleeping_soon tp)\<lparr>tp_lock := Some i\<rparr>
      else
        (case tp_tasks tp of
           [] \<Rightarrow> set_pc i Exited tp
         | t # ts \<Rightarrow> (set_pc i (Got t) tp)\<lparr>tp_tasks := ts, tp_started := tp_started tp @ [t]\<rparr>))"

definition worker_sleep :: "nat \<Rightarrow> 'a threadpool \<Rightarrow> 'a threadpool" where
  "worker_sleep i tp = (set_pc i Asleep tp)\<lparr>tp_lock := None\<rparr>"

definition worker_run :: "nat \<Rightarrow> 'a \<Rightarrow> 'a threadpool \<Rightarrow> 'a threadpool" where
  "worker_run i t tp = (set_pc i (Running t) tp)\<lparr>tp_idl_tnum := tp_idl_tnum tp - 1\<rparr>"

definition worker_finish :: "nat \<Rightarrow> 'a \<Rightarrow> 'a threadpool \<Rightarrow> 'a threadpool" where
  "worker_finish i t tp = (set_pc i Top tp)\<lparr>tp_idl_tnum := tp_idl_tnum tp + 1, tp_done := tp_done tp @ [t]\<rparr>"

section \<open>The destructor\<close>

text \<open>It stores \<^verbatim>\<open>tp_run\<close> without the mutex, wakes all sleepers, and joins.\<close>

definition stop_store :: "'a threadpool \<Rightarrow> 'a threadpool" where
  "stop_store tp = tp\<lparr>tp_run := False, tp_destructor := Stored_run\<rparr>"

definition stop_notify :: "'a threadpool \<Rightarrow> 'a threadpool" where
  "stop_notify tp = tp\<lparr>tp_pool := (\<lambda>i. if asleep_at i tp then Want_lock else tp_pool tp i), tp_destructor := Joining\<rparr>"

section \<open>Interleavings\<close>

text \<open>The label says who moves; \<open>Spurious\<close> is a wake-up that nobody caused.\<close>

datatype actor = Poster | Worker nat | Spurious nat | Destructor

inductive tp_step :: "actor \<Rightarrow> 'a threadpool \<Rightarrow> 'a threadpool \<Rightarrow> bool" where
  tp_post_check: "post_check t tp = Inr tp' \<Longrightarrow> tp_step Poster tp tp'"
| tp_post_push: "t \<in># tp_posting tp \<Longrightarrow> tp_lock tp = None \<Longrightarrow> tp_step Poster tp (post_push t tp)"
| tp_notify_some: "0 < tp_notifying tp \<Longrightarrow> asleep_at i tp \<Longrightarrow> tp_step Poster tp (post_notify (Some i) tp)"
| tp_notify_none: "0 < tp_notifying tp \<Longrightarrow> (\<forall>i. \<not> asleep_at i tp) \<Longrightarrow> tp_step Poster tp (post_notify None tp)"
| tp_test: "i < tp_size tp \<Longrightarrow> tp_pool tp i = Top \<Longrightarrow> tp_step (Worker i) tp (worker_test i tp)"
| tp_lock: "i < tp_size tp \<Longrightarrow> tp_pool tp i = Want_lock \<Longrightarrow> tp_lock tp = None \<Longrightarrow> tp_step (Worker i) tp (worker_lock i tp)"
| tp_sleep: "i < tp_size tp \<Longrightarrow> tp_pool tp i = Sleeping_soon \<Longrightarrow> tp_step (Worker i) tp (worker_sleep i tp)"
| tp_begin: "i < tp_size tp \<Longrightarrow> tp_pool tp i = Got t \<Longrightarrow> tp_step (Worker i) tp (worker_run i t tp)"
| tp_finish: "i < tp_size tp \<Longrightarrow> tp_pool tp i = Running t \<Longrightarrow> tp_step (Worker i) tp (worker_finish i t tp)"
| tp_spurious: "asleep_at i tp \<Longrightarrow> tp_step (Spurious i) tp (set_pc i Want_lock tp)"
| tp_store: "tp_destructor tp = Not_stopping \<Longrightarrow> tp_step Destructor tp (stop_store tp)"
| tp_wake: "tp_destructor tp = Stored_run \<Longrightarrow> tp_step Destructor tp (stop_notify tp)"

definition tp_start :: "'a threadpool \<Rightarrow> bool" where
  "tp_start tp \<longleftrightarrow> (\<exists>n. threadpool_new n = Inr tp)"

abbreviation tp_move :: "'a threadpool \<Rightarrow> 'a threadpool \<Rightarrow> bool" where
  "tp_move tp tp' \<equiv> \<exists>who. tp_step who tp tp'"

section \<open>The invariant\<close>

definition in_hand :: "'a worker \<Rightarrow> 'a multiset" where
  "in_hand w = (case w of Got t \<Rightarrow> {#t#} | Running t \<Rightarrow> {#t#} | _ \<Rightarrow> {#})"

definition busy :: "'a worker \<Rightarrow> nat" where
  "busy w = (case w of Running _ \<Rightarrow> 1 | _ \<Rightarrow> 0)"

text \<open>The four parts: the queue is what was accepted and not started; started tasks are done or in
  the hands of one worker; the idle count; and a worker about to sleep holds the mutex over an
  empty queue, no worker leaves while the pool runs, and a queued task has a notification or a
  worker that will look.\<close>

definition tp_queue_inv :: "'a threadpool \<Rightarrow> bool" where
  "tp_queue_inv tp \<longleftrightarrow> tp_accepted tp = tp_started tp @ tp_tasks tp \<and>
     mset (tp_started tp) = mset (tp_done tp) + (\<Sum>i < tp_size tp. in_hand (tp_pool tp i))"

definition tp_idle_inv :: "'a threadpool \<Rightarrow> bool" where
  "tp_idle_inv tp \<longleftrightarrow> tp_idl_tnum tp + int (\<Sum>i < tp_size tp. busy (tp_pool tp i)) = int (tp_size tp)"

definition tp_lock_inv :: "'a threadpool \<Rightarrow> bool" where
  "tp_lock_inv tp \<longleftrightarrow>
     (\<forall>i < tp_size tp. tp_pool tp i = Sleeping_soon \<longrightarrow> tp_lock tp = Some i) \<and>
     (tp_lock tp \<noteq> None \<longrightarrow> tp_tasks tp = [])"

definition tp_wake_inv :: "'a threadpool \<Rightarrow> bool" where
  "tp_wake_inv tp \<longleftrightarrow> (tp_run tp \<longleftrightarrow> tp_destructor tp = Not_stopping) \<and>
     (tp_run tp \<longrightarrow> (\<forall>i < tp_size tp. tp_pool tp i \<noteq> Exited) \<and>
       (tp_tasks tp \<noteq> [] \<longrightarrow> 0 < tp_notifying tp \<or> (\<exists>i < tp_size tp. tp_pool tp i \<noteq> Asleep) \<or> tp_size tp = 0))"

definition tp_inv :: "'a threadpool \<Rightarrow> bool" where
  "tp_inv tp \<longleftrightarrow> tp_queue_inv tp \<and> tp_idle_inv tp \<and> tp_lock_inv tp \<and> tp_wake_inv tp"

text \<open>Sums over the workers when one of them moves.\<close>

lemma in_hand_update:
  fixes n :: nat
  assumes "i < n"
  shows "(\<Sum>j < n. in_hand ((p(i := w)) j)) + in_hand (p i) = (\<Sum>j < n. in_hand (p j)) + in_hand w"
proof -
  have "(\<Sum>j < n. in_hand (q j)) = in_hand (q i) + (\<Sum>j \<in> {..<n} - {i}. in_hand (q j))" for q :: "nat \<Rightarrow> 'a worker"
    using assms by (subst sum.remove[of _ i]) auto
  then show ?thesis by (simp add: sum.cong[of "{..<n} - {i}" _ "\<lambda>j. in_hand ((p(i := w)) j)" "\<lambda>j. in_hand (p j)"] ac_simps)
qed

lemma busy_update:
  fixes n :: nat
  assumes "i < n"
  shows "(\<Sum>j < n. busy ((p(i := w)) j)) + busy (p i) = (\<Sum>j < n. busy (p j)) + busy w"
proof -
  have "(\<Sum>j < n. busy (q j)) = busy (q i) + (\<Sum>j \<in> {..<n} - {i}. busy (q j))" for q :: "nat \<Rightarrow> 'a worker"
    using assms by (subst sum.remove[of _ i]) auto
  then show ?thesis by (simp add: sum.cong[of "{..<n} - {i}" _ "\<lambda>j. busy ((p(i := w)) j)" "\<lambda>j. busy (p j)"] ac_simps)
qed

lemmas tp_ops = post_check_def post_push_def post_notify_def worker_test_def worker_lock_def worker_sleep_def
  worker_run_def worker_finish_def stop_store_def stop_notify_def asleep_at_def

lemma in_hand_simps [simp]:
  "in_hand Top = {#}" "in_hand Want_lock = {#}" "in_hand Sleeping_soon = {#}" "in_hand Asleep = {#}"
  "in_hand (Got t) = {#t#}" "in_hand (Running t) = {#t#}" "in_hand Exited = {#}"
  by (simp_all add: in_hand_def)

lemma busy_simps [simp]:
  "busy Top = 0" "busy Want_lock = 0" "busy Sleeping_soon = 0" "busy Asleep = 0"
  "busy (Got t) = 0" "busy (Running t) = 1" "busy Exited = 0"
  by (simp_all add: busy_def)

lemma in_hand_move: "i < n \<Longrightarrow> in_hand (p i) = in_hand w \<Longrightarrow>
    (\<Sum>j < (n :: nat). in_hand (if j = i then w else p j)) = (\<Sum>j < n. in_hand (p j))"
  using in_hand_update[of i n p w] by (simp add: fun_upd_def)

lemma busy_move: "i < n \<Longrightarrow> busy (p i) = busy w \<Longrightarrow>
    (\<Sum>j < (n :: nat). busy (if j = i then w else p j)) = (\<Sum>j < n. busy (p j))"
  using busy_update[of i n p w] by (simp add: fun_upd_def)

lemma wake_all_sums:
  "(\<Sum>j < (n :: nat). in_hand (if j < m \<and> p j = Asleep then Want_lock else p j)) = (\<Sum>j < n. in_hand (p j))"
  "(\<Sum>j < (n :: nat). busy (if j < m \<and> p j = Asleep then Want_lock else p j)) = (\<Sum>j < n. busy (p j))"
  "(\<Sum>j < (n :: nat). in_hand (if p j = Asleep then Want_lock else p j)) = (\<Sum>j < n. in_hand (p j))"
  "(\<Sum>j < (n :: nat). busy (if p j = Asleep then Want_lock else p j)) = (\<Sum>j < n. busy (p j))"
  by (auto intro!: sum.cong)

lemma tp_queue_step:
  assumes "tp_step who tp tp'" "tp_queue_inv tp"
  shows "tp_queue_inv tp'"
  using assms
proof cases
  case (tp_lock i)
  then show ?thesis
    using assms(2) in_hand_move[of i "tp_size tp" "tp_pool tp" Exited] in_hand_move[of i "tp_size tp" "tp_pool tp" Sleeping_soon]
      in_hand_update[of i "tp_size tp" "tp_pool tp" "Got (hd (tp_tasks tp))"]
    by (cases "tp_tasks tp") (auto simp: tp_queue_inv_def worker_lock_def fun_upd_def)
next
  case (tp_finish i t)
  then show ?thesis using assms(2) in_hand_update[of i "tp_size tp" "tp_pool tp" Top]
    by (auto simp: tp_queue_inv_def worker_finish_def fun_upd_def)
qed (auto simp: tp_queue_inv_def tp_ops fun_upd_def in_hand_move wake_all_sums Let_def split: if_splits)

lemma tp_idle_step:
  assumes "tp_step who tp tp'" "tp_idle_inv tp"
  shows "tp_idle_inv tp'"
  using assms
proof cases
  case (tp_begin i t)
  then show ?thesis using assms(2) busy_update[of i "tp_size tp" "tp_pool tp" "Running t"]
    by (auto simp: tp_idle_inv_def worker_run_def fun_upd_def simp del: of_nat_sum)
next
  case (tp_finish i t)
  then show ?thesis using assms(2) busy_update[of i "tp_size tp" "tp_pool tp" Top]
    by (auto simp: tp_idle_inv_def worker_finish_def fun_upd_def simp del: of_nat_sum)
qed (auto simp: tp_idle_inv_def tp_ops fun_upd_def busy_move wake_all_sums Let_def simp del: of_nat_sum split: if_splits list.splits)

lemma tp_lock_step:
  assumes "tp_step who tp tp'" "tp_lock_inv tp"
  shows "tp_lock_inv tp'"
  using assms
proof cases
  case (tp_lock i)
  then show ?thesis using assms(2) by (cases "tp_tasks tp") (auto simp: tp_lock_inv_def worker_lock_def)
next
  case (tp_sleep i)
  then have l: "tp_lock tp = Some i" using assms(2) by (simp add: tp_lock_inv_def)
  then have "\<forall>j < tp_size tp. tp_pool tp j = Sleeping_soon \<longrightarrow> j = i" using assms(2) by (simp add: tp_lock_inv_def)
  then show ?thesis unfolding tp_sleep(2) by (simp add: tp_lock_inv_def worker_sleep_def) blast
qed (auto simp: tp_lock_inv_def tp_ops Let_def split: if_splits)

lemma tp_wake_step:
  assumes "tp_step who tp tp'" "tp_wake_inv tp" "tp_lock_inv tp"
  shows "tp_wake_inv tp'"
  using assms
proof cases
  case (tp_lock i)
  then show ?thesis using assms(2) by (cases "tp_tasks tp") (auto simp: tp_wake_inv_def worker_lock_def)
next
  case (tp_sleep i)
  then have "tp_tasks tp = []" using assms(3) by (auto simp: tp_lock_inv_def)
  then show ?thesis using tp_sleep assms(2) by (auto simp: tp_wake_inv_def worker_sleep_def)
qed (auto simp: tp_wake_inv_def tp_ops Let_def split: if_splits)

interpretation tp: step_system tp_start tp_move tp_inv
proof
  fix tp :: "'a threadpool"
  assume "tp_start tp"
  then show "tp_inv tp"
    by (auto simp: tp_start_def threadpool_new_def tp_inv_def tp_queue_inv_def tp_idle_inv_def tp_lock_inv_def
        tp_wake_inv_def add_thread_def result_iff Let_def)
next
  fix tp tp' :: "'a threadpool"
  assume "tp_inv tp" "tp_move tp tp'"
  then show "tp_inv tp'"
    using tp_queue_step tp_idle_step tp_lock_step tp_wake_step unfolding tp_inv_def by blast
qed

section \<open>Properties of the pool\<close>

text \<open>A pool with one worker, and the ways it can go.\<close>

definition pool_one :: "nat threadpool" where
  "pool_one = \<lparr>tp_size = 1, tp_pool = (\<lambda>i. if i = 0 then Top else Exited), tp_tasks = [], tp_lock = None, tp_run = True,
     tp_idl_tnum = 1, tp_posting = {#}, tp_notifying = 0, tp_destructor = Not_stopping,
     tp_accepted = [], tp_started = [], tp_done = []\<rparr>"

lemma reach_pool_one: "reach tp_start tp_move pool_one"
proof -
  have "threadpool_new 1 = Inr pool_one"
    by (auto simp: threadpool_new_def pool_one_def add_thread_def Let_def)
  then have "tp_start pool_one" by (auto simp: tp_start_def)
  then show ?thesis by (rule reach_start)
qed

lemma reach_tp_step: "reach tp_start tp_move tp \<Longrightarrow> tp_step who tp tp' \<Longrightarrow> reach tp_start tp_move tp'"
  by (rule reach_step) blast+

definition pool_queued :: "nat threadpool" where
  "pool_queued = pool_one\<lparr>tp_tasks := [7], tp_notifying := 1, tp_accepted := [7]\<rparr>"

lemma reach_pool_queued: "reach tp_start tp_move pool_queued"
proof -
  let ?a = "pool_one\<lparr>tp_posting := {#7#}\<rparr>"
  have "tp_step Poster pool_one ?a" by (rule tp_post_check[of 7]) (simp add: post_check_def pool_one_def)
  moreover have "tp_step Poster ?a (post_push 7 ?a)" by (rule tp_post_push) (simp_all add: pool_one_def)
  moreover have "post_push 7 ?a = pool_queued" by (simp add: post_push_def pool_queued_def pool_one_def)
  ultimately show ?thesis using reach_tp_step[OF reach_pool_one] reach_tp_step by metis
qed

text \<open>
  C23. In every interleaving of callers, workers and the destructor, tasks are started in the
  order they were queued; each started task is in the hands of exactly one worker or has
  returned, so no task is run twice; and the idle count is the number of workers not inside a
  task, between 0 and the pool size.
\<close>

theorem threadpool_fifo:
  assumes "reach tp_start tp_move tp"
  shows "tp_accepted tp = tp_started tp @ tp_tasks tp \<and>
     mset (tp_started tp) = mset (tp_done tp) + (\<Sum>i < tp_size tp. in_hand (tp_pool tp i)) \<and>
     idl_thread_cnt tp = int (tp_size tp) - int (\<Sum>i < tp_size tp. busy (tp_pool tp i)) \<and>
     0 \<le> idl_thread_cnt tp \<and> idl_thread_cnt tp \<le> int (thread_cnt tp)"
proof -
  have "tp_inv tp" by (rule tp.reach_inv[OF assms])
  moreover have "(\<Sum>i < tp_size tp. busy (tp_pool tp i)) \<le> (\<Sum>i < tp_size tp. 1)"
    by (rule sum_mono) (simp add: busy_def split: worker.split)
  ultimately show ?thesis
    by (auto simp: tp_inv_def tp_queue_inv_def tp_idle_inv_def idl_thread_cnt_def thread_cnt_def simp del: of_nat_sum)
qed

theorem threadpool_fifo_witness:
  "reach tp_start tp_move pool_queued \<and> tp_accepted pool_queued = [7] \<and> tp_started pool_queued @ tp_tasks pool_queued = [7]"
  using threadpool_fifo[OF reach_pool_queued] reach_pool_queued by (simp add: pool_queued_def)

text \<open>
  C24. No wake-up is lost while the pool runs: whenever a task is queued, a caller is still about to
  notify, or some worker can take a step (it is not true that every worker sleeps).
\<close>

theorem threadpool_no_forgotten_task:
  assumes "reach tp_start tp_move tp" "tp_run tp" "tp_tasks tp \<noteq> []" "0 < thread_cnt tp"
  shows "0 < tp_notifying tp \<or> (\<exists>i tp'. tp_step (Worker i) tp tp')"
proof -
  have inv: "tp_inv tp" by (rule tp.reach_inv[OF assms(1)])
  then have lock: "tp_lock tp = None" using assms(3) by (auto simp: tp_inv_def tp_lock_inv_def)
  have "0 < tp_notifying tp \<or> (\<exists>i < tp_size tp. tp_pool tp i \<noteq> Asleep \<and> tp_pool tp i \<noteq> Exited)"
    using inv assms(2-4) by (auto simp: tp_inv_def tp_wake_inv_def thread_cnt_def)
  moreover have "\<exists>tp'. tp_step (Worker i) tp tp'" if "i < tp_size tp" "tp_pool tp i \<noteq> Asleep" "tp_pool tp i \<noteq> Exited" for i
    using that lock by (cases "tp_pool tp i") (blast intro: tp_step.intros)+
  ultimately show ?thesis by blast
qed

theorem threadpool_no_forgotten_task_witness:
  "0 < tp_notifying pool_queued \<or> (\<exists>i tp'. tp_step (Worker i) pool_queued tp')"
  by (rule threadpool_no_forgotten_task[OF reach_pool_queued]) (simp_all add: pool_queued_def pool_one_def thread_cnt_def)

text \<open>
  Stopping drops accepted tasks: there is a run in which \<^verbatim>\<open>post_task\<close> accepted a task, the
  destructor has begun and every worker has returned, with the task still in the queue: nobody
  will run it, and its future is never made ready.
\<close>

theorem threadpool_stop_drops_tasks:
  "\<exists>tp :: nat threadpool. reach tp_start tp_move tp \<and> tp_accepted tp = [7] \<and> tp_tasks tp = [7] \<and>
     (\<forall>i. tp_pool tp i = Exited) \<and> (\<forall>i tp'. \<not> tp_step (Worker i) tp tp')"
proof -
  let ?a = "stop_store pool_queued" and ?b = "worker_test 0 (stop_store pool_queued)"
  have "tp_step Destructor pool_queued ?a" by (rule tp_store) (simp add: pool_queued_def pool_one_def)
  moreover have "tp_step (Worker 0) ?a ?b" by (rule tp_test) (simp_all add: stop_store_def pool_queued_def pool_one_def)
  ultimately have "reach tp_start tp_move ?b" using reach_tp_step[OF reach_pool_queued] reach_tp_step by metis
  moreover have all: "tp_pool ?b i = Exited" for i
    by (simp add: worker_test_def stop_store_def pool_queued_def pool_one_def)
  moreover have "\<not> tp_step (Worker i) ?b tp'" for i tp'
    using all by (auto elim!: tp_step.cases)
  ultimately show ?thesis
    by (intro exI[of _ ?b]) (simp add: worker_test_def stop_store_def pool_queued_def pool_one_def)
qed

text \<open>
  The destructor can block for ever: it stores \<^verbatim>\<open>tp_run\<close> and notifies without the mutex, so both can
  fall between a worker's test of the predicate and its sleep. In the state reached the destructor
  joins a sleeping worker, and no step is possible but a spurious wake-up.
\<close>

theorem threadpool_stop_blocks:
  "\<exists>tp :: nat threadpool. reach tp_start tp_move tp \<and> tp_destructor tp = Joining \<and> asleep_at 0 tp \<and>
     {who. \<exists>tp'. tp_step who tp tp'} = {Spurious 0}"
proof -
  let ?a = "worker_test 0 pool_one"
  let ?b = "worker_lock 0 ?a"
  let ?c = "stop_store ?b"
  let ?d = "stop_notify ?c"
  let ?e = "worker_sleep 0 ?d"
  note defs = worker_test_def worker_lock_def stop_store_def stop_notify_def worker_sleep_def pool_one_def asleep_at_def
  have "reach tp_start tp_move ?a" by (rule reach_tp_step[OF reach_pool_one tp_test]) (simp_all add: defs)
  then have "reach tp_start tp_move ?b" by (rule reach_tp_step[OF _ tp_step.tp_lock]) (simp_all add: defs)
  then have "reach tp_start tp_move ?c" by (rule reach_tp_step[OF _ tp_store]) (simp add: defs)
  then have "reach tp_start tp_move ?d" by (rule reach_tp_step[OF _ tp_wake]) (simp add: defs)
  then have r: "reach tp_start tp_move ?e" by (rule reach_tp_step[OF _ tp_step.tp_sleep]) (simp_all add: defs)
  have e: "tp_pool ?e 0 = Asleep" "tp_size ?e = 1" "\<not> tp_run ?e" "tp_posting ?e = {#}" "tp_notifying ?e = 0"
      "tp_destructor ?e = Joining"
    by (simp_all add: defs)
  have "who = Spurious 0" if "tp_step who ?e tp'" for who tp'
    using that e by cases (simp_all add: post_check_def asleep_at_def)
  moreover have "asleep_at 0 ?e" using e by (simp add: asleep_at_def)
  ultimately have "{who. \<exists>tp'. tp_step who ?e tp'} = {Spurious 0}" using tp_spurious[of 0 ?e] by blast
  then show ?thesis using r e \<open>asleep_at 0 ?e\<close> by (intro exI[of _ ?e] conjI)
qed

end
