(* ===== verification/Timer.thy ===== *)
theory Timer
  imports Hash_Map Threadpool
begin

text \<open>
  The timer (src/timer/timer.h): nodes in a priority queue, the ids of the live timers in a hash
  map, a tick thread that takes due nodes and posts their callbacks to a thread pool. Times are
  nanoseconds, the unit of the clock. The lemmas follow every interleaving of the callers, the tick
  thread, the pool and the destructor.
\<close>

section \<open>Nodes and the timer\<close>

text \<open>A field that a registration leaves indeterminate is \<^const>\<open>None\<close>.\<close>

record 'c timer_node =
  tn_tm_point :: int
  tn_callback :: 'c
  tn_repeated_id :: "int option"
  tn_id :: int
  tn_repeated_num :: "int option"
  tn_is_period :: bool
  tn_is_repeated :: bool
  tn_period :: "int option"

datatype id_state = Running_state

text \<open>
  Where the tick thread is: not started; before the test of \<^verbatim>\<open>tm_running\<close>; after it; asleep without a
  timeout; asleep in \<^verbatim>\<open>wait_for\<close>, with the reading of the clock and the duration computed from it; with a
  callback to post, the mutex released; returned.
\<close>

datatype 'c tick_pc = T_none | T_top | T_checked | T_wait | T_wait_for int int | T_post 'c | T_done

datatype tm_destructor = Tm_alive | Tm_stored | Tm_joining

text \<open>Ghost: what happened, latest first. A registration carries the number of times the timer is
  due, none for a periodic one. \<open>Taken\<close> is the tick thread's decision, under the mutex, to fire a
  node: its id is in the map, and it is due; it carries the time the node was due and the time it was
  found due. The callback is posted later, after the mutex has been released.\<close>

datatype 'c tm_event = Registered int "nat option" | Cancelled int | Taken int 'c int int

record 'c timer =
  tm_queue :: "'c timer_node list"
  tm_running :: bool
  tm_tick_thread :: "'c tick_pc"
  tm_thread_pool :: "'c threadpool"
  tm_id :: "32 word"
  tm_id_state_map :: "(int, id_state) hash_map"
  tm_destruct :: tm_destructor
  tm_log :: "'c tm_event list"

abbreviation (input) NS_PER_MS :: int where "NS_PER_MS \<equiv> 1000000"

definition timer_new :: "'c timer result" where
  "timer_new =
     rbind (threadpool_new 2) (\<lambda>tp.
     Inr \<lparr>tm_queue = [], tm_running = True, tm_tick_thread = T_none, tm_thread_pool = tp, tm_id = 0,
          tm_id_state_map = hm_new, tm_destruct = Tm_alive, tm_log = []\<rparr>)"

definition timer_run :: "'c timer \<Rightarrow> 'c timer" where
  "timer_run tm = tm\<lparr>tm_tick_thread := T_top\<rparr>"

definition is_available :: "'c timer \<Rightarrow> bool" where
  "is_available tm \<longleftrightarrow> 0 \<le> idl_thread_cnt (tm_thread_pool tm)"

definition timer_size :: "'c timer \<Rightarrow> int" where
  "timer_size tm = int (length (tm_queue tm))"

section \<open>Registration and cancellation\<close>

text \<open>\<^verbatim>\<open>tm_cond.notify_all\<close>: a sleeping tick thread goes back to the top of its loop.\<close>

definition tick_wake :: "'c tick_pc \<Rightarrow> 'c tick_pc" where
  "tick_wake pc = (case pc of T_wait \<Rightarrow> T_top | T_wait_for _ _ \<Rightarrow> T_top | _ \<Rightarrow> pc)"

text \<open>The common end of the three registrations; \<^verbatim>\<open>fetch_add\<close> on the atomic wraps around.\<close>

definition tm_register :: "(int \<Rightarrow> 'c timer_node) \<Rightarrow> nat option \<Rightarrow> 'c timer \<Rightarrow> int \<times> 'c timer" where
  "tm_register node due tm =
     (let s = node (sint (tm_id tm)) in
      (tn_id s, tm\<lparr>tm_queue := tm_queue tm @ [s], tm_tick_thread := tick_wake (tm_tick_thread tm), tm_id := tm_id tm + 1,
         tm_id_state_map := hm_emplace (tn_id s) Running_state (tm_id_state_map tm),
         tm_log := Registered (tn_id s) due # tm_log tm\<rparr>))"

definition run_after :: "int \<Rightarrow> int \<Rightarrow> bool \<Rightarrow> 'c \<Rightarrow> 'c timer \<Rightarrow> int \<times> 'c timer" where
  "run_after now ms_time is_period f tm =
     tm_register (\<lambda>i. \<lparr>tn_tm_point = now + ms_time * NS_PER_MS, tn_callback = f, tn_repeated_id = None, tn_id = i,
       tn_repeated_num = None, tn_is_period = is_period, tn_is_repeated = False, tn_period = Some (ms_time * NS_PER_MS)\<rparr>)
       (if is_period then None else Some 1) tm"

definition run_at :: "int \<Rightarrow> 'c \<Rightarrow> 'c timer \<Rightarrow> int \<times> 'c timer" where
  "run_at time_point f tm =
     tm_register (\<lambda>i. \<lparr>tn_tm_point = time_point, tn_callback = f, tn_repeated_id = None, tn_id = i,
       tn_repeated_num = None, tn_is_period = False, tn_is_repeated = False, tn_period = None\<rparr>) (Some 1) tm"

definition run_repeated :: "int \<Rightarrow> int \<Rightarrow> int \<Rightarrow> 'c \<Rightarrow> 'c timer \<Rightarrow> int \<times> 'c timer" where
  "run_repeated now ms_time repeated_num f tm =
     tm_register (\<lambda>i. \<lparr>tn_tm_point = now + ms_time * NS_PER_MS, tn_callback = f, tn_repeated_id = None, tn_id = i,
       tn_repeated_num = Some repeated_num, tn_is_period = False, tn_is_repeated = True,
       tn_period = Some (ms_time * NS_PER_MS)\<rparr>) (Some (nat repeated_num + 1)) tm"

definition tm_cancel :: "int \<Rightarrow> 'c timer \<Rightarrow> 'c timer" where
  "tm_cancel i tm =
     (if hm_is_key_exist i (tm_id_state_map tm)
      then tm\<lparr>tm_id_state_map := hm_erase i (tm_id_state_map tm), tm_log := Cancelled i # tm_log tm\<rparr> else tm)"

section \<open>The tick thread\<close>

text \<open>\<^verbatim>\<open>top\<close> of the priority queue: an element with the least time; which one among equals is not
  specified.\<close>

definition is_top :: "nat \<Rightarrow> 'c timer_node list \<Rightarrow> bool" where
  "is_top k q \<longleftrightarrow> k < length q \<and> (\<forall>s \<in> set q. tn_tm_point (q ! k) \<le> tn_tm_point s)"

definition remove_at :: "nat \<Rightarrow> 'a list \<Rightarrow> 'a list" where
  "remove_at k xs = take k xs @ drop (Suc k) xs"

text \<open>A due node: it is re-armed at the time of a second reading of the clock, or is the last of its kind.\<close>

definition rearm :: "int \<Rightarrow> 'c timer_node \<Rightarrow> 'c timer_node list result" where
  "rearm now s =
     (if tn_is_period s then
        rbind (read_var (tn_period s)) (\<lambda>p. Inr [s\<lparr>tn_tm_point := now + p\<rparr>])
      else if tn_is_repeated s then
        rbind (read_var (tn_repeated_num s)) (\<lambda>n.
        if n > 0 then rbind (read_var (tn_period s)) (\<lambda>p.
          Inr [s\<lparr>tn_tm_point := now + p, tn_repeated_num := Some (n - 1)\<rparr>])
        else Inr [])
      else Inr [])"

text \<open>One pass of the loop of \<^verbatim>\<open>run_local\<close> under the mutex, with its two readings of the clock.\<close>

definition tick_body :: "int \<Rightarrow> int \<Rightarrow> nat \<Rightarrow> 'c timer \<Rightarrow> 'c timer result" where
  "tick_body now now' k tm =
     (if tm_queue tm = [] then Inr (tm\<lparr>tm_tick_thread := T_wait\<rparr>)
      else
        let s = tm_queue tm ! k; diff = tn_tm_point s - now in
        if diff \<ge> NS_PER_MS then Inr (tm\<lparr>tm_tick_thread := T_wait_for now diff\<rparr>)
        else
          let q = remove_at k (tm_queue tm) in
          if \<not> hm_is_key_exist (tn_id s) (tm_id_state_map tm)
          then Inr (tm\<lparr>tm_queue := q, tm_tick_thread := T_top\<rparr>)
          else rbind (rearm now' s) (\<lambda>again.
            Inr (tm\<lparr>tm_queue := q @ again, tm_tick_thread := T_post (tn_callback s),
                    tm_log := Taken (tn_id s) (tn_callback s) (tn_tm_point s) now # tm_log tm\<rparr>)))"

definition tick_test :: "'c timer \<Rightarrow> 'c timer" where
  "tick_test tm = tm\<lparr>tm_tick_thread := (if tm_running tm then T_checked else T_done)\<rparr>"

definition tick_post :: "'c \<Rightarrow> 'c timer \<Rightarrow> 'c timer result" where
  "tick_post f tm =
     rbind (post_task f (tm_thread_pool tm)) (\<lambda>tp. Inr (tm\<lparr>tm_thread_pool := tp, tm_tick_thread := T_top\<rparr>))"

section \<open>Interleavings\<close>

datatype tm_actor = Caller | Tick | Pool | Wakeup | Tm_destructor

inductive tm_step :: "tm_actor \<Rightarrow> 'c timer \<Rightarrow> 'c timer \<Rightarrow> bool" where
  tm_run_step: "tm_destruct tm = Tm_alive \<Longrightarrow> tm_tick_thread tm = T_none \<Longrightarrow> tm_step Caller tm (timer_run tm)"
| tm_after: "tm_destruct tm = Tm_alive \<Longrightarrow> run_after now ms p f tm = (i, tm') \<Longrightarrow> tm_step Caller tm tm'"
| tm_at: "tm_destruct tm = Tm_alive \<Longrightarrow> run_at t f tm = (i, tm') \<Longrightarrow> tm_step Caller tm tm'"
| tm_repeated: "tm_destruct tm = Tm_alive \<Longrightarrow> run_repeated now ms n f tm = (i, tm') \<Longrightarrow> tm_step Caller tm tm'"
| tm_cancels: "tm_destruct tm = Tm_alive \<Longrightarrow> tm_step Caller tm (tm_cancel i tm)"
| tm_tick_test: "tm_tick_thread tm = T_top \<Longrightarrow> tm_step Tick tm (tick_test tm)"
| tm_tick_body: "tm_tick_thread tm = T_checked \<Longrightarrow> tm_queue tm = [] \<or> is_top k (tm_queue tm) \<Longrightarrow>
     tick_body now now' k tm = Inr tm' \<Longrightarrow> tm_step Tick tm tm'"
| tm_tick_post: "tm_tick_thread tm = T_post f \<Longrightarrow> threadpool.tp_lock (tm_thread_pool tm) = None \<Longrightarrow>
     tick_post f tm = Inr tm' \<Longrightarrow> tm_step Tick tm tm'"
| tm_timeout: "tm_tick_thread tm = T_wait_for t d \<Longrightarrow> tm_step Tick tm (tm\<lparr>tm_tick_thread := T_top\<rparr>)"
| tm_spurious: "tm_tick_thread tm = T_wait \<Longrightarrow> tm_step Wakeup tm (tm\<lparr>tm_tick_thread := T_top\<rparr>)"
| tm_pool: "tp_step who (tm_thread_pool tm) tp \<Longrightarrow> tp_accepted tp = tp_accepted (tm_thread_pool tm) \<Longrightarrow>
     tp_posting tp = tp_posting (tm_thread_pool tm) \<Longrightarrow> who \<noteq> Destructor \<Longrightarrow>
     tm_step Pool tm (tm\<lparr>tm_thread_pool := tp\<rparr>)"
| tm_store: "tm_destruct tm = Tm_alive \<Longrightarrow>
     tm_step Tm_destructor tm (tm\<lparr>tm_running := False, tm_destruct := Tm_stored\<rparr>)"
| tm_wake: "tm_destruct tm = Tm_stored \<Longrightarrow>
     tm_step Tm_destructor tm (tm\<lparr>tm_tick_thread := tick_wake (tm_tick_thread tm), tm_destruct := Tm_joining\<rparr>)"

abbreviation tm_move :: "'c timer \<Rightarrow> 'c timer \<Rightarrow> bool" where
  "tm_move tm tm' \<equiv> \<exists>who. tm_step who tm tm'"

definition tm_start :: "'c timer \<Rightarrow> bool" where
  "tm_start tm \<longleftrightarrow> timer_new = Inr tm"

section \<open>Reading the log\<close>

text \<open>Whether a timer is registered and not cancelled since; how often it is due and how often it
  was taken; the log is read latest first.\<close>

fun live :: "'c tm_event list \<Rightarrow> int \<Rightarrow> bool" where
  "live [] i = False"
| "live (Registered j d # es) i = (i = j \<or> live es i)"
| "live (Cancelled j # es) i = (i \<noteq> j \<and> live es i)"
| "live (Taken j f p n # es) i = live es i"

fun taken_ok :: "'c tm_event list \<Rightarrow> bool" where
  "taken_ok [] = True"
| "taken_ok (Taken i f p n # es) = (live es i \<and> p - n < NS_PER_MS \<and> taken_ok es)"
| "taken_ok (e # es) = taken_ok es"

fun taken_callbacks :: "'c tm_event list \<Rightarrow> 'c list" where
  "taken_callbacks [] = []"
| "taken_callbacks (Taken i f p n # es) = taken_callbacks es @ [f]"
| "taken_callbacks (e # es) = taken_callbacks es"

fun due_count :: "'c tm_event list \<Rightarrow> int \<Rightarrow> nat" where
  "due_count [] i = 0"
| "due_count (Registered j (Some n) # es) i = (if i = j then n else 0) + due_count es i"
| "due_count (e # es) i = due_count es i"

fun taken_count :: "'c tm_event list \<Rightarrow> int \<Rightarrow> nat" where
  "taken_count [] i = 0"
| "taken_count (Taken j f p n # es) i = (if i = j then 1 else 0) + taken_count es i"
| "taken_count (e # es) i = taken_count es i"

text \<open>An id that was used for periodic timers, or cancelled, is not counted.\<close>

definition countable :: "'c tm_event list \<Rightarrow> int \<Rightarrow> bool" where
  "countable es i \<longleftrightarrow> Cancelled i \<notin> set es \<and> Registered i None \<notin> set es"

definition was_registered :: "'c tm_event list \<Rightarrow> int \<Rightarrow> bool" where
  "was_registered es i \<longleftrightarrow> (\<exists>d. Registered i d \<in> set es)"

lemma live_if: "was_registered es i \<Longrightarrow> Cancelled i \<notin> set es \<Longrightarrow> live es i"
  by (induction es i rule: live.induct) (auto simp: was_registered_def)

section \<open>The invariants\<close>

definition tm_map_inv :: "'c timer \<Rightarrow> bool" where
  "tm_map_inv tm \<longleftrightarrow> taken_ok (tm_log tm) \<and> (\<forall>i. hm_is_key_exist i (tm_id_state_map tm) = live (tm_log tm) i)"

definition tm_sleep_inv :: "'c timer \<Rightarrow> bool" where
  "tm_sleep_inv tm \<longleftrightarrow> (tm_tick_thread tm = T_wait \<longrightarrow> tm_queue tm = []) \<and>
     (\<forall>t d. tm_tick_thread tm = T_wait_for t d \<longrightarrow> (\<forall>s \<in> set (tm_queue tm). t + d \<le> tn_tm_point s))"

definition pending_post :: "'c tick_pc \<Rightarrow> 'c list" where
  "pending_post pc = (case pc of T_post f \<Rightarrow> [f] | _ \<Rightarrow> [])"

definition tm_pool_inv :: "'c timer \<Rightarrow> bool" where
  "tm_pool_inv tm \<longleftrightarrow> tp_inv (tm_thread_pool tm) \<and> tp_posting (tm_thread_pool tm) = {#} \<and>
     tp_accepted (tm_thread_pool tm) @ pending_post (tm_tick_thread tm) = taken_callbacks (tm_log tm)"

definition node_ok :: "'c tm_event list \<Rightarrow> 'c timer_node \<Rightarrow> bool" where
  "node_ok es s \<longleftrightarrow> was_registered es (tn_id s) \<and> (tn_is_period s \<longrightarrow> Registered (tn_id s) None \<in> set es) \<and>
     (tn_is_period s \<longrightarrow> \<not> tn_is_repeated s)"

definition node_due :: "'c timer_node \<Rightarrow> nat" where
  "node_due s = (if tn_is_repeated s then nat (the (tn_repeated_num s)) + 1 else 1)"

definition still_due :: "'c timer_node list \<Rightarrow> int \<Rightarrow> nat" where
  "still_due q i = sum_list (map node_due (filter (\<lambda>s. tn_id s = i) q))"

definition tm_count_inv :: "'c timer \<Rightarrow> bool" where
  "tm_count_inv tm \<longleftrightarrow> (\<forall>s \<in> set (tm_queue tm). node_ok (tm_log tm) s) \<and>
     (\<forall>i. countable (tm_log tm) i \<longrightarrow> taken_count (tm_log tm) i + still_due (tm_queue tm) i = due_count (tm_log tm) i)"

definition tm_inv :: "'c timer \<Rightarrow> bool" where
  "tm_inv tm \<longleftrightarrow> tm_map_inv tm \<and> tm_sleep_inv tm \<and> tm_pool_inv tm \<and> tm_count_inv tm"

lemmas tm_reg = run_after_def run_at_def run_repeated_def tm_register_def

lemma tick_wake_simps [simp]:
  "tick_wake pc \<noteq> T_wait" "tick_wake pc \<noteq> T_wait_for t d" "pending_post (tick_wake pc) = pending_post pc"
  by (cases pc; simp add: tick_wake_def pending_post_def)+

lemma pending_post_simps [simp]:
  "pending_post T_none = []" "pending_post T_top = []" "pending_post T_checked = []" "pending_post T_wait = []"
  "pending_post (T_wait_for t d) = []" "pending_post (T_post f) = [f]" "pending_post T_done = []"
  by (simp_all add: pending_post_def)

lemma remove_at_split: "k < length q \<Longrightarrow> q = take k q @ q ! k # drop (Suc k) q"
  by (rule id_take_nth_drop)

lemma set_remove_at: "set (remove_at k q) \<subseteq> set q"
  by (auto simp: remove_at_def dest: in_set_takeD in_set_dropD)

lemma still_due_remove:
  assumes "k < length q"
  shows "still_due q i = (if tn_id (q ! k) = i then node_due (q ! k) else 0) + still_due (remove_at k q) i"
proof -
  have "still_due q i = still_due (take k q @ q ! k # drop (Suc k) q) i"
    using remove_at_split[OF assms] by simp
  then show ?thesis by (simp add: still_due_def remove_at_def)
qed

lemma still_due_append [simp]: "still_due (q @ r) i = still_due q i + still_due r i"
  by (simp add: still_due_def)

lemma still_due_one: "still_due [s] i = (if tn_id s = i then node_due s else 0)" "still_due [] i = 0"
  by (simp_all add: still_due_def)

text \<open>Re-arming a node that is not periodic uses up one firing.\<close>

lemma rearm_due:
  assumes "rearm now s = Inr again" "\<not> tn_is_period s"
  shows "still_due again i + (if tn_id s = i then 1 else 0) = (if tn_id s = i then node_due s else 0)"
  using assms
  by (auto simp: rearm_def result_iff still_due_one node_due_def nat_diff_distrib split: if_splits)

lemma rearm_nodes: "rearm now s = Inr again \<Longrightarrow> s' \<in> set again \<Longrightarrow>
    tn_id s' = tn_id s \<and> tn_is_period s' = tn_is_period s \<and> tn_is_repeated s' = tn_is_repeated s"
  by (auto simp: rearm_def result_iff split: if_splits)

lemma node_ok_log: "node_ok es s \<Longrightarrow> node_ok (e # es) s"
  by (auto simp: node_ok_def was_registered_def)

lemma tm_map_step:
  assumes "tm_step who tm tm'" "tm_map_inv tm"
  shows "tm_map_inv tm'"
  using assms
proof cases
  case (tm_tick_body k now now')
  then show ?thesis using assms(2)
    by (auto simp: tick_body_def tm_map_inv_def result_iff Let_def split: if_splits)
qed (auto simp: tm_map_inv_def tm_reg timer_run_def tm_cancel_def tick_test_def tick_post_def result_iff
      hm_facts Let_def)

lemma tm_sleep_step:
  assumes "tm_step who tm tm'" "tm_sleep_inv tm"
  shows "tm_sleep_inv tm'"
  using assms
proof cases
  case (tm_tick_body k now now')
  then show ?thesis
    by (auto simp: tick_body_def tm_sleep_inv_def is_top_def result_iff Let_def split: if_splits)
qed (auto simp: tm_sleep_inv_def tm_reg timer_run_def tm_cancel_def tick_test_def tick_post_def result_iff Let_def)

lemma post_task_pool:
  assumes "post_task f tp = Inr tp'" "tp_inv tp" "threadpool.tp_lock tp = None" "tp_posting tp = {#}"
  shows "tp_inv tp' \<and> tp_posting tp' = {#} \<and> tp_accepted tp' = tp_accepted tp @ [f]"
proof -
  obtain tp1 where tp1: "post_check f tp = Inr tp1" "tp' = post_push f tp1"
    using assms(1) by (auto simp: post_task_def result_iff)
  have e: "tp1 = tp\<lparr>tp_posting := {#f#}\<rparr>" using tp1(1) assms(4) by (auto simp: post_check_def split: if_splits)
  have "tp_step Poster tp tp1" using tp1(1) by (rule tp_post_check)
  then have "tp_inv tp1" using tp.inv_step[OF assms(2)] by blast
  moreover have "tp_step Poster tp1 tp'" unfolding tp1(2) by (rule tp_post_push) (simp_all add: e assms(3))
  ultimately have "tp_inv tp'" using tp.inv_step by blast
  then show ?thesis by (simp add: tp1(2) e post_push_def)
qed

lemma tm_pool_step:
  assumes "tm_step who tm tm'" "tm_pool_inv tm"
  shows "tm_pool_inv tm'"
  using assms
proof cases
  case (tm_tick_body k now now')
  then show ?thesis using assms(2)
    by (auto simp: tick_body_def tm_pool_inv_def result_iff Let_def split: if_splits)
next
  case (tm_tick_post f)
  then show ?thesis using assms(2) post_task_pool[of f "tm_thread_pool tm"]
    by (auto simp: tick_post_def tm_pool_inv_def result_iff)
next
  case (tm_pool who' tp')
  then show ?thesis using assms(2) tp.inv_step[of "tm_thread_pool tm" tp'] by (auto simp: tm_pool_inv_def)
qed (auto simp: tm_pool_inv_def tm_reg timer_run_def tm_cancel_def tick_test_def Let_def)

lemma tm_count_register:
  assumes inv: "tm_count_inv tm" and reg: "tm_register node due tm = (i, tm')"
    and s: "\<And>j. tn_id (node j) = j" "\<And>j. tn_is_period (node j) = (due = None)"
      "\<And>j. tn_is_period (node j) \<Longrightarrow> \<not> tn_is_repeated (node j)"
      "\<And>j n. due = Some n \<Longrightarrow> node_due (node j) = n"
  shows "tm_count_inv tm'"
proof -
  let ?i = "sint (tm_id tm)"
  have q: "tm_queue tm' = tm_queue tm @ [node ?i]" and l: "tm_log tm' = Registered ?i due # tm_log tm"
    using reg s(1) by (auto simp: tm_register_def Let_def)
  have "node_ok (tm_log tm') (node ?i)" using s by (auto simp: l node_ok_def was_registered_def)
  moreover have "taken_count (tm_log tm') j + still_due (tm_queue tm') j = due_count (tm_log tm') j"
    if "countable (tm_log tm') j" for j
  proof -
    have "countable (tm_log tm) j" using that by (auto simp: countable_def l)
    moreover have "j = ?i \<Longrightarrow> due \<noteq> None" using that by (cases due) (auto simp: countable_def l)
    ultimately show ?thesis using inv s by (cases due) (auto simp: tm_count_inv_def q l still_due_one)
  qed
  ultimately show ?thesis using inv by (auto simp: tm_count_inv_def q l node_ok_log)
qed

lemma tm_count_body:
  assumes inv: "tm_count_inv tm" "tm_map_inv tm" and top: "tm_queue tm = [] \<or> is_top k (tm_queue tm)"
    and run: "tick_body now now' k tm = Inr tm'"
  shows "tm_count_inv tm'"
proof (cases "tm_queue tm = [] \<or> tn_tm_point (tm_queue tm ! k) - now \<ge> NS_PER_MS")
  case True
  then show ?thesis using run inv(1) by (auto simp: tick_body_def tm_count_inv_def Let_def split: if_splits)
next
  case False
  let ?s = "tm_queue tm ! k" and ?q = "remove_at k (tm_queue tm)"
  have k: "k < length (tm_queue tm)" using False top by (auto simp: is_top_def)
  then have ok: "node_ok (tm_log tm) ?s" using inv(1) by (auto simp: tm_count_inv_def)
  note sub = still_due_remove[OF k]
  show ?thesis
  proof (cases "hm_is_key_exist (tn_id ?s) (tm_id_state_map tm)")
    case dead: False
    then have "Cancelled (tn_id ?s) \<in> set (tm_log tm)"
      using ok live_if inv(2) by (auto simp: node_ok_def tm_map_inv_def)
    then have "\<not> countable (tm_log tm) (tn_id ?s)" by (simp add: countable_def)
    then have "still_due ?q i = still_due (tm_queue tm) i" if "countable (tm_log tm) i" for i
      using sub[of i] that by auto
    moreover have "tm' = tm\<lparr>tm_queue := ?q, tm_tick_thread := T_top\<rparr>"
      using run False dead by (simp add: tick_body_def Let_def)
    ultimately show ?thesis using inv(1) set_remove_at[of k "tm_queue tm"] by (auto simp: tm_count_inv_def)
  next
    case True
    then obtain again where again: "rearm now' ?s = Inr again" "tm_queue tm' = ?q @ again"
        "tm_log tm' = Taken (tn_id ?s) (tn_callback ?s) (tn_tm_point ?s) now # tm_log tm"
      using run False by (auto simp: tick_body_def result_iff Let_def)
    have "node_ok (tm_log tm') s" if "s \<in> set (tm_queue tm')" for s
      using that inv(1) ok rearm_nodes[OF again(1)] set_remove_at[of k "tm_queue tm"]
      by (auto simp: again(2,3) tm_count_inv_def node_ok_def was_registered_def)
    moreover have "taken_count (tm_log tm') i + still_due (tm_queue tm') i = due_count (tm_log tm') i"
      if c: "countable (tm_log tm') i" for i
    proof -
      have c': "countable (tm_log tm) i" using c by (simp add: countable_def again(3))
      then have "tn_id ?s = i \<Longrightarrow> \<not> tn_is_period ?s" using ok by (auto simp: countable_def node_ok_def)
      moreover have "tn_id ?s \<noteq> i \<Longrightarrow> still_due again i = 0"
        using rearm_nodes[OF again(1)] by (auto simp: still_due_def filter_empty_conv)
      moreover have "taken_count (tm_log tm) i + still_due (tm_queue tm) i = due_count (tm_log tm) i"
        using inv(1) c' by (auto simp: tm_count_inv_def)
      ultimately show ?thesis using sub[of i] rearm_due[OF again(1), of i] by (auto simp: again(2,3))
    qed
    ultimately show ?thesis by (auto simp: tm_count_inv_def)
  qed
qed

lemma tm_count_step:
  assumes "tm_step who tm tm'" "tm_count_inv tm" "tm_map_inv tm"
  shows "tm_count_inv tm'"
  using assms
proof cases
  case (tm_after now ms p f i)
  show ?thesis by (rule tm_count_register[OF assms(2) tm_after(3)[unfolded run_after_def]]) (auto simp: node_due_def split: if_splits)
next
  case (tm_at t f i)
  show ?thesis by (rule tm_count_register[OF assms(2) tm_at(3)[unfolded run_at_def]]) (auto simp: node_due_def)
next
  case (tm_repeated now ms n f i)
  show ?thesis by (rule tm_count_register[OF assms(2) tm_repeated(3)[unfolded run_repeated_def]]) (auto simp: node_due_def)
next
  case (tm_tick_body k now now')
  then show ?thesis using tm_count_body assms(2,3) by blast
next
  case (tm_cancels i)
  then show ?thesis using assms(2)
    by (auto simp: tm_count_inv_def tm_cancel_def node_ok_log countable_def)
qed (auto simp: tm_count_inv_def timer_run_def tick_test_def tick_post_def result_iff)

interpretation tm: step_system tm_start tm_move tm_inv
proof
  fix tm :: "'c timer"
  assume st: "tm_start tm"
  then obtain tp :: "'c threadpool" where tp: "threadpool_new 2 = Inr tp" "tm_thread_pool tm = tp" "tm_queue tm = []" "tm_log tm = []"
      "tm_tick_thread tm = T_none" "tm_id_state_map tm = hm_new"
    by (auto simp: tm_start_def timer_new_def result_iff)
  have "tp_inv tp" using tp(1) by (intro tp.inv_start) (auto simp: tp_start_def)
  moreover have "tp_posting tp = {#}" "tp_accepted tp = []"
    using tp(1) by (auto simp: threadpool_new_def add_thread_def result_iff Let_def)
  ultimately show "tm_inv tm"
    using tp by (simp add: tm_inv_def tm_map_inv_def tm_sleep_inv_def tm_pool_inv_def tm_count_inv_def pending_post_def
        hm_facts still_due_one)
next
  fix tm tm' :: "'c timer"
  assume "tm_inv tm" "tm_move tm tm'"
  then show "tm_inv tm'"
    using tm_map_step tm_sleep_step tm_pool_step tm_count_step unfolding tm_inv_def by blast
qed

section \<open>Properties of the timer\<close>

text \<open>A short run: a repeated timer with a count of 0, started, found due at once.\<close>

definition timer_zero :: "nat timer" where
  "timer_zero = projr timer_new"

definition timer_one :: "nat timer" where
  "timer_one = snd (run_repeated 0 5 0 7 (timer_run timer_zero))"

definition timer_fired :: "nat timer" where
  "timer_fired = projr (tick_body 5000000 5000001 0 (tick_test timer_one))"

lemma timer_zero_start: "tm_start timer_zero"
  by (simp add: tm_start_def timer_zero_def timer_new_def threadpool_new_def)

lemma timer_zero_fields:
  "tm_destruct timer_zero = Tm_alive" "tm_tick_thread timer_zero = T_none" "tm_queue timer_zero = []" "tm_id timer_zero = 0"
  "tm_id_state_map timer_zero = hm_new" "tm_log timer_zero = []" "tm_running timer_zero"
  by (simp_all add: timer_zero_def timer_new_def threadpool_new_def)

lemma reach_tm_step: "reach tm_start tm_move tm \<Longrightarrow> tm_step who tm tm' \<Longrightarrow> reach tm_start tm_move tm'"
  by (rule reach_step) blast+

lemma reach_timer_run: "reach tm_start tm_move (timer_run timer_zero)"
  by (rule reach_tm_step[OF reach_start[of tm_start, OF timer_zero_start] tm_run_step]) (simp_all add: timer_zero_fields)

lemma reach_timer_one: "reach tm_start tm_move timer_one"
proof -
  obtain i where "run_repeated 0 5 0 7 (timer_run timer_zero) = (i, timer_one)"
    unfolding timer_one_def by (metis prod.collapse)
  then show ?thesis
    by (rule reach_tm_step[OF reach_timer_run tm_repeated[rotated]]) (simp add: timer_run_def timer_zero_fields)
qed

lemma reach_timer_fired:
  "reach tm_start tm_move timer_fired" "tm_log timer_fired = [Taken 0 7 5000000 5000000, Registered 0 (Some 1)]" "tm_queue timer_fired = []"
  "tm_destruct timer_fired = Tm_alive" "tm_tick_thread timer_fired = T_post 7" "tm_thread_pool timer_fired = tm_thread_pool timer_zero"
  "hm_is_key_exist 0 (tm_id_state_map timer_fired)"
proof -
  have one: "tm_tick_thread timer_one = T_top" "tm_running timer_one" "tm_log timer_one = [Registered 0 (Some 1)]"
      "tm_id_state_map timer_one = hm_emplace 0 Running_state hm_new" "length (tm_queue timer_one) = 1"
      "tm_queue timer_one ! 0 = \<lparr>tn_tm_point = 5000000, tn_callback = 7, tn_repeated_id = None, tn_id = 0,
         tn_repeated_num = Some 0, tn_is_period = False, tn_is_repeated = True, tn_period = Some 5000000\<rparr>"
    by (simp_all add: timer_one_def run_repeated_def tm_register_def timer_run_def timer_zero_fields tick_wake_def Let_def)
  obtain s where q: "tm_queue timer_one = [s]" using one(5) by (metis length_0_conv length_Suc_conv One_nat_def)
  let ?t = "tick_test timer_one"
  have t: "tm_queue ?t = tm_queue timer_one" "tm_log ?t = tm_log timer_one" "tm_id_state_map ?t = tm_id_state_map timer_one"
      "tm_tick_thread ?t = T_checked"
    using one by (simp_all add: tick_test_def)
  have "reach tm_start tm_move ?t" by (rule reach_tm_step[OF reach_timer_one tm_tick_test]) (simp add: one)
  moreover have run: "tick_body 5000000 5000001 0 ?t = Inr (?t\<lparr>tm_queue := [], tm_tick_thread := T_post 7,
      tm_log := Taken 0 7 5000000 5000000 # tm_log ?t\<rparr>)"
    using one(6) by (simp add: tick_body_def t one(4) q rearm_def remove_at_def hm_facts Let_def)
  moreover have "timer_fired = ?t\<lparr>tm_queue := [], tm_tick_thread := T_post 7, tm_log := Taken 0 7 5000000 5000000 # tm_log ?t\<rparr>"
    unfolding timer_fired_def run by simp
  moreover have "is_top 0 (tm_queue ?t)" by (simp add: is_top_def t q)
  ultimately show "reach tm_start tm_move timer_fired" using reach_tm_step tm_tick_body t(4) by metis
  show "tm_log timer_fired = [Taken 0 7 5000000 5000000, Registered 0 (Some 1)]" "tm_queue timer_fired = []"
    unfolding timer_fired_def run using t one(3) by simp_all
  show "tm_destruct timer_fired = Tm_alive" "tm_tick_thread timer_fired = T_post 7" "tm_thread_pool timer_fired = tm_thread_pool timer_zero"
      "hm_is_key_exist 0 (tm_id_state_map timer_fired)"
    unfolding timer_fired_def run using t(3) one(4)
    by (simp_all add: tick_test_def timer_one_def run_repeated_def tm_register_def timer_run_def timer_zero_fields hm_facts Let_def)
qed

text \<open>
  C25. What the tick thread hands to the pool, in every interleaving of callers, the tick thread and the
  pool: the callbacks posted so far, with the one about to be posted, are in this order exactly those of
  the nodes the tick thread took from the queue; and it takes a node only when its timer is registered and
  not cancelled since, and never a millisecond or more before its time. So a timer that is cancelled before
  it is taken does not fire, unless its id is given out again; a cancellation after that is too late.
\<close>

theorem timer_fires_live_and_due:
  assumes "reach tm_start tm_move tm"
  shows "tp_accepted (tm_thread_pool tm) @ pending_post (tm_tick_thread tm) = taken_callbacks (tm_log tm) \<and> taken_ok (tm_log tm) \<and>
     (\<forall>i. hm_is_key_exist i (tm_id_state_map tm) = live (tm_log tm) i)"
  using tm.reach_inv[OF assms] by (simp add: tm_inv_def tm_map_inv_def tm_pool_inv_def)

theorem timer_fires_live_and_due_witness:
  "taken_ok (tm_log timer_fired) \<and> tm_log timer_fired = [Taken 0 7 5000000 5000000, Registered 0 (Some 1)] \<and>
     tp_accepted (tm_thread_pool timer_fired) @ pending_post (tm_tick_thread timer_fired) = [7]"
  using timer_fires_live_and_due[OF reach_timer_fired(1)] reach_timer_fired(2) by simp

text \<open>
  Cancelling a timer that has been taken does not stop it: between the test of its id and \<^verbatim>\<open>post_task\<close> the
  mutex is free. In this run the timer is cancelled, and its callback is posted afterwards.
\<close>

theorem timer_cancel_too_late:
  "\<exists>tm tm' :: nat timer. reach tm_start tm_move tm \<and> tm_log tm = [Cancelled 0, Taken 0 7 5000000 5000000, Registered 0 (Some 1)] \<and>
     tm_step Tick tm tm' \<and> tp_accepted (tm_thread_pool tm) = [] \<and> tp_accepted (tm_thread_pool tm') = [7]"
proof -
  let ?tm = "tm_cancel 0 timer_fired"
  have f: "tm_destruct timer_fired = Tm_alive" "tm_tick_thread timer_fired = T_post 7" "hm_is_key_exist 0 (tm_id_state_map timer_fired)"
    using reach_timer_fired(4,5,7) by simp_all
  have r: "reach tm_start tm_move ?tm" by (rule reach_tm_step[OF reach_timer_fired(1) tm_cancels]) (rule f)
  have l: "tm_log ?tm = [Cancelled 0, Taken 0 7 5000000 5000000, Registered 0 (Some 1)]" "tm_tick_thread ?tm = T_post 7"
      "tm_thread_pool ?tm = tm_thread_pool timer_zero"
    using f reach_timer_fired(2,6) by (simp_all add: tm_cancel_def)
  have tp: "threadpool.tp_lock (tm_thread_pool timer_zero) = None" "tp_accepted (tm_thread_pool timer_zero) = []" "tp_run (tm_thread_pool timer_zero)"
    by (simp_all add: timer_zero_def timer_new_def threadpool_new_def add_thread_def Let_def)
  obtain tp' where tp': "post_task 7 (tm_thread_pool timer_zero) = Inr tp'" "tp_accepted tp' = [7]"
    using tp(2,3) by (simp add: post_task_def post_check_def post_push_def)
  let ?tm' = "?tm\<lparr>tm_thread_pool := tp', tm_tick_thread := T_top\<rparr>"
  have "tm_step Tick ?tm ?tm'" by (rule tm_tick_post[OF l(2)]) (simp_all add: l(3) tp(1) tp'(1) tick_post_def)
  then show ?thesis using r l tp(2) tp'(2) by (intro exI[of _ ?tm] exI[of _ ?tm']) simp
qed

text \<open>
  C26. A timer that is never cancelled is taken for firing exactly as often as it is due, no more and no less:
  the times it was taken so far and those still in the queue add up to the number of the registration, 1 for
  \<^verbatim>\<open>run_at\<close> and a one-shot \<^verbatim>\<open>run_after\<close>. For \<^verbatim>\<open>run_repeated\<close> with a count of \<open>n\<close> that number is
  \<open>n + 1\<close>: one more than asked for.
\<close>

theorem timer_fires_exactly:
  assumes "reach tm_start tm_move tm" "countable (tm_log tm) i"
  shows "taken_count (tm_log tm) i + still_due (tm_queue tm) i = due_count (tm_log tm) i \<and>
     (let (j, tm') = run_repeated now ms n f tm in due_count (tm_log tm') j = nat n + 1 + due_count (tm_log tm) j)"
  using tm.reach_inv[OF assms(1)] assms(2)
  by (simp add: tm_inv_def tm_count_inv_def run_repeated_def tm_register_def Let_def)

theorem timer_fires_exactly_witness:
  "tm_queue timer_fired = [] \<and> due_count (tm_log timer_fired) 0 = 1 \<and> taken_count (tm_log timer_fired) 0 = 1"
  using timer_fires_exactly[OF reach_timer_fired(1), of 0] reach_timer_fired(2,3)
  by (simp add: countable_def still_due_one)

text \<open>
  C27. The tick thread never oversleeps: it waits without a timeout only while no timer is queued, and with a
  timeout only for a duration that, counted from its reading of the clock, ends no later than the time of
  every queued timer.
\<close>

theorem timer_never_oversleeps:
  assumes "reach tm_start tm_move tm"
  shows "(tm_tick_thread tm = T_wait \<longrightarrow> tm_queue tm = []) \<and>
     (\<forall>t d s. tm_tick_thread tm = T_wait_for t d \<longrightarrow> s \<in> set (tm_queue tm) \<longrightarrow> t + d \<le> tn_tm_point s)"
  using tm.reach_inv[OF assms] by (simp add: tm_inv_def tm_sleep_inv_def)

definition timer_idle :: "nat timer" where
  "timer_idle = (tick_test (timer_run timer_zero))\<lparr>tm_tick_thread := T_wait\<rparr>"

lemma reach_timer_idle: "reach tm_start tm_move timer_idle"
proof -
  have t: "reach tm_start tm_move (tick_test (timer_run timer_zero))"
    by (rule reach_tm_step[OF reach_timer_run tm_tick_test]) (simp add: timer_run_def)
  show ?thesis
    by (rule reach_tm_step[OF t tm_tick_body[where now = 0 and now' = 0 and k = 0]])
      (simp_all add: timer_idle_def tick_body_def tick_test_def timer_run_def timer_zero_fields)
qed

theorem timer_never_oversleeps_witness: "tm_tick_thread timer_idle = T_wait \<and> tm_queue timer_idle = []"
  using timer_never_oversleeps[OF reach_timer_idle] by (simp add: timer_idle_def)

text \<open>
  The timer on top of its pool: the tasks the pool has started, those in its queue and the one
  the tick thread is about to post are, in this order, exactly those of the nodes taken from
  the queue, so callbacks start in that order, each once.
\<close>

theorem timer_pool_order:
  assumes "reach tm_start tm_move tm"
  shows "tp_started (tm_thread_pool tm) @ tp_tasks (tm_thread_pool tm) @ pending_post (tm_tick_thread tm) =
     taken_callbacks (tm_log tm)"
proof -
  have inv: "tm_pool_inv tm" using tm.reach_inv[OF assms] by (simp add: tm_inv_def)
  then have "tp_accepted (tm_thread_pool tm) = tp_started (tm_thread_pool tm) @ tp_tasks (tm_thread_pool tm)"
    by (simp add: tm_pool_inv_def tp_inv_def tp_queue_inv_def)
  then show ?thesis using inv by (simp add: tm_pool_inv_def)
qed

theorem timer_pool_order_witness:
  "tp_started (tm_thread_pool timer_fired) @ tp_tasks (tm_thread_pool timer_fired) @ pending_post (tm_tick_thread timer_fired) = [7]"
  using timer_pool_order[OF reach_timer_fired(1)] reach_timer_fired(2) by simp

text \<open>
  The destructor can block for ever: it clears \<^verbatim>\<open>tm_running\<close> and notifies without the mutex, and
  when both fall between the tick thread's test and its wait on an empty queue, the thread sleeps
  with no deadline while the destructor joins it; only a spurious wake-up or the pool can move.
\<close>

theorem timer_stop_blocks:
  "\<exists>tm :: nat timer. reach tm_start tm_move tm \<and> tm_destruct tm = Tm_joining \<and> tm_tick_thread tm = T_wait \<and>
     {who. \<exists>tm'. tm_step who tm tm'} \<subseteq> {Wakeup, Pool}"
proof -
  let ?a = "tick_test (timer_run timer_zero)"
  let ?b = "?a\<lparr>tm_running := False, tm_destruct := Tm_stored\<rparr>"
  let ?c = "?b\<lparr>tm_tick_thread := tick_wake (tm_tick_thread ?b), tm_destruct := Tm_joining\<rparr>"
  let ?d = "?c\<lparr>tm_tick_thread := T_wait\<rparr>"
  note defs = tick_test_def timer_run_def timer_zero_fields tick_wake_def
  have "reach tm_start tm_move ?a" by (rule reach_tm_step[OF reach_timer_run tm_tick_test]) (simp add: defs)
  then have "reach tm_start tm_move ?b" by (rule reach_tm_step[OF _ tm_store]) (simp add: defs)
  then have c: "reach tm_start tm_move ?c" by (rule reach_tm_step[OF _ tm_wake]) (simp add: defs)
  have d: "reach tm_start tm_move ?d"
    by (rule reach_tm_step[OF c tm_tick_body[where now = 0 and now' = 0 and k = 0]]) (simp_all add: defs tick_body_def)
  have "who \<in> {Wakeup, Pool}" if "tm_step who ?d tm'" for who tm'
    using that by cases simp_all
  then show ?thesis using d by (intro exI[of _ ?d]) auto
qed

end
