(* ===== verification/Tcp_Conn.thy ===== *)
theory Tcp_Conn
  imports Data_Buf Epoll Timer
begin

unbundle bit_operations_syntax

text \<open>
  A TCP connection (src/net/tcp_conn.h, tcp_conn.cpp): its two buffers over the shared memory pool,
  its descriptor in the poller of its event loop, and its place in the server's list. The state that
  connections share with the server is one record; connection objects live in a map from object
  numbers, the targets of the shared pointers. The lemmas show that write interest follows the
  output buffer, and what closing releases and what it leaves behind.
\<close>

section \<open>Connections and the server's state\<close>

datatype tcp_cb = Evfd_read_cb | Do_accept_cb | Do_read_cb nat | Do_write_cb nat

record tcp_conn =
  tc_loop :: nat
  tc_fd :: int
  tc_timer_id :: int
  tc_obuf :: buffer
  tc_ibuf :: buffer
  tc_connected_cb :: bool       \<comment> \<open>whether the callback is set\<close>
  tc_close_cb :: bool
  tc_context :: "nat option"    \<comment> \<open>the user's \<^verbatim>\<open>any\<close>, by the name of its value\<close>

record tcp_world =
  tw_pool :: mempool
  tw_pollers :: "nat \<Rightarrow> tcp_cb epoll"
  tw_conns :: "nat \<rightharpoonup> tcp_conn"
  tw_next :: nat
  tw_open_fds :: "int set"
  tw_nonblock :: "int set"      \<comment> \<open>the descriptors in non-blocking mode\<close>
  ts_tcp_connections :: "nat list"
  ts_conn_loops :: "nat list"
  ts_next_loop :: int
  ts_timer :: "nat timer"
  ts_tcp_conn_timout_ms :: int
  ts_connected_cb :: bool
  ts_close_cb :: bool
  ts_msg_cb :: bool
  tw_connected_calls :: "nat list" \<comment> \<open>ghost: calls of the connected callback\<close>
  tw_close_calls :: "nat list"     \<comment> \<open>ghost: calls of the close callback\<close>
  tw_message_calls :: "nat \<Rightarrow> bytes list" \<comment> \<open>ghost: the input at each call of a connection's message callback\<close>
  tw_sent :: "nat \<Rightarrow> bytes"        \<comment> \<open>ghost: the bytes the kernel took from each connection\<close>

definition get_conn :: "nat \<Rightarrow> 'a tcp_world_scheme \<Rightarrow> tcp_conn result" where
  "get_conn i w = deref (tw_conns w i)"

definition set_conn :: "nat \<Rightarrow> tcp_conn \<Rightarrow> 'a tcp_world_scheme \<Rightarrow> 'a tcp_world_scheme" where
  "set_conn i c w = w\<lparr>tw_conns := (tw_conns w)(i \<mapsto> c)\<rparr>"

definition on_poller :: "nat \<Rightarrow> (tcp_cb epoll \<Rightarrow> tcp_cb epoll) \<Rightarrow> 'a tcp_world_scheme \<Rightarrow> 'a tcp_world_scheme" where
  "on_poller l f w = w\<lparr>tw_pollers := (tw_pollers w)(l := f (tw_pollers w l))\<rparr>"

definition add_to_poller :: "epoll_ctl \<Rightarrow> nat \<Rightarrow> int \<Rightarrow> 32 word \<Rightarrow> tcp_cb \<Rightarrow> 'a tcp_world_scheme \<Rightarrow> 'a tcp_world_scheme" where
  "add_to_poller ctl l fd event cb w = on_poller l (epoll_add ctl fd event cb) w"

definition del_event_from_poller :: "epoll_ctl \<Rightarrow> nat \<Rightarrow> int \<Rightarrow> 32 word \<Rightarrow> 'a tcp_world_scheme \<Rightarrow> 'a tcp_world_scheme" where
  "del_event_from_poller ctl l fd event w = on_poller l (epoll_del_event ctl fd event) w"

definition del_from_poller :: "epoll_ctl \<Rightarrow> nat \<Rightarrow> int \<Rightarrow> 'a tcp_world_scheme \<Rightarrow> 'a tcp_world_scheme" where
  "del_from_poller ctl l fd w = on_poller l (epoll_del ctl fd) w"

text \<open>\<^verbatim>\<open>TcpServer::do_clean\<close> erases the first entry that points to the connection.\<close>

definition do_clean :: "nat \<Rightarrow> 'a tcp_world_scheme \<Rightarrow> 'a tcp_world_scheme" where
  "do_clean i w = w\<lparr>ts_tcp_connections := remove1 i (ts_tcp_connections w)\<rparr>"

section \<open>The connection's operations\<close>

definition conn_connected :: "nat \<Rightarrow> 'a tcp_world_scheme \<Rightarrow> 'a tcp_world_scheme result" where
  "conn_connected i w =
     rbind (get_conn i w) (\<lambda>c.
     Inr (if tc_connected_cb c then w\<lparr>tw_connected_calls := tw_connected_calls w @ [i]\<rparr> else w))"

text \<open>\<^verbatim>\<open>set_sockfd\<close> makes the socket non-blocking and sets a flag that concerns the sending of packets only.
  The constructor: a new object, without callbacks.\<close>

definition set_sockfd :: "int \<Rightarrow> 'a tcp_world_scheme \<Rightarrow> 'a tcp_world_scheme" where
  "set_sockfd fd w = w\<lparr>tw_nonblock := insert fd (tw_nonblock w)\<rparr>"

definition conn_new :: "nat \<Rightarrow> int \<Rightarrow> 'a tcp_world_scheme \<Rightarrow> nat \<times> 'a tcp_world_scheme" where
  "conn_new loop sockfd w =
     (tw_next w, set_conn (tw_next w)
        \<lparr>tc_loop = loop, tc_fd = sockfd, tc_timer_id = - 1, tc_obuf = buf_new, tc_ibuf = buf_new,
         tc_connected_cb = False, tc_close_cb = False, tc_context = None\<rparr> (set_sockfd sockfd (w\<lparr>tw_next := tw_next w + 1\<rparr>)))"

definition getLoop :: "nat \<Rightarrow> 'a tcp_world_scheme \<Rightarrow> nat result" where
  "getLoop i w = rbind (get_conn i w) (\<lambda>c. Inr (tc_loop c))"

definition get_fd :: "nat \<Rightarrow> 'a tcp_world_scheme \<Rightarrow> int result" where
  "get_fd i w = rbind (get_conn i w) (\<lambda>c. Inr (tc_fd c))"

definition set_timer_id :: "int \<Rightarrow> nat \<Rightarrow> 'a tcp_world_scheme \<Rightarrow> 'a tcp_world_scheme result" where
  [simp]: "set_timer_id tid i w = rbind (deref (tw_conns w i)) (\<lambda>c. Inr (w\<lparr>tw_conns := (tw_conns w)(i \<mapsto> c\<lparr>tc_timer_id := tid\<rparr>)\<rparr>))"

definition get_timer_id :: "nat \<Rightarrow> 'a tcp_world_scheme \<Rightarrow> int result" where
  [simp]: "get_timer_id i w = rbind (deref (tw_conns w i)) (\<lambda>c. Inr (tc_timer_id c))"

definition set_context :: "nat \<Rightarrow> nat \<Rightarrow> 'a tcp_world_scheme \<Rightarrow> 'a tcp_world_scheme result" where
  "set_context context i w = rbind (get_conn i w) (\<lambda>c. Inr (set_conn i (c\<lparr>tc_context := Some context\<rparr>) w))"

definition get_context :: "nat \<Rightarrow> 'a tcp_world_scheme \<Rightarrow> nat option result" where
  "get_context i w = rbind (get_conn i w) (\<lambda>c. Inr (tc_context c))"

definition conn_set_cbs :: "nat \<Rightarrow> bool \<Rightarrow> bool \<Rightarrow> 'a tcp_world_scheme \<Rightarrow> 'a tcp_world_scheme result" where
  "conn_set_cbs i connected close w =
     rbind (get_conn i w) (\<lambda>c. Inr (set_conn i (c\<lparr>tc_connected_cb := connected, tc_close_cb := close\<rparr>) w))"

text \<open>\<^verbatim>\<open>add_task\<close> of the connection, when the caller is the thread that constructed the loop: \<^verbatim>\<open>connected\<close> runs
  at once; then the socket is watched for input.\<close>

definition conn_add_task :: "epoll_ctl \<Rightarrow> nat \<Rightarrow> 'a tcp_world_scheme \<Rightarrow> 'a tcp_world_scheme result" where
  "conn_add_task ctl i w =
     rbind (conn_connected i w) (\<lambda>w.
     rbind (get_conn i w) (\<lambda>c.
     Inr (add_to_poller ctl (tc_loop c) (tc_fd c) EPOLLIN (Do_read_cb i) w)))"

definition conn_do_close :: "epoll_ctl \<Rightarrow> nat \<Rightarrow> 'a tcp_world_scheme \<Rightarrow> 'a tcp_world_scheme result" where
  "conn_do_close ctl i w =
     rbind (get_conn i w) (\<lambda>c.
     let w = (if tc_close_cb c then w\<lparr>tw_close_calls := tw_close_calls w @ [i]\<rparr> else w);
         w = del_from_poller ctl (tc_loop c) (tc_fd c) w in
     rbind (buf_clear (tc_ibuf c) (tw_pool w)) (\<lambda>(ib, mp).
     rbind (buf_clear (tc_obuf c) mp) (\<lambda>(ob, mp).
     Inr (do_clean i (set_conn i (c\<lparr>tc_ibuf := ib, tc_obuf := ob, tc_fd := - 1\<rparr>)
            (w\<lparr>tw_pool := mp, tw_open_fds := tw_open_fds w - {tc_fd c}\<rparr>))))))"

definition active_close :: "epoll_ctl \<Rightarrow> nat \<Rightarrow> 'a tcp_world_scheme \<Rightarrow> 'a tcp_world_scheme result" where
  [simp]: "active_close ctl i w = conn_do_close ctl i w"

text \<open>The destructor, when the last shared pointer goes: the buffers are destroyed in reverse order.\<close>

definition conn_delete :: "nat \<Rightarrow> 'a tcp_world_scheme \<Rightarrow> 'a tcp_world_scheme result" where
  "conn_delete i w =
     rbind (get_conn i w) (\<lambda>c.
     rbind (buf_delete (tc_ibuf c) (tw_pool w)) (\<lambda>mp.
     rbind (buf_delete (tc_obuf c) mp) (\<lambda>mp.
     Inr (w\<lparr>tw_pool := mp, tw_conns := (tw_conns w)(i := None)\<rparr>))))"

definition conn_send :: "epoll_ctl \<Rightarrow> nat \<Rightarrow> char list \<Rightarrow> int \<Rightarrow> 'a tcp_world_scheme \<Rightarrow> (bool \<times> 'a tcp_world_scheme) result" where
  "conn_send ctl i data len w =
     rbind (get_conn i w) (\<lambda>c.
     rbind (buf_length (tc_obuf c) (tw_pool w)) (\<lambda>l.
     let should_activate_epollout = (l = 0) in
     rbind (write2buf data len (tc_obuf c) (tw_pool w)) (\<lambda>(ret, b, mp).
     let w = set_conn i (c\<lparr>tc_obuf := b\<rparr>) (w\<lparr>tw_pool := mp\<rparr>) in
     if ret \<noteq> 0 then Inr (False, w)
     else Inr (True, if should_activate_epollout
                     then add_to_poller ctl (tc_loop c) (tc_fd c) EPOLLOUT (Do_write_cb i) w else w))))"

text \<open>The loop of \<^verbatim>\<open>do_write\<close>: the kernel's answers to each call of \<^verbatim>\<open>write2fd\<close>; false when it failed.\<close>

fun conn_write_loop :: "write_answer list list \<Rightarrow> nat \<Rightarrow> 'a tcp_world_scheme \<Rightarrow> (bool \<times> 'a tcp_world_scheme) result" where
  "conn_write_loop answers i w =
     rbind (get_conn i w) (\<lambda>c.
     rbind (buf_length (tc_obuf c) (tw_pool w)) (\<lambda>l.
     if l = 0 then Inr (True, w)
     else
       (case answers of
          [] \<Rightarrow> Inl Starved
        | as # answers \<Rightarrow>
          rbind (write2fd as (tc_obuf c) (tw_pool w)) (\<lambda>(ret, sent, mp).
          let w = w\<lparr>tw_pool := mp, tw_sent := (tw_sent w)(i := tw_sent w i @ sent)\<rparr> in
          if ret = - 1 then Inr (False, w)
          else if ret = 0 then Inr (True, w)
          else conn_write_loop answers i w))))"

declare conn_write_loop.simps [simp del]

definition conn_do_write :: "epoll_ctl \<Rightarrow> write_answer list list \<Rightarrow> nat \<Rightarrow> 'a tcp_world_scheme \<Rightarrow> 'a tcp_world_scheme result" where
  "conn_do_write ctl answers i w =
     rbind (conn_write_loop answers i w) (\<lambda>(ok, w).
     if \<not> ok then conn_do_close ctl i w
     else
       rbind (get_conn i w) (\<lambda>c.
       rbind (buf_length (tc_obuf c) (tw_pool w)) (\<lambda>l.
       Inr (if l = 0 then del_event_from_poller ctl (tc_loop c) (tc_fd c) EPOLLOUT w else w))))"

text \<open>\<^verbatim>\<open>do_read\<close>; \<^verbatim>\<open>message\<close> is the message callback.\<close>

definition conn_do_read :: "epoll_ctl \<Rightarrow> (nat \<Rightarrow> 'a tcp_world_scheme \<Rightarrow> 'a tcp_world_scheme result) \<Rightarrow> int option \<Rightarrow> read_answer list \<Rightarrow>
    nat \<Rightarrow> 'a tcp_world_scheme \<Rightarrow> 'a tcp_world_scheme result" where
  "conn_do_read ctl message fionread answers i w =
     rbind (get_conn i w) (\<lambda>c.
     rbind (read_from_fd fionread answers (tc_ibuf c) (tw_pool w)) (\<lambda>(ret, b, mp).
     let w = set_conn i (c\<lparr>tc_ibuf := b\<rparr>) (w\<lparr>tw_pool := mp\<rparr>) in
     if ret = - 1 then conn_do_close ctl i w
     else if ret = 0 then conn_do_close ctl i w
     else message i (w\<lparr>tw_message_calls := (tw_message_calls w)(i := tw_message_calls w i @ [contents b mp])\<rparr>)))"

section \<open>Well-formed connections\<close>

definition conn_ok :: "nat \<Rightarrow> tcp_conn \<Rightarrow> 'a tcp_world_scheme \<Rightarrow> addr set \<Rightarrow> bool" where
  "conn_ok i c w out \<longleftrightarrow> tw_conns w i = Some c \<and> buf_ok (tc_obuf c) (tw_pool w) out \<and> buf_ok (tc_ibuf c) (tw_pool w) out \<and>
     set_option (tc_obuf c) \<inter> set_option (tc_ibuf c) = {} \<and> aligned (tc_obuf c) (tw_pool w)"

text \<open>The poller watches the socket for output exactly while the output buffer holds bytes.\<close>

definition write_interest :: "tcp_conn \<Rightarrow> 'a tcp_world_scheme \<Rightarrow> bool" where
  "write_interest c w \<longleftrightarrow> in_sync (tw_pollers w (tc_loop c)) \<and>
     (\<exists>ev. ep_kernel (tw_pollers w (tc_loop c)) (tc_fd c) = Some ev \<and> ev AND EPOLLIN \<noteq> 0 \<and>
        (ev AND EPOLLOUT \<noteq> 0 \<longleftrightarrow> contents (tc_obuf c) (tw_pool w) \<noteq> []))"

definition closed_conn :: "tcp_conn \<Rightarrow> tcp_conn" where
  "closed_conn c = c\<lparr>tc_ibuf := None, tc_obuf := None, tc_fd := - 1\<rparr>"

text \<open>An entry of the poller, if there is one, has the callbacks of connection \<open>i\<close>.\<close>

definition cbs_ok :: "nat \<Rightarrow> tcp_cb io_event option \<Rightarrow> bool" where
  "cbs_ok i entry \<longleftrightarrow> (\<forall>e. entry = Some e \<longrightarrow>
     read_callback e = Some (Do_read_cb i) \<and> (write_callback e = None \<or> write_callback e = Some (Do_write_cb i)))"

definition entry_kept :: "nat \<Rightarrow> tcp_cb io_event option \<Rightarrow> tcp_cb io_event option \<Rightarrow> bool" where
  "entry_kept i entry entry' \<longleftrightarrow> (entry = None \<longrightarrow> entry' = None) \<and> (cbs_ok i entry \<longrightarrow> cbs_ok i entry')"

lemma entry_kept_refl [simp]: "entry_kept i entry entry"
  by (simp add: entry_kept_def)

definition bufs :: "tcp_conn \<Rightarrow> addr set" where
  "bufs c = set_option (tc_obuf c) \<union> set_option (tc_ibuf c)"

text \<open>
  What an operation on connection \<open>i\<close> may do to the world, given the chunks \<open>out\<close> handed out before:
  the connection goes from \<open>c\<close> to \<open>c'\<close> and is well-formed; its chunks are exchanged for others that nobody
  held, and no other chunk handed out changes; other connections, other pollers and the entries of
  other descriptors stay; the connection's own entry keeps its callbacks, or the connection is closed
  and both entry and descriptor are gone.
\<close>

definition touched :: "nat \<Rightarrow> addr set \<Rightarrow> tcp_conn \<Rightarrow> 'a tcp_world_scheme \<Rightarrow> tcp_conn \<Rightarrow> 'a tcp_world_scheme \<Rightarrow> bool" where
  "touched i out c w c' w' \<longleftrightarrow>
     conn_ok i c' w' (out - bufs c \<union> bufs c') \<and> bufs c' \<inter> (out - bufs c) = {} \<and>
     (\<forall>a \<in> out - bufs c. st_heap (tw_pool w') a = st_heap (tw_pool w) a) \<and>
     (\<forall>j. j \<noteq> i \<longrightarrow> tw_conns w' j = tw_conns w j \<and> tw_sent w' j = tw_sent w j \<and> tw_message_calls w' j = tw_message_calls w j) \<and>
     tw_next w' = tw_next w \<and> ts_conn_loops w' = ts_conn_loops w \<and> ts_msg_cb w' = ts_msg_cb w \<and> tcp_world.more w' = tcp_world.more w \<and>
     tc_loop c' = tc_loop c \<and> in_sync (tw_pollers w' (tc_loop c)) \<and> (\<forall>l. l \<noteq> tc_loop c \<longrightarrow> tw_pollers w' l = tw_pollers w l) \<and>
     (\<forall>fd. fd \<noteq> tc_fd c \<longrightarrow> ep_event_map (tw_pollers w' (tc_loop c)) fd = ep_event_map (tw_pollers w (tc_loop c)) fd) \<and>
     (if tc_fd c' = tc_fd c
      then tw_open_fds w' = tw_open_fds w \<and>
        entry_kept i (ep_event_map (tw_pollers w (tc_loop c)) (tc_fd c)) (ep_event_map (tw_pollers w' (tc_loop c)) (tc_fd c))
      else tc_fd c' = - 1 \<and> tw_open_fds w' = tw_open_fds w - {tc_fd c} \<and>
        ep_event_map (tw_pollers w' (tc_loop c)) (tc_fd c) = None)"

lemma touchedD:
  assumes "touched i out c w c' w'"
  shows "conn_ok i c' w' (out - bufs c \<union> bufs c')" "bufs c' \<inter> (out - bufs c) = {}"
    "a \<in> out - bufs c \<Longrightarrow> st_heap (tw_pool w') a = st_heap (tw_pool w) a"
    "j \<noteq> i \<Longrightarrow> tw_conns w' j = tw_conns w j" "j \<noteq> i \<Longrightarrow> tw_sent w' j = tw_sent w j"
    "j \<noteq> i \<Longrightarrow> tw_message_calls w' j = tw_message_calls w j"
    "tw_next w' = tw_next w" "ts_conn_loops w' = ts_conn_loops w" "ts_msg_cb w' = ts_msg_cb w" "tcp_world.more w' = tcp_world.more w"
    "tc_loop c' = tc_loop c" "in_sync (tw_pollers w' (tc_loop c))" "l \<noteq> tc_loop c \<Longrightarrow> tw_pollers w' l = tw_pollers w l"
    "fd \<noteq> tc_fd c \<Longrightarrow> ep_event_map (tw_pollers w' (tc_loop c)) fd = ep_event_map (tw_pollers w (tc_loop c)) fd"
  using assms unfolding touched_def by blast+

lemma touched_trans:
  assumes 1: "touched i out c w c1 w1" "tc_fd c1 = tc_fd c" and 2: "touched i (out - bufs c \<union> bufs c1) c1 w1 c2 w2"
  shows "touched i out c w c2 w2"
proof -
  have b: "out - bufs c \<union> bufs c1 - bufs c1 = out - bufs c" using touchedD(2)[OF 1(1)] by blast
  show ?thesis using 1 2 unfolding touched_def b entry_kept_def by (auto split: if_splits)
qed

lemma buf_length_contents:
  assumes "buf_ok b mp out"
  shows "buf_length b mp = Inr (int (length (contents b mp)))"
proof (cases b)
  case None
  then show ?thesis by (simp add: buf_length_def)
next
  case (Some a)
  then obtain c where "st_heap mp a = Some c" "int (length (contents (Some a) mp)) = ck_length c"
    using buf_chunk assms by blast
  then show ?thesis using Some by (simp add: buf_length_def)
qed

lemma epoll_bits:
  fixes e :: "32 word"
  shows "e AND EPOLLOUT \<noteq> 0 \<longleftrightarrow> bit e 2" "e AND EPOLLIN \<noteq> 0 \<longleftrightarrow> bit e 0"
  using bit_iff_and_push_bit_not_eq_0[of e 2] bit_iff_and_push_bit_not_eq_0[of e 0] by simp_all

lemma or_bits:
  fixes e :: "32 word"
  shows "(e OR EPOLLOUT) AND EPOLLOUT \<noteq> 0" "(e OR EPOLLOUT) AND EPOLLIN \<noteq> 0 \<longleftrightarrow> e AND EPOLLIN \<noteq> 0"
    "(e AND NOT EPOLLOUT) AND EPOLLOUT = 0" "(e AND NOT EPOLLOUT) AND EPOLLIN \<noteq> 0 \<longleftrightarrow> e AND EPOLLIN \<noteq> 0"
proof -
  have b: "bit (0x004 :: 32 word) 2" "\<not> bit (0x004 :: 32 word) 0" by simp_all
  show "(e OR EPOLLOUT) AND EPOLLOUT \<noteq> 0" "(e OR EPOLLOUT) AND EPOLLIN \<noteq> 0 \<longleftrightarrow> e AND EPOLLIN \<noteq> 0"
    "(e AND NOT EPOLLOUT) AND EPOLLIN \<noteq> 0 \<longleftrightarrow> e AND EPOLLIN \<noteq> 0"
    unfolding epoll_bits using b by (simp_all add: bit_or_iff bit_and_iff bit_not_iff)
  have "\<not> ((e AND NOT EPOLLOUT) AND EPOLLOUT \<noteq> 0)"
    unfolding epoll_bits using b by (simp add: bit_and_iff bit_not_iff)
  then show "(e AND NOT EPOLLOUT) AND EPOLLOUT = 0" by blast
qed

lemma poller_arm:
  assumes "epoll_kernel ctl" "ctl_accepts ctl" "in_sync ep" "ep_kernel ep fd = Some ev"
  shows "in_sync (epoll_add ctl fd event cb ep) \<and> ep_kernel (epoll_add ctl fd event cb ep) fd = Some (ev OR event)"
proof -
  obtain e where e: "ep_event_map ep fd = Some e" "ev_event e = ev" using assms(3,4) by (auto simp: in_sync_def)
  have ok: "fst (ctl (add_op fd ep) fd (final_events fd event ep) (ep_kernel ep))"
    using assms(2,4) e by (simp add: add_op_def ctl_accepts_def)
  show ?thesis using epoll_add_sync[OF assms(1,3) ok] ok e
    by (simp add: epoll_add_eq[OF assms(1)] final_events_def)
qed

lemma poller_disarm:
  assumes "epoll_kernel ctl" "ctl_accepts ctl" "in_sync ep" "ep_kernel ep fd = Some ev" "ev AND EPOLLIN \<noteq> 0"
  shows "in_sync (epoll_del_event ctl fd EPOLLOUT ep) \<and> ep_kernel (epoll_del_event ctl fd EPOLLOUT ep) fd = Some (ev AND NOT EPOLLOUT)"
proof -
  have "ev AND NOT EPOLLOUT \<noteq> 0" using or_bits(4)[of ev] assms(5) by auto
  then show ?thesis using epoll_del_event_sync[OF assms(1,3) ctl_mod_ok[OF assms(2)]] assms(4) by simp
qed

section \<open>What the operations touch\<close>

text \<open>Another chunk, or none, for one of the buffers; a change of the connection's own entry in its poller.\<close>

lemma bufs_swap:
  assumes "conn_ok i c w out"
  shows "fresh_for out (tc_obuf c) b \<Longrightarrow> out - bufs c \<union> bufs (c\<lparr>tc_obuf := b\<rparr>) = swapped out (tc_obuf c) b \<and> bufs (c\<lparr>tc_obuf := b\<rparr>) \<inter> (out - bufs c) = {}"
    "fresh_for out (tc_ibuf c) b \<Longrightarrow> out - bufs c \<union> bufs (c\<lparr>tc_ibuf := b\<rparr>) = swapped out (tc_ibuf c) b \<and> bufs (c\<lparr>tc_ibuf := b\<rparr>) \<inter> (out - bufs c) = {}"
    "out - bufs c \<union> bufs c = out"
  using assms by (auto simp: conn_ok_def buf_ok_def bufs_def swapped_def fresh_for_def)

lemma touched_obuf:
  assumes c: "conn_ok i c w out" "in_sync (tw_pollers w (tc_loop c))" and b: "buf_ok b mp (swapped out (tc_obuf c) b)" "aligned b mp"
      "others_same out (tc_obuf c) (tw_pool w) mp" "fresh_for out (tc_obuf c) b"
  shows "touched i out c w (c\<lparr>tc_obuf := b\<rparr>) (set_conn i (c\<lparr>tc_obuf := b\<rparr>) (w\<lparr>tw_pool := mp\<rparr>))"
proof -
  have "set_option b \<inter> set_option (tc_ibuf c) = {}" "set_option (tc_ibuf c) \<subseteq> swapped out (tc_obuf c) b"
    using c(1) b(4) by (auto simp: conn_ok_def buf_ok_def fresh_for_def swapped_def)
  then show ?thesis using bufs_swap(1)[OF c(1) b(4)] b(1-3) c(2)
    by (simp add: touched_def conn_ok_def set_conn_def buf_ok_def) (simp add: others_same_def bufs_def)
qed

lemma touched_ibuf:
  assumes c: "conn_ok i c w out" "in_sync (tw_pollers w (tc_loop c))" and b: "buf_ok b mp (swapped out (tc_ibuf c) b)"
      "others_same out (tc_ibuf c) (tw_pool w) mp" "fresh_for out (tc_ibuf c) b"
  shows "touched i out c w (c\<lparr>tc_ibuf := b\<rparr>) (set_conn i (c\<lparr>tc_ibuf := b\<rparr>) (w\<lparr>tw_pool := mp\<rparr>))"
proof -
  have ok: "buf_ok (tc_obuf c) (tw_pool w) out" "set_option (tc_obuf c) \<inter> set_option (tc_ibuf c) = {}" "aligned (tc_obuf c) (tw_pool w)"
    using c(1) by (auto simp: conn_ok_def)
  have "pool_owns mp (swapped out (tc_ibuf c) b)" using b(1) by (simp add: buf_ok_def)
  note o = other_buffer[OF ok(1,2) b(2) this]
  have "set_option (tc_obuf c) \<inter> set_option b = {}" using ok(1,2) b(3) by (auto simp: buf_ok_def fresh_for_def)
  then show ?thesis using bufs_swap(2)[OF c(1) b(3)] b(1,2) c(2) o ok(3)
    by (simp add: touched_def conn_ok_def set_conn_def) (simp add: others_same_def bufs_def)
qed

lemma touched_poller:
  assumes "conn_ok i c w out" "in_sync (f (tw_pollers w (tc_loop c)))"
    "\<And>fd. fd \<noteq> tc_fd c \<Longrightarrow> ep_event_map (f (tw_pollers w (tc_loop c))) fd = ep_event_map (tw_pollers w (tc_loop c)) fd"
    "entry_kept i (ep_event_map (tw_pollers w (tc_loop c)) (tc_fd c)) (ep_event_map (f (tw_pollers w (tc_loop c))) (tc_fd c))"
  shows "touched i out c w c (on_poller (tc_loop c) f w)"
  using assms bufs_swap(3)[OF assms(1)] by (auto simp: touched_def on_poller_def conn_ok_def)

lemma touched_refl: "conn_ok i c w out \<Longrightarrow> in_sync (tw_pollers w (tc_loop c)) \<Longrightarrow> touched i out c w c w"
  using bufs_swap(3)[of i c w out] by (auto simp: touched_def)

lemma poller_add_frame:
  "fd' \<noteq> fd \<Longrightarrow> ep_event_map (epoll_add ctl fd event cb ep) fd' = ep_event_map ep fd'"
  "ep_event_map (epoll_add ctl fd event cb ep) fd = Some (add_entry fd event cb ep)"
  by (simp_all add: epoll_add_def add_entry_def Let_def split: prod.splits bool.splits)

lemma poller_del_frame:
  "fd' \<noteq> fd \<Longrightarrow> ep_event_map (epoll_del ctl fd ep) fd' = ep_event_map ep fd'" "ep_event_map (epoll_del ctl fd ep) fd = None"
  by (simp_all add: epoll_del_def Let_def)

lemma poller_del_event_frame:
  "fd' \<noteq> fd \<Longrightarrow> ep_event_map (epoll_del_event ctl fd event ep) fd' = ep_event_map ep fd'"
  "entry_kept i (ep_event_map ep fd) (ep_event_map (epoll_del_event ctl fd event ep) fd)"
  by (auto simp: epoll_del_event_def epoll_del_def cbs_ok_def entry_kept_def Let_def split: option.splits if_splits)

lemma entry_kept_armed: "ep_event_map ep fd \<noteq> None \<Longrightarrow> entry_kept i (ep_event_map ep fd) (Some (add_entry fd EPOLLOUT (Do_write_cb i) ep))"
  by (auto simp: cbs_ok_def entry_kept_def add_entry_def map_entry_def Let_def)

lemma conn_send_cases:
  assumes k: "epoll_kernel ctl" "ctl_accepts ctl" and c: "conn_ok i c w out" "write_interest c w" and data: "data \<noteq> []"
    and fit: "int (length data) + int (length (contents (tc_obuf c) (tw_pool w))) \<le> INT_MAX"
  shows "no_memory (conn_send ctl i data (int (length data)) w) \<or>
     (conn_send ctl i data (int (length data)) w = Inr (False, w) \<and>
        4194304 < int (length data) + int (length (contents (tc_obuf c) (tw_pool w)))) \<or>
     (\<exists>c' w'. conn_send ctl i data (int (length data)) w = Inr (True, w') \<and>
        conn_ok i c' w' (swapped out (tc_obuf c) (tc_obuf c')) \<and> write_interest c' w' \<and>
        contents (tc_obuf c') (tw_pool w') = contents (tc_obuf c) (tw_pool w) @ map Some data \<and>
        c' = c\<lparr>tc_obuf := tc_obuf c'\<rparr> \<and> tw_sent w' = tw_sent w \<and> tw_message_calls w' = tw_message_calls w \<and> touched i out c w c' w')"
proof -
  have ok: "tw_conns w i = Some c" "buf_ok (tc_obuf c) (tw_pool w) out" "aligned (tc_obuf c) (tw_pool w)"
    using c(1) by (auto simp: conn_ok_def)
  note len = buf_length_contents[OF ok(2)]
  have same: "set_conn i c (w\<lparr>tw_pool := tw_pool w\<rparr>) = w" using ok(1) by (simp add: set_conn_def fun_upd_idem)
  consider (out) "no_memory (write2buf data (int (length data)) (tc_obuf c) (tw_pool w))"
    | (no) "write2buf data (int (length data)) (tc_obuf c) (tw_pool w) = Inr (- 1, tc_obuf c, tw_pool w)"
        "4194304 < int (length data) + int (length (contents (tc_obuf c) (tw_pool w)))"
    | (yes) b mp where "write2buf data (int (length data)) (tc_obuf c) (tw_pool w) = Inr (0, b, mp)"
        "buf_ok b mp (swapped out (tc_obuf c) b)" "aligned b mp"
        "contents b mp = contents (tc_obuf c) (tw_pool w) @ map Some data" "fresh_for out (tc_obuf c) b"
        "others_same out (tc_obuf c) (tw_pool w) mp"
    using write2buf_cases[OF ok(2,3) fit] by blast
  then show ?thesis
  proof cases
    case out
    then show ?thesis using ok(1) len by (auto simp: conn_send_def get_conn_def)
  next
    case no
    then show ?thesis using ok(1) len same by (simp add: conn_send_def get_conn_def)
  next
    case yes
    let ?c = "c\<lparr>tc_obuf := b\<rparr>" and ?w = "set_conn i (c\<lparr>tc_obuf := b\<rparr>) (w\<lparr>tw_pool := mp\<rparr>)"
    let ?e = "contents (tc_obuf c) (tw_pool w) = []"
    let ?w' = "if ?e then add_to_poller ctl (tc_loop c) (tc_fd c) EPOLLOUT (Do_write_cb i) ?w else ?w"
    have run: "conn_send ctl i data (int (length data)) w = Inr (True, ?w')"
      using ok(1) len yes(1) by (simp add: conn_send_def get_conn_def Let_def)
    obtain ev where ev: "ep_kernel (tw_pollers w (tc_loop c)) (tc_fd c) = Some ev" "ev AND EPOLLIN \<noteq> 0"
        "ev AND EPOLLOUT \<noteq> 0 \<longleftrightarrow> \<not> ?e" "in_sync (tw_pollers w (tc_loop c))"
      using c(2) by (auto simp: write_interest_def)
    have t: "touched i out c w ?c ?w" by (rule touched_obuf[OF c(1) ev(4) yes(2,3,6,5)])
    let ?out = "out - bufs c \<union> bufs ?c"
    have "touched i ?out ?c ?w ?c (add_to_poller ctl (tc_loop c) (tc_fd c) EPOLLOUT (Do_write_cb i) ?w)"
    proof -
      have "ep_event_map (tw_pollers w (tc_loop c)) (tc_fd c) \<noteq> None" using ev(1,4) by (auto simp: in_sync_def)
      moreover have "in_sync (epoll_add ctl (tc_fd c) EPOLLOUT (Do_write_cb i) (tw_pollers w (tc_loop c)))"
        using poller_arm[OF k ev(4,1)] by blast
      moreover have "touched i ?out ?c ?w ?c (on_poller (tc_loop ?c) (epoll_add ctl (tc_fd c) EPOLLOUT (Do_write_cb i)) ?w)"
        using calculation entry_kept_armed[of "tw_pollers w (tc_loop c)" "tc_fd c" i] touchedD(1)[OF t]
        by (intro touched_poller) (simp_all add: poller_add_frame set_conn_def)
      ultimately show ?thesis by (simp add: add_to_poller_def)
    qed
    from touched_trans[OF t _ this] have t': "touched i out c w ?c ?w'" using t by simp
    have "conn_ok i ?c ?w' (swapped out (tc_obuf c) b)"
      using touchedD(1)[OF t'] bufs_swap(1)[OF c(1) yes(5)] by simp
    moreover
    have "write_interest ?c ?w'"
      using poller_arm[OF k ev(4,1), of EPOLLOUT "Do_write_cb i"] ev yes(4) data or_bits(1,2)[of ev]
      by (auto simp: write_interest_def set_conn_def add_to_poller_def on_poller_def)
    moreover have "contents (tc_obuf ?c) (tw_pool ?w') = contents (tc_obuf c) (tw_pool w) @ map Some data" "tw_sent ?w' = tw_sent w"
        "tw_message_calls ?w' = tw_message_calls w"
      using yes(4) by (simp_all add: set_conn_def add_to_poller_def on_poller_def)
    ultimately show ?thesis using run t' by (intro disjI2 exI[of _ ?c] exI[of _ ?w']) simp
  qed
qed

text \<open>The loop of \<^verbatim>\<open>do_write\<close> sends prefixes; it stops when the buffer is empty, the socket is full or the
  connection failed.\<close>

definition loop_sent :: "nat \<Rightarrow> tcp_conn \<Rightarrow> 'a tcp_world_scheme \<Rightarrow> 'a tcp_world_scheme \<Rightarrow> addr set \<Rightarrow> bool" where
  "loop_sent i c w w' out \<longleftrightarrow> conn_ok i c w' out \<and> others_same out (tc_obuf c) (tw_pool w) (tw_pool w') \<and>
     (\<exists>mp all. w' = w\<lparr>tw_pool := mp, tw_sent := (tw_sent w)(i := all)\<rparr>) \<and>
     (\<exists>sent. tw_sent w' i = tw_sent w i @ sent \<and> sent @ contents (tc_obuf c) (tw_pool w') = contents (tc_obuf c) (tw_pool w))"

lemma loop_sent_frame:
  assumes "loop_sent i c w w' out"
  shows "tw_pollers w' = tw_pollers w" "tw_message_calls w' = tw_message_calls w"
    "in_sync (tw_pollers w (tc_loop c)) \<Longrightarrow> set_option (tc_obuf c) \<subseteq> out \<Longrightarrow> touched i out c w c w'"
proof -
  obtain mp all where w': "w' = w\<lparr>tw_pool := mp, tw_sent := (tw_sent w)(i := all)\<rparr>" using assms by (auto simp: loop_sent_def)
  have c: "conn_ok i c w' out" "others_same out (tc_obuf c) (tw_pool w) (tw_pool w')" using assms by (auto simp: loop_sent_def)
  show "tw_pollers w' = tw_pollers w" "tw_message_calls w' = tw_message_calls w" using w' by simp_all
  show "touched i out c w c w'" if "in_sync (tw_pollers w (tc_loop c))"
    using c w' that bufs_swap(3)[OF c(1)] by (simp add: touched_def) (auto simp: others_same_def bufs_def)
qed

lemma loop_sent_refl: "conn_ok i c w out \<Longrightarrow> loop_sent i c w w out"
  by (auto simp: loop_sent_def others_same_def intro!: exI[of _ "tw_pool w"] exI[of _ "tw_sent w i"])

text \<open>What the loop gets the socket to take of \<open>p\<close> pending bytes, and whether it goes on without an error:
  it stops when no byte is left, when the socket takes none or would block, and at an error.\<close>

fun socket_takes :: "write_answer list list \<Rightarrow> nat \<Rightarrow> nat \<times> bool" where
  "socket_takes [] p = (0, True)"
| "socket_takes (as # answers) p =
     (if p = 0 then (0, True)
      else case write_retry as of
        Inr (Write_ok room) \<Rightarrow>
          (if room = 0 then (0, True)
           else case socket_takes answers (p - room) of (n, ok) \<Rightarrow> (min room p + n, ok))
      | Inr (Write_err e) \<Rightarrow> (0, e = EAGAIN)
      | Inl _ \<Rightarrow> (0, True))"

lemma conn_write_loop_ok:
  assumes "conn_ok i c w out" "\<forall>as \<in> set answers. \<exists>ans. write_retry as = Inr ans"
    "length (contents (tc_obuf c) (tw_pool w)) \<le> length answers"
  shows "\<exists>w'. conn_write_loop answers i w = Inr (snd (socket_takes answers (length (contents (tc_obuf c) (tw_pool w)))), w') \<and>
     loop_sent i c w w' out \<and>
     contents (tc_obuf c) (tw_pool w') = drop (fst (socket_takes answers (length (contents (tc_obuf c) (tw_pool w))))) (contents (tc_obuf c) (tw_pool w))"
  using assms
proof (induction answers arbitrary: w)
  case Nil
  then show ?case
    using buf_length_contents[of "tc_obuf c" "tw_pool w" out] loop_sent_refl[of i c w out]
    by (subst conn_write_loop.simps) (auto simp: conn_ok_def get_conn_def)
next
  case (Cons as answers)
  have ok: "tw_conns w i = Some c" "buf_ok (tc_obuf c) (tw_pool w) out" "aligned (tc_obuf c) (tw_pool w)"
      "buf_ok (tc_ibuf c) (tw_pool w) out"
    using Cons.prems(1) by (auto simp: conn_ok_def)
  note len = buf_length_contents[OF ok(2)]
  show ?case
  proof (cases "contents (tc_obuf c) (tw_pool w) = []")
    case True
    then show ?thesis using ok(1) len loop_sent_refl[OF Cons.prems(1)]
      by (subst conn_write_loop.simps) (auto simp: get_conn_def)
  next
    case False
    then obtain a where a: "tc_obuf c = Some a" by (cases "tc_obuf c") auto
    obtain ans where ans: "write_retry as = Inr ans" using Cons.prems(2) by auto
    let ?n = "\<lambda>mp sent. w\<lparr>tw_pool := mp, tw_sent := (tw_sent w)(i := tw_sent w i @ sent)\<rparr>"
    have step: "conn_write_loop (as # answers) i w =
        rbind (write2fd as (Some a) (tw_pool w)) (\<lambda>(ret, sent, mp).
          if ret = - 1 then Inr (False, ?n mp sent) else if ret = 0 then Inr (True, ?n mp sent)
          else conn_write_loop answers i (?n mp sent))"
      using ok(1) len False a by (subst conn_write_loop.simps) (simp add: get_conn_def Let_def)
    show ?thesis
    proof (cases ans)
      case (Write_err e)
      have "?n (tw_pool w) [] = w" by (simp add: fun_upd_idem)
      then show ?thesis using step Write_err write2fd_cases[of a "tw_pool w" out as ans] ok a ans loop_sent_refl[OF Cons.prems(1)] False
        by auto
    next
      case (Write_ok room)
      let ?old = "contents (tc_obuf c) (tw_pool w)"
      obtain mp where mp: "write2fd as (Some a) (tw_pool w) = Inr (int (min room (length ?old)), take room ?old, mp)"
          "buf_ok (Some a) mp out" "aligned (Some a) mp" "contents (Some a) mp = drop room ?old" "others_same out (Some a) (tw_pool w) mp"
        using write2fd_cases[of a "tw_pool w" out as ans] ok a ans Write_ok by auto
      let ?w = "?n mp (take room ?old)"
      have cok: "conn_ok i c ?w out" using Cons.prems(1) mp(2,3) a ok(4) by (simp add: conn_ok_def buf_ok_def)
      show ?thesis
      proof (cases "room = 0")
        case True
        then show ?thesis using step mp cok a ans Write_ok by (auto simp: loop_sent_def intro!: exI[of _ mp] exI[of _ "tw_sent w i"])
      next
        case room: False
        have "length (contents (tc_obuf c) (tw_pool ?w)) \<le> length answers"
          using mp(4) a room Cons.prems(3) by simp
        moreover have new: "contents (tc_obuf c) (tw_pool ?w) = drop room ?old" using mp(4) a by simp
        ultimately obtain w' where w': "conn_write_loop answers i ?w = Inr (snd (socket_takes answers (length ?old - room)), w')"
            "loop_sent i c ?w w' out" "contents (tc_obuf c) (tw_pool w') = drop (fst (socket_takes answers (length ?old - room))) (drop room ?old)"
          using Cons.IH[OF cok] Cons.prems(2) unfolding new length_drop by auto
        obtain sent where "tw_sent w' i = tw_sent ?w i @ sent" "sent @ contents (tc_obuf c) (tw_pool w') = drop room ?old"
          using w'(2) mp(4) a by (auto simp: loop_sent_def)
        then have "tw_sent w' i = tw_sent w i @ (take room ?old @ sent) \<and>
            (take room ?old @ sent) @ contents (tc_obuf c) (tw_pool w') = ?old" by simp
        moreover have "others_same out (tc_obuf c) (tw_pool w) (tw_pool w')"
          using w'(2) mp(5) a by (auto simp: loop_sent_def others_same_def)
        moreover obtain mp' all where "w' = w\<lparr>tw_pool := mp', tw_sent := (tw_sent w)(i := all)\<rparr>"
          using w'(2) by (auto simp: loop_sent_def)
        ultimately have "loop_sent i c w w' out" using w'(2) unfolding loop_sent_def by blast
        moreover have "min room (length ?old) \<noteq> 0" using room False by (simp add: min_def)
        then have "conn_write_loop (as # answers) i w = conn_write_loop answers i ?w"
          unfolding step mp(1) by (simp del: min_less_iff_conj)
        moreover have "socket_takes (as # answers) (length ?old) =
            (min room (length ?old) + fst (socket_takes answers (length ?old - room)), snd (socket_takes answers (length ?old - room)))"
          using False ans Write_ok room by (simp split: prod.split)
        moreover have "drop (n + m) ?old = drop m (drop room ?old)" if "n = min room (length ?old)" for n m
          using that by (cases "room \<le> length ?old") (simp_all add: min_def add.commute)
        ultimately show ?thesis using w'(1,3) by (metis fst_conv snd_conv)
      qed
    qed
  qed
qed

lemma conn_do_write_ok:
  assumes k: "epoll_kernel ctl" "ctl_accepts ctl" and c: "conn_ok i c w out" "write_interest c w"
    and loop: "conn_write_loop answers i w = Inr (True, w1)" "loop_sent i c w w1 out"
  shows "\<exists>w'. conn_do_write ctl answers i w = Inr w' \<and> touched i out c w c w' \<and> write_interest c w' \<and>
     tw_pool w' = tw_pool w1 \<and> tw_sent w' = tw_sent w1 \<and> tw_message_calls w' = tw_message_calls w"
proof -
  have ok: "tw_conns w1 i = Some c" "buf_ok (tc_obuf c) (tw_pool w1) out" "conn_ok i c w1 out" "tw_pollers w1 = tw_pollers w"
    using loop(2) loop_sent_frame(1)[OF loop(2)] by (auto simp: loop_sent_def conn_ok_def)
  obtain sent where sent: "sent @ contents (tc_obuf c) (tw_pool w1) = contents (tc_obuf c) (tw_pool w)"
    using loop(2) by (auto simp: loop_sent_def)
  let ?e = "contents (tc_obuf c) (tw_pool w1) = []"
  let ?w = "if ?e then del_event_from_poller ctl (tc_loop c) (tc_fd c) EPOLLOUT w1 else w1"
  have run: "conn_do_write ctl answers i w = Inr ?w"
    using loop(1) ok(1) buf_length_contents[OF ok(2)] by (simp add: conn_do_write_def get_conn_def)
  obtain ev where ev: "ep_kernel (tw_pollers w (tc_loop c)) (tc_fd c) = Some ev" "ev AND EPOLLIN \<noteq> 0"
      "ev AND EPOLLOUT \<noteq> 0 \<longleftrightarrow> contents (tc_obuf c) (tw_pool w) \<noteq> []" "in_sync (tw_pollers w (tc_loop c))"
    using c(2) by (auto simp: write_interest_def)
  have "write_interest c ?w"
  proof (cases ?e)
    case True
    then show ?thesis using poller_disarm[OF k ev(4,1,2)] ev(2) or_bits(3,4)[of ev] ok(4)
      by (auto simp: write_interest_def del_event_from_poller_def on_poller_def)
  next
    case False
    then have "contents (tc_obuf c) (tw_pool w) \<noteq> []" using sent by auto
    then show ?thesis using ev ok(4) False by (auto simp: write_interest_def)
  qed
  moreover have "touched i out c w c ?w"
  proof -
    have t: "touched i out c w c w1" using loop_sent_frame(3)[OF loop(2) ev(4)] ok(2) by (simp add: buf_ok_def)
    have "in_sync (epoll_del_event ctl (tc_fd c) EPOLLOUT (tw_pollers w1 (tc_loop c)))"
      using poller_disarm[OF k ev(4,1,2)] ok(4) by simp
    then have "touched i (out - bufs c \<union> bufs c) c w1 c (on_poller (tc_loop c) (epoll_del_event ctl (tc_fd c) EPOLLOUT) w1)"
      using touchedD(1)[OF t] by (intro touched_poller) (simp_all add: poller_del_event_frame)
    from touched_trans[OF t refl this] show ?thesis using t by (simp add: del_event_from_poller_def)
  qed
  ultimately show ?thesis using run loop_sent_frame(2)[OF loop(2)] by (auto simp: del_event_from_poller_def on_poller_def)
qed

text \<open>Closing: both chunks go back to the pool.\<close>

lemma buffers_cleared:
  assumes "conn_ok i c w out"
  obtains mp1 mp where "buf_clear (tc_ibuf c) (tw_pool w) = Inr (None, mp1)" "buf_clear (tc_obuf c) mp1 = Inr (None, mp)"
    "pool_owns mp (out - bufs c)" "\<And>a. a \<in> out - bufs c \<Longrightarrow> st_heap mp a = st_heap (tw_pool w) a"
proof -
  have ok: "buf_ok (tc_ibuf c) (tw_pool w) out" "buf_ok (tc_obuf c) (tw_pool w) out" "set_option (tc_obuf c) \<inter> set_option (tc_ibuf c) = {}"
    using assms by (auto simp: conn_ok_def)
  obtain mp1 where mp1: "buf_clear (tc_ibuf c) (tw_pool w) = Inr (None, mp1)" "pool_owns mp1 (out - set_option (tc_ibuf c))"
      "others_same out (tc_ibuf c) (tw_pool w) mp1"
    using buf_clear_ok[OF ok(1)] by blast
  have "buf_ok (tc_obuf c) mp1 (out - set_option (tc_ibuf c))" using mp1(2) ok(2,3) by (auto simp: buf_ok_def)
  then obtain mp where mp: "buf_clear (tc_obuf c) mp1 = Inr (None, mp)" "pool_owns mp (out - set_option (tc_ibuf c) - set_option (tc_obuf c))"
      "others_same (out - set_option (tc_ibuf c)) (tc_obuf c) mp1 mp"
    using buf_clear_ok by blast
  have "out - set_option (tc_ibuf c) - set_option (tc_obuf c) = out - bufs c" by (auto simp: bufs_def)
  then have "pool_owns mp (out - bufs c)" using mp(2) by simp
  moreover have "st_heap mp a = st_heap (tw_pool w) a" if "a \<in> out - bufs c" for a
    using that mp(3) mp1(3) by (simp add: others_same_def bufs_def)
  ultimately show ?thesis using that mp1(1) mp(1) by blast
qed

lemma conn_do_close_ok:
  assumes k: "epoll_kernel ctl" and c: "conn_ok i c w out" and sync: "in_sync (tw_pollers w (tc_loop c))"
  shows "\<exists>w'. conn_do_close ctl i w = Inr w' \<and> pool_owns (tw_pool w') (out - set_option (tc_ibuf c) - set_option (tc_obuf c)) \<and>
     tw_conns w' i = Some (closed_conn c) \<and>
     in_sync (tw_pollers w' (tc_loop c)) \<and> ep_kernel (tw_pollers w' (tc_loop c)) (tc_fd c) = None \<and>
     tw_open_fds w' = tw_open_fds w - {tc_fd c} \<and> ts_tcp_connections w' = remove1 i (ts_tcp_connections w) \<and>
     ts_timer w' = ts_timer w \<and> tw_sent w' = tw_sent w \<and> tw_message_calls w' = tw_message_calls w \<and>
     tw_close_calls w' = tw_close_calls w @ (if tc_close_cb c then [i] else []) \<and>
     (tc_fd c = - 1 \<longrightarrow> - 1 \<notin> tw_open_fds w \<longrightarrow> touched i out c w (closed_conn c) w') \<and>
     (tc_fd c \<noteq> - 1 \<longrightarrow> touched i out c w (closed_conn c) w')"
proof -
  have i: "tw_conns w i = Some c" using c by (simp add: conn_ok_def)
  obtain mp1 mp where mp: "buf_clear (tc_ibuf c) (tw_pool w) = Inr (None, mp1)" "buf_clear (tc_obuf c) mp1 = Inr (None, mp)"
      "pool_owns mp (out - bufs c)" "\<And>a. a \<in> out - bufs c \<Longrightarrow> st_heap mp a = st_heap (tw_pool w) a"
    using buffers_cleared[OF c] by blast
  let ?ep = "epoll_del ctl (tc_fd c) (tw_pollers w (tc_loop c))"
  let ?w' = "w\<lparr>tw_pool := mp, tw_pollers := (tw_pollers w)(tc_loop c := ?ep), tw_conns := (tw_conns w)(i \<mapsto> closed_conn c),
     tw_open_fds := tw_open_fds w - {tc_fd c}, ts_tcp_connections := remove1 i (ts_tcp_connections w),
     tw_close_calls := tw_close_calls w @ (if tc_close_cb c then [i] else [])\<rparr>"
  have run: "conn_do_close ctl i w = Inr ?w'"
    using i mp(1,2) by (simp add: conn_do_close_def get_conn_def del_from_poller_def on_poller_def do_clean_def set_conn_def closed_conn_def Let_def)
  have s: "in_sync ?ep" "ep_event_map ?ep (tc_fd c) = None" using epoll_del_sync[OF k sync, of "tc_fd c"] by auto
  then have kn: "ep_kernel ?ep (tc_fd c) = None" unfolding in_sync_def by simp
  have b: "out - set_option (tc_ibuf c) - set_option (tc_obuf c) = out - bufs c" "bufs (closed_conn c) = {}"
      "tc_fd (closed_conn c) = - 1" "tc_loop (closed_conn c) = tc_loop c"
    by (auto simp: bufs_def closed_conn_def)
  have "conn_ok i (closed_conn c) ?w' (out - bufs c)"
    using mp(3) by (simp add: conn_ok_def buf_ok_def aligned_def closed_conn_def)
  then have t: "touched i out c w (closed_conn c) ?w'" if "tc_fd c = - 1 \<Longrightarrow> - 1 \<notin> tw_open_fds w"
    using that mp(4) s b by (auto simp: touched_def poller_del_frame entry_kept_def cbs_ok_def)
  show ?thesis unfolding run b(1) using mp(3) s(1) kn t by (intro exI[of _ ?w'] conjI impI) simp_all
qed

text \<open>The destructor alone gives back the chunks too; after a close there are none left.\<close>

lemma conn_delete_ok:
  assumes "conn_ok i c w out"
  shows "\<exists>w'. conn_delete i w = Inr w' \<and> pool_owns (tw_pool w') (out - bufs c) \<and> tw_conns w' i = None \<and>
     (bufs c = {} \<longrightarrow> tw_pool w' = tw_pool w)"
proof -
  obtain mp1 mp where mp: "buf_clear (tc_ibuf c) (tw_pool w) = Inr (None, mp1)" "buf_clear (tc_obuf c) mp1 = Inr (None, mp)"
      "pool_owns mp (out - bufs c)"
    using buffers_cleared[OF assms] by blast
  have "bufs c = {} \<longrightarrow> mp = tw_pool w" using mp(1,2) by (auto simp: bufs_def buf_clear_def)
  then show ?thesis using assms mp by (simp add: conn_delete_def buf_delete_def get_conn_def conn_ok_def)
qed

lemma conn_do_write_takes:
  assumes k: "epoll_kernel ctl" "ctl_accepts ctl" and c: "conn_ok i c w out" "write_interest c w"
    and answers: "\<forall>as \<in> set answers. \<exists>ans. write_retry as = Inr ans"
      "length (contents (tc_obuf c) (tw_pool w)) \<le> length answers"
  shows "case socket_takes answers (length (contents (tc_obuf c) (tw_pool w))) of (n, ok) \<Rightarrow>
     \<exists>w'. conn_do_write ctl answers i w = Inr w' \<and> tw_sent w' i = tw_sent w i @ take n (contents (tc_obuf c) (tw_pool w)) \<and>
       tw_message_calls w' = tw_message_calls w \<and>
       (if ok then conn_ok i c w' out \<and> contents (tc_obuf c) (tw_pool w') = drop n (contents (tc_obuf c) (tw_pool w)) \<and> write_interest c w' \<and>
          touched i out c w c w'
        else tw_conns w' i = Some (closed_conn c) \<and> (tc_fd c \<noteq> - 1 \<longrightarrow> touched i out c w (closed_conn c) w'))"
proof -
  let ?old = "contents (tc_obuf c) (tw_pool w)"
  obtain n ok where n: "socket_takes answers (length ?old) = (n, ok)" by (cases "socket_takes answers (length ?old)")
  then obtain w1 where w1: "conn_write_loop answers i w = Inr (ok, w1)" "loop_sent i c w w1 out" "contents (tc_obuf c) (tw_pool w1) = drop n ?old"
    using conn_write_loop_ok[OF c(1) answers] by auto
  obtain sent where sent: "tw_sent w1 i = tw_sent w i @ sent"
      "sent @ contents (tc_obuf c) (tw_pool w1) = contents (tc_obuf c) (tw_pool w)"
    using w1(2) by (auto simp: loop_sent_def)
  then have take: "sent = take n ?old" using w1(3) by (metis append_same_eq append_take_drop_id)
  show ?thesis unfolding n prod.case
  proof (cases ok)
    case True
    then obtain w' where w': "conn_do_write ctl answers i w = Inr w'" "touched i out c w c w'" "write_interest c w'"
        "tw_pool w' = tw_pool w1" "tw_sent w' = tw_sent w1" "tw_message_calls w' = tw_message_calls w"
      using conn_do_write_ok[OF k c, of answers w1] w1 by auto
    have "conn_ok i c w' out" using touchedD(1)[OF w'(2)] bufs_swap(3)[OF c(1)] by simp
    then show "\<exists>w'. conn_do_write ctl answers i w = Inr w' \<and> tw_sent w' i = tw_sent w i @ take n ?old \<and> tw_message_calls w' = tw_message_calls w \<and>
       (if ok then conn_ok i c w' out \<and> contents (tc_obuf c) (tw_pool w') = drop n ?old \<and> write_interest c w' \<and> touched i out c w c w'
        else tw_conns w' i = Some (closed_conn c) \<and> (tc_fd c \<noteq> - 1 \<longrightarrow> touched i out c w (closed_conn c) w'))"
      using sent w' w1(3) take True by auto
  next
    case False
    have s: "in_sync (tw_pollers w (tc_loop c))" "in_sync (tw_pollers w1 (tc_loop c))"
      using loop_sent_frame(1)[OF w1(2)] c(2) by (auto simp: write_interest_def)
    have o: "conn_ok i c w1 out" using w1(2) by (simp add: loop_sent_def)
    have t: "touched i out c w c w1" using loop_sent_frame(3)[OF w1(2) s(1)] c(1) by (simp add: conn_ok_def buf_ok_def)
    obtain w' where w': "conn_do_close ctl i w1 = Inr w'"
        "tw_conns w' i = Some (closed_conn c)" "tw_sent w' = tw_sent w1" "tw_message_calls w' = tw_message_calls w1"
        "tc_fd c \<noteq> - 1 \<longrightarrow> touched i out c w1 (closed_conn c) w'"
      using conn_do_close_ok[OF k(1) o s(2)] by (elim exE conjE) (rule that)
    have "conn_do_write ctl answers i w = Inr w'" using w1(1) False w'(1) by (simp add: conn_do_write_def)
    moreover have "tw_sent w' i = tw_sent w i @ take n ?old" using sent(1) w'(3) take by simp
    moreover have "tc_fd c \<noteq> - 1 \<longrightarrow> touched i out c w (closed_conn c) w'"
      using touched_trans[OF t refl, of "closed_conn c" w'] w'(5) bufs_swap(3)[OF c(1)] by simp
    moreover have "tw_message_calls w' = tw_message_calls w" using w'(4) loop_sent_frame(2)[OF w1(2)] by simp
    ultimately show "\<exists>w'. conn_do_write ctl answers i w = Inr w' \<and> tw_sent w' i = tw_sent w i @ take n ?old \<and> tw_message_calls w' = tw_message_calls w \<and>
       (if ok then conn_ok i c w' out \<and> contents (tc_obuf c) (tw_pool w') = drop n ?old \<and> write_interest c w' \<and> touched i out c w c w'
        else tw_conns w' i = Some (closed_conn c) \<and> (tc_fd c \<noteq> - 1 \<longrightarrow> touched i out c w (closed_conn c) w'))"
      using w'(2) False by auto
  qed
qed

lemma conn_do_write_cases:
  assumes k: "epoll_kernel ctl" "ctl_accepts ctl" and c: "conn_ok i c w out" "write_interest c w"
    and answers: "\<forall>as \<in> set answers. \<exists>ans. write_retry as = Inr ans"
      "length (contents (tc_obuf c) (tw_pool w)) \<le> length answers"
  shows "\<exists>w'. conn_do_write ctl answers i w = Inr w' \<and>
     (\<exists>sent rest. tw_sent w' i = tw_sent w i @ sent \<and> sent @ rest = contents (tc_obuf c) (tw_pool w) \<and>
       (conn_ok i c w' out \<and> contents (tc_obuf c) (tw_pool w') = rest \<and> write_interest c w' \<and> touched i out c w c w' \<or>
        tw_conns w' i = Some (closed_conn c) \<and> (tc_fd c \<noteq> - 1 \<longrightarrow> touched i out c w (closed_conn c) w'))) \<and>
     tw_message_calls w' = tw_message_calls w"
proof -
  let ?old = "contents (tc_obuf c) (tw_pool w)"
  obtain n ok where n: "socket_takes answers (length ?old) = (n, ok)" by (cases "socket_takes answers (length ?old)")
  have "take n ?old @ drop n ?old = ?old" by simp
  then show ?thesis using conn_do_write_takes[OF assms] unfolding n prod.case
    by (elim exE conjE, intro exI conjI) (assumption, assumption, assumption, simp_all split: if_splits)
qed

text \<open>Reading: the bytes arrive in the input buffer and the output buffer is untouched.\<close>

definition has_read :: "nat \<Rightarrow> addr set \<Rightarrow> tcp_conn \<Rightarrow> char list \<Rightarrow> 'a tcp_world_scheme \<Rightarrow> tcp_conn \<Rightarrow> 'a tcp_world_scheme \<Rightarrow> bool" where
  "has_read i out c bs w c' w' \<longleftrightarrow> touched i out c w c' w' \<and> aligned (tc_ibuf c') (tw_pool w') \<and>
     contents (tc_ibuf c') (tw_pool w') = contents (tc_ibuf c) (tw_pool w) @ map Some bs \<and>
     contents (tc_obuf c') (tw_pool w') = contents (tc_obuf c) (tw_pool w) \<and> c' = c\<lparr>tc_ibuf := tc_ibuf c'\<rparr> \<and>
     tw_message_calls w' i = tw_message_calls w i @ [contents (tc_ibuf c') (tw_pool w')] \<and>
     tw_sent w' = tw_sent w \<and> tw_pollers w' = tw_pollers w"

lemma has_read_fields:
  assumes "has_read i out c bs w c' w'"
  shows "conn_ok i c' w' (out - bufs c \<union> bufs c')" "touched i out c w c' w'"
    "contents (tc_ibuf c') (tw_pool w') = contents (tc_ibuf c) (tw_pool w) @ map Some bs"
    "contents (tc_obuf c') (tw_pool w') = contents (tc_obuf c) (tw_pool w)" "tc_fd c' = tc_fd c" "tc_loop c' = tc_loop c"
    "tw_sent w' = tw_sent w" "tw_pollers w' = tw_pollers w" "tw_message_calls w' i = tw_message_calls w i @ [contents (tc_ibuf c') (tw_pool w')]"
proof -
  have e: "c' = c\<lparr>tc_ibuf := tc_ibuf c'\<rparr>" using assms unfolding has_read_def by blast
  show "tc_fd c' = tc_fd c" "tc_loop c' = tc_loop c" by (subst e, simp)+
  show "conn_ok i c' w' (out - bufs c \<union> bufs c')" using assms touchedD(1) unfolding has_read_def by blast
qed (use assms in \<open>simp_all only: has_read_def\<close>)

text \<open>The ghost record of a message is no part of what \<^const>\<open>touched\<close> constrains.\<close>

lemma touched_message: "touched i out c w c' w' \<Longrightarrow> touched i out c w c' (w'\<lparr>tw_message_calls := (tw_message_calls w')(i := ms)\<rparr>)"
  by (auto simp: touched_def conn_ok_def split: if_splits)

lemma conn_read_ok:
  assumes c: "conn_ok i c w out" "in_sync (tw_pollers w (tc_loop c))" "buf_ok b mp (swapped out (tc_ibuf c) b)" "aligned b mp"
      "others_same out (tc_ibuf c) (tw_pool w) mp" "fresh_for out (tc_ibuf c) b" "contents b mp = contents (tc_ibuf c) (tw_pool w) @ map Some bs"
  defines "c' \<equiv> c\<lparr>tc_ibuf := b\<rparr>"
  shows "has_read i out c bs w c' (set_conn i c' (w\<lparr>tw_pool := mp\<rparr>)\<lparr>tw_message_calls := (tw_message_calls w)(i := tw_message_calls w i @ [contents b mp])\<rparr>)"
proof -
  let ?w = "set_conn i c' (w\<lparr>tw_pool := mp\<rparr>)"
  have "touched i out c w c' ?w" unfolding c'_def by (rule touched_ibuf[OF c(1,2,3,5,6)])
  from touched_message[OF this, of "tw_message_calls w i @ [contents b mp]"]
  have t: "touched i out c w c' (set_conn i c' (w\<lparr>tw_pool := mp\<rparr>)\<lparr>tw_message_calls := (tw_message_calls w)(i := tw_message_calls w i @ [contents b mp])\<rparr>)"
    by (simp add: set_conn_def)
  have ok: "buf_ok (tc_obuf c) (tw_pool w) out" "set_option (tc_obuf c) \<inter> set_option (tc_ibuf c) = {}"
    using c(1) by (auto simp: conn_ok_def)
  have "contents (tc_obuf c) mp = contents (tc_obuf c) (tw_pool w)"
    using other_buffer[OF ok c(5), of b] c(3) by (simp add: buf_ok_def)
  then show ?thesis using t c(4,7) by (simp add: has_read_def set_conn_def c'_def)
qed

text \<open>After a read that failed or got nothing, the connection is closed.\<close>

definition has_closed :: "nat \<Rightarrow> addr set \<Rightarrow> tcp_conn \<Rightarrow> 'a tcp_world_scheme \<Rightarrow> 'a tcp_world_scheme \<Rightarrow> bool" where
  "has_closed i out c w w' \<longleftrightarrow> tw_conns w' i = Some (closed_conn c) \<and> tw_sent w' = tw_sent w \<and> tw_message_calls w' = tw_message_calls w \<and>
     (tc_fd c \<noteq> - 1 \<longrightarrow> touched i out c w (closed_conn c) w')"

lemma conn_read_closes:
  assumes k: "epoll_kernel ctl" and c: "conn_ok i c w out" "in_sync (tw_pollers w (tc_loop c))"
    and b: "buf_ok b mp (swapped out (tc_ibuf c) b)" "others_same out (tc_ibuf c) (tw_pool w) mp" "fresh_for out (tc_ibuf c) b"
  shows "\<exists>w'. conn_do_close ctl i (set_conn i (c\<lparr>tc_ibuf := b\<rparr>) (w\<lparr>tw_pool := mp\<rparr>)) = Inr w' \<and> has_closed i out c w w'"
proof -
  let ?c = "c\<lparr>tc_ibuf := b\<rparr>" and ?w = "set_conn i (c\<lparr>tc_ibuf := b\<rparr>) (w\<lparr>tw_pool := mp\<rparr>)"
  have t: "touched i out c w ?c ?w" by (rule touched_ibuf[OF c b])
  have s: "in_sync (tw_pollers ?w (tc_loop ?c))" using c(2) by (simp add: set_conn_def)
  have cc: "closed_conn ?c = closed_conn c" by (simp add: closed_conn_def)
  obtain w' where w': "conn_do_close ctl i ?w = Inr w'" "tw_conns w' i = Some (closed_conn ?c)" "tw_sent w' = tw_sent ?w"
      "tw_message_calls w' = tw_message_calls ?w" "tc_fd ?c \<noteq> - 1 \<longrightarrow> touched i (out - bufs c \<union> bufs ?c) ?c ?w (closed_conn ?c) w'"
    using conn_do_close_ok[OF k touchedD(1)[OF t] s] by (elim exE conjE) (rule that)
  have "tc_fd c \<noteq> - 1 \<longrightarrow> touched i out c w (closed_conn c) w'"
    using touched_trans[OF t, of "closed_conn c" w'] w'(5) unfolding cc by simp
  then show ?thesis using w' unfolding has_closed_def cc by (simp add: set_conn_def)
qed

lemma conn_do_read_cases:
  assumes k: "epoll_kernel ctl" and c: "conn_ok i c w out" "aligned (tc_ibuf c) (tw_pool w)" "in_sync (tw_pollers w (tc_loop c))"
    and n: "0 \<le> n" "n + int (length (contents (tc_ibuf c) (tw_pool w))) \<le> INT_MAX" "n = 0 \<Longrightarrow> tc_ibuf c = None"
    and ans: "read_retry answers = Inr (Read_ok ready)"
  defines "bs \<equiv> take (if n = 0 then 4096 else nat n) ready"
  obtains (no_memory) "no_memory (conn_do_read ctl message (Some n) answers i w)"
    | (short) "conn_do_read ctl message (Some n) answers i w = Inl Assertion" "bs \<noteq> []" "length bs < nat n"
    | (closed) w' where "conn_do_read ctl message (Some n) answers i w = Inr w'" "has_closed i out c w w'"
        "bs = [] \<or> 4194304 < n + int (length (contents (tc_ibuf c) (tw_pool w)))"
    | (message) c' w' where "conn_do_read ctl message (Some n) answers i w = message i w'" "bs \<noteq> []" "has_read i out c bs w c' w'"
proof -
  let ?r = "read_from_fd (Some n) answers (tc_ibuf c) (tw_pool w)"
  have i: "tw_conns w i = Some c" and ib: "buf_ok (tc_ibuf c) (tw_pool w) out" using c(1) by (auto simp: conn_ok_def)
  have same: "buf_ok (tc_ibuf c) (tw_pool w) (swapped out (tc_ibuf c) (tc_ibuf c))" "others_same out (tc_ibuf c) (tw_pool w) (tw_pool w)"
      "fresh_for out (tc_ibuf c) (tc_ibuf c)"
    using ib by (auto simp: buf_ok_def others_same_def fresh_for_def)
  consider (out) "no_memory ?r"
    | (refused) "?r = Inr (- 1, tc_ibuf c, tw_pool w)" "4194304 < n + int (length (contents (tc_ibuf c) (tw_pool w)))"
    | (got) b mp where "?r = (if n \<noteq> 0 \<and> bs \<noteq> [] \<and> int (length bs) \<noteq> n then Inl Assertion else Inr (int (length bs), b, mp))"
        "buf_ok b mp (swapped out (tc_ibuf c) b)" "aligned b mp" "contents b mp = contents (tc_ibuf c) (tw_pool w) @ map Some bs"
        "others_same out (tc_ibuf c) (tw_pool w) mp" "fresh_for out (tc_ibuf c) b"
    using read_from_fd_cases[OF ib c(2) n ans] unfolding bs_def Let_def by blast
  then show thesis
  proof cases
    case out
    then show thesis using i no_memory by (auto simp: conn_do_read_def get_conn_def)
  next
    case refused
    obtain w' where "conn_do_close ctl i (set_conn i (c\<lparr>tc_ibuf := tc_ibuf c\<rparr>) (w\<lparr>tw_pool := tw_pool w\<rparr>)) = Inr w'" "has_closed i out c w w'"
      using conn_read_closes[OF k c(1,3) same] by blast
    then show thesis using refused i closed[of w'] by (simp add: conn_do_read_def get_conn_def)
  next
    case got
    let ?c = "c\<lparr>tc_ibuf := b\<rparr>" and ?w = "set_conn i (c\<lparr>tc_ibuf := b\<rparr>) (w\<lparr>tw_pool := mp\<rparr>)"
    let ?wm = "?w\<lparr>tw_message_calls := (tw_message_calls w)(i := tw_message_calls w i @ [contents b mp])\<rparr>"
    note h = conn_read_ok[OF c(1,3) got(2,3,5,6,4)]
    have run: "conn_do_read ctl message (Some n) answers i w =
        (if n \<noteq> 0 \<and> bs \<noteq> [] \<and> int (length bs) \<noteq> n then Inl Assertion
         else if bs = [] then conn_do_close ctl i ?w else message i ?wm)"
      using got(1) i by (auto simp: conn_do_read_def get_conn_def set_conn_def)
    consider "n \<noteq> 0 \<and> bs \<noteq> [] \<and> int (length bs) \<noteq> n" | "bs = []" | "\<not> (n \<noteq> 0 \<and> bs \<noteq> [] \<and> int (length bs) \<noteq> n)" "bs \<noteq> []" by blast
    then show thesis
    proof cases
      case 1
      then have "length bs < nat n" using n(1) by (auto simp: bs_def)
      then show thesis using 1 run short by simp
    next
      case 2
      obtain w' where "conn_do_close ctl i ?w = Inr w'" "has_closed i out c w w'"
        using conn_read_closes[OF k c(1,3) got(2,5,6)] by blast
      then show thesis using run 2 closed[of w'] by simp
    next
      case 3
      then have "conn_do_read ctl message (Some n) answers i w = message i ?wm" using run by auto
      then show thesis using 3(2) h message by blast
    qed
  qed
qed

lemma conn_do_read_fails:
  assumes k: "epoll_kernel ctl" and c: "conn_ok i c w out" "aligned (tc_ibuf c) (tw_pool w)" "in_sync (tw_pollers w (tc_loop c))"
    and fail: "fionread = None \<or> (\<exists>n e. fionread = Some n \<and> n + int (length (contents (tc_ibuf c) (tw_pool w))) \<le> INT_MAX \<and>
      read_retry answers = Inr (Read_err e))"
  shows "no_memory (conn_do_read ctl message fionread answers i w) \<or>
     (\<exists>w'. conn_do_read ctl message fionread answers i w = Inr w' \<and> has_closed i out c w w')"
proof -
  have i: "tw_conns w i = Some c" and ib: "buf_ok (tc_ibuf c) (tw_pool w) out" using c(1) by (auto simp: conn_ok_def)
  consider "no_memory (read_from_fd fionread answers (tc_ibuf c) (tw_pool w))"
    | b mp where "read_from_fd fionread answers (tc_ibuf c) (tw_pool w) = Inr (- 1, b, mp)" "buf_ok b mp (swapped out (tc_ibuf c) b)"
        "others_same out (tc_ibuf c) (tw_pool w) mp" "fresh_for out (tc_ibuf c) b"
    using read_from_fd_fails[OF ib c(2) fail] by blast
  then show ?thesis
  proof cases
    case 1
    then show ?thesis using i by (auto simp: conn_do_read_def get_conn_def)
  next
    case 2
    then show ?thesis using i conn_read_closes[OF k c(1,3) 2(2-4)] by (simp add: conn_do_read_def get_conn_def)
  qed
qed

section \<open>Properties of a connection\<close>

text \<open>A connection on loop 0 with descriptor 9 and ``hi'' to send.\<close>

definition hi_conn :: tcp_conn where
  "hi_conn = \<lparr>tc_loop = 0, tc_fd = 9, tc_timer_id = 0, tc_obuf = Some 0, tc_ibuf = None, tc_connected_cb = True,
     tc_close_cb = True, tc_context = None\<rparr>"

definition hi_poller :: "tcp_cb epoll" where
  "hi_poller = \<lparr>ep_kernel = [9 \<mapsto> 5], ep_listen_fds = {9},
     ep_event_map = [9 \<mapsto> \<lparr>ev_event = 5, read_callback = Some (Do_read_cb 1), write_callback = Some (Do_write_cb 1)\<rparr>]\<rparr>"

definition hi_world :: tcp_world where
  "hi_world = \<lparr>tw_pool = hi_pool, tw_pollers = (\<lambda>_. hi_poller), tw_conns = [1 \<mapsto> hi_conn], tw_next = 2, tw_open_fds = {9}, tw_nonblock = {9},
     ts_tcp_connections = [1], ts_conn_loops = [0], ts_next_loop = 0, ts_timer = projr timer_new,
     ts_tcp_conn_timout_ms = 6000, ts_connected_cb = True, ts_close_cb = True, ts_msg_cb = True,
     tw_connected_calls = [], tw_close_calls = [], tw_message_calls = (\<lambda>_. []), tw_sent = (\<lambda>_. [])\<rparr>"

lemma hi_world_ok:
  "conn_ok 1 hi_conn hi_world {0}" "write_interest hi_conn hi_world" "contents (tc_obuf hi_conn) (tw_pool hi_world) = map Some ''hi''"
  "in_sync (tw_pollers hi_world (tc_loop hi_conn))"
proof -
  show s: "in_sync (tw_pollers hi_world (tc_loop hi_conn))" by (auto simp: in_sync_def hi_world_def hi_poller_def)
  show "conn_ok 1 hi_conn hi_world {0}" using hi_pool_ok(1,2) by (simp add: conn_ok_def hi_conn_def hi_world_def buf_ok_def)
  show h: "contents (tc_obuf hi_conn) (tw_pool hi_world) = map Some ''hi''"
    using hi_pool_ok(3) by (simp add: hi_conn_def hi_world_def)
  show "write_interest hi_conn hi_world"
    using s h by (simp add: write_interest_def hi_world_def hi_poller_def hi_conn_def)
qed

text \<open>
  C14. \<^verbatim>\<open>send\<close> queues the data behind what is pending and keeps the poller's watch right: the socket is
  watched for output exactly while bytes are pending. It refuses more than 4 MB pending and then
  changes nothing; otherwise the only other outcome is the exit for lack of memory.
\<close>

theorem conn_send_correct:
  assumes "epoll_kernel ctl" "ctl_accepts ctl" "conn_ok i c w out" "write_interest c w" "data \<noteq> []"
    and "int (length data) + int (length (contents (tc_obuf c) (tw_pool w))) \<le> INT_MAX"
  shows "no_memory (conn_send ctl i data (int (length data)) w) \<or>
     (conn_send ctl i data (int (length data)) w = Inr (False, w) \<and>
        4194304 < int (length data) + int (length (contents (tc_obuf c) (tw_pool w)))) \<or>
     (\<exists>c' w'. conn_send ctl i data (int (length data)) w = Inr (True, w') \<and>
        conn_ok i c' w' (swapped out (tc_obuf c) (tc_obuf c')) \<and> write_interest c' w' \<and>
        contents (tc_obuf c') (tw_pool w') = contents (tc_obuf c) (tw_pool w) @ map Some data)"
  using conn_send_cases[OF assms] by blast

theorem conn_send_correct_witness:
  "no_memory (conn_send (ctl_model 8) 1 ''!'' 1 hi_world) \<or>
   (\<exists>c' w'. conn_send (ctl_model 8) 1 ''!'' 1 hi_world = Inr (True, w') \<and>
      contents (tc_obuf c') (tw_pool w') = map Some ''hi!'' \<and> write_interest c' w')"
  using conn_send_correct[OF ctl_model_kernel[of 8] ctl_model_accepts hi_world_ok(1,2), of "''!''"] hi_world_ok(3) by auto

text \<open>
  C16. \<^verbatim>\<open>do_read\<close>, when the kernel reports \<open>n\<close> bytes ready and the read succeeds: the message callback is
  called with the bytes behind those already in the input buffer and everything else of the connection
  untouched; or nothing was read, or the buffer would exceed 4 MB, and the connection is closed; or the
  process ends, for lack of memory or in the assertion on a short read.
\<close>

theorem conn_do_read_correct:
  assumes "epoll_kernel ctl" "conn_ok i c w out" "aligned (tc_ibuf c) (tw_pool w)" "in_sync (tw_pollers w (tc_loop c))"
    and "0 \<le> n" "n + int (length (contents (tc_ibuf c) (tw_pool w))) \<le> INT_MAX" "n = 0 \<Longrightarrow> tc_ibuf c = None"
    and "read_retry answers = Inr (Read_ok ready)"
  shows "let bs = take (if n = 0 then 4096 else nat n) ready; r = conn_do_read ctl message (Some n) answers i w in
     no_memory r \<or> (r = Inl Assertion \<and> bs \<noteq> [] \<and> length bs < nat n) \<or>
     (\<exists>w'. r = Inr w' \<and> tw_conns w' i = Some (closed_conn c) \<and>
        (bs = [] \<or> 4194304 < n + int (length (contents (tc_ibuf c) (tw_pool w))))) \<or>
     (\<exists>c' w'. r = message i w' \<and> bs \<noteq> [] \<and> has_read i out c bs w c' w')"
  unfolding Let_def
  by (rule conn_do_read_cases[OF assms(1-6) _ assms(8), where message = message]) (use assms(7) in \<open>auto simp: has_closed_def\<close>)

theorem conn_do_read_correct_witness:
  "let r = conn_do_read (ctl_model 8) (\<lambda>_. Inr) (Some 2) [Read_ok ''ab''] 1 hi_world in
   no_memory r \<or> (\<exists>(c' :: tcp_conn) w'. r = Inr w' \<and> contents (tc_ibuf c') (tw_pool w') = map Some ''ab'')"
proof -
  have "tc_ibuf hi_conn = None" by (simp add: hi_conn_def)
  then have "aligned (tc_ibuf hi_conn) (tw_pool hi_world)" "contents (tc_ibuf hi_conn) (tw_pool hi_world) = []" by (simp_all add: aligned_def)
  then show ?thesis
    using conn_do_read_correct[OF ctl_model_kernel[of 8] hi_world_ok(1) _ hi_world_ok(4), of 2 "[Read_ok ''ab'']" "''ab''" "\<lambda>_. Inr"]
    by (auto simp: Let_def has_read_def)
qed

text \<open>
  C15. \<^verbatim>\<open>do_write\<close> returns, given as many answers as bytes pending. It offers the pending bytes again and again
  until none is left, or the socket takes none or would block (an interrupted write is retried): exactly the
  bytes taken are sent, from the front, the others are still pending, and output is watched afterwards
  exactly if there are any. The connection is closed exactly at any other error of a write.
\<close>

theorem conn_do_write_correct:
  assumes k: "epoll_kernel ctl" "ctl_accepts ctl" and c: "conn_ok i c w out" "write_interest c w"
    and answers: "\<forall>as \<in> set answers. \<exists>ans. write_retry as = Inr ans"
      "length (contents (tc_obuf c) (tw_pool w)) \<le> length answers"
  shows "case socket_takes answers (length (contents (tc_obuf c) (tw_pool w))) of (n, ok) \<Rightarrow>
     \<exists>w'. conn_do_write ctl answers i w = Inr w' \<and> tw_sent w' i = tw_sent w i @ take n (contents (tc_obuf c) (tw_pool w)) \<and>
       (if ok then conn_ok i c w' out \<and> contents (tc_obuf c) (tw_pool w') = drop n (contents (tc_obuf c) (tw_pool w)) \<and> write_interest c w'
        else tw_conns w' i = Some (closed_conn c))"
  using conn_do_write_takes[OF assms] by (auto split: prod.splits if_splits)

theorem conn_do_write_correct_witness:
  "(\<exists>w'. conn_do_write (ctl_model 8) [[Write_err EINTR, Write_ok 1], [Write_err EAGAIN]] 1 hi_world = Inr w' \<and>
      tw_sent w' 1 = map Some ''h'' \<and> contents (tc_obuf hi_conn) (tw_pool w') = map Some ''i'' \<and> write_interest hi_conn w') \<and>
   (\<exists>w'. conn_do_write (ctl_model 8) [[Write_ok 1], [Write_err 32]] 1 hi_world = Inr w' \<and>
      tw_sent w' 1 = map Some ''h'' \<and> tw_conns w' 1 = Some (closed_conn hi_conn))"
proof -
  have f: "tw_sent hi_world 1 = []" by (simp add: hi_world_def)
  note do_write = conn_do_write_correct[OF ctl_model_kernel[of 8] ctl_model_accepts hi_world_ok(1,2), unfolded hi_world_ok(3) f]
  show ?thesis
    using do_write[of "[[Write_err EINTR, Write_ok 1], [Write_err EAGAIN]]"] do_write[of "[[Write_ok 1], [Write_err 32]]"]
    by (auto simp: numeral_2_eq_2)
qed

text \<open>
  C17. Closing gives both buffers back to the pool, takes the descriptor out of the poller and closes
  it, and removes one entry from the server's list. It does not cancel the connection's timer, and it
  does not remember that the connection is closed: when the timer fires later, or anybody closes
  again, the close callback is called once more.
\<close>

theorem conn_close_releases:
  assumes k: "epoll_kernel ctl" and c: "conn_ok i c w out" "in_sync (tw_pollers w (tc_loop c))" "tc_close_cb c"
  shows "\<exists>w1 w2. conn_do_close ctl i w = Inr w1 \<and> pool_owns (tw_pool w1) (out - set_option (tc_ibuf c) - set_option (tc_obuf c)) \<and>
     ep_kernel (tw_pollers w1 (tc_loop c)) (tc_fd c) = None \<and> tc_fd c \<notin> tw_open_fds w1 \<and>
     ts_tcp_connections w1 = remove1 i (ts_tcp_connections w) \<and> ts_timer w1 = ts_timer w \<and>
     conn_do_close ctl i w1 = Inr w2 \<and> tw_close_calls w2 = tw_close_calls w @ [i, i]"
proof -
  obtain w1 where w1: "conn_do_close ctl i w = Inr w1"
      "pool_owns (tw_pool w1) (out - set_option (tc_ibuf c) - set_option (tc_obuf c))"
      "tw_conns w1 i = Some (closed_conn c)"
      "in_sync (tw_pollers w1 (tc_loop c))" "ep_kernel (tw_pollers w1 (tc_loop c)) (tc_fd c) = None"
      "tw_open_fds w1 = tw_open_fds w - {tc_fd c}" "ts_tcp_connections w1 = remove1 i (ts_tcp_connections w)"
      "ts_timer w1 = ts_timer w" "tw_close_calls w1 = tw_close_calls w @ [i]"
    using conn_do_close_ok[OF k c(1,2)] c(3) by auto
  let ?c = "closed_conn c"
  have "conn_ok i ?c w1 (out - set_option (tc_ibuf c) - set_option (tc_obuf c))"
    using w1(2,3) by (simp add: conn_ok_def buf_ok_def aligned_def closed_conn_def)
  moreover have "tc_loop ?c = tc_loop c" "tc_close_cb ?c" using c(3) by (simp_all add: closed_conn_def)
  ultimately obtain w2 where "conn_do_close ctl i w1 = Inr w2" "tw_close_calls w2 = tw_close_calls w1 @ [i]"
    using conn_do_close_ok[OF k, of i ?c w1] w1(4) c(3) by auto
  then show ?thesis using w1 by auto
qed

theorem conn_close_releases_witness:
  "\<exists>w1 w2. conn_do_close (ctl_model 8) 1 hi_world = Inr w1 \<and> pool_owns (tw_pool w1) {} \<and> 9 \<notin> tw_open_fds w1 \<and>
     conn_do_close (ctl_model 8) 1 w1 = Inr w2 \<and> tw_close_calls w2 = [1, 1]"
proof -
  have f: "tc_close_cb hi_conn" "tc_fd hi_conn = 9" "tc_ibuf hi_conn = None" "tc_obuf hi_conn = Some 0" "tw_close_calls hi_world = []"
    by (simp_all add: hi_conn_def hi_world_def)
  show ?thesis
    using conn_close_releases[OF ctl_model_kernel[of 8] hi_world_ok(1,4) f(1)] unfolding f by auto
qed

text \<open>
  Nothing orders \<^verbatim>\<open>do_close\<close> from a thread of the timer against the callbacks of the connection's loop, and \<^verbatim>\<open>send\<close>
  does not ask whether the connection is closed. So when the timer closes a connection while its message
  callback runs, between taking the message out of the input buffer and answering it, the answer is put into
  the output buffer of the closed connection, which then holds a chunk, and \<^verbatim>\<open>send\<close> returns true.
\<close>

theorem send_after_close:
  assumes k: "epoll_kernel ctl" and c: "conn_ok i c w out" "in_sync (tw_pollers w (tc_loop c))" and data: "data \<noteq> []" "length data \<le> 4194304"
  shows "\<exists>w1. conn_do_close ctl i w = Inr w1 \<and>
     (no_memory (conn_send ctl i data (int (length data)) w1) \<or>
      (\<exists>w2 c'. conn_send ctl i data (int (length data)) w1 = Inr (True, w2) \<and> tw_conns w2 i = Some c' \<and> tc_fd c' = - 1 \<and>
         bufs c' \<noteq> {} \<and> contents (tc_obuf c') (tw_pool w2) = map Some data))"
proof -
  obtain w1 where w1: "conn_do_close ctl i w = Inr w1" "pool_owns (tw_pool w1) (out - set_option (tc_ibuf c) - set_option (tc_obuf c))"
      "tw_conns w1 i = Some (closed_conn c)"
    using conn_do_close_ok[OF k c] by (elim exE conjE) (rule that)
  let ?out = "out - set_option (tc_ibuf c) - set_option (tc_obuf c)" and ?put = "write2buf data (int (length data)) None (tw_pool w1)"
  have "buf_ok None (tw_pool w1) ?out" "aligned None (tw_pool w1)" using w1(2) by (simp_all add: buf_ok_def aligned_def)
  then consider "no_memory ?put" | b mp where "?put = Inr (0, b, mp)" "contents b mp = map Some data"
    using write2buf_cases[of None "tw_pool w1" ?out data] data(2) by auto
  then show ?thesis
  proof cases
    case 1
    then show ?thesis using w1 by (auto simp: conn_send_def get_conn_def closed_conn_def buf_length_def)
  next
    case 2
    have "b \<noteq> None" using 2(2) data(1) by (cases b) auto
    then show ?thesis using w1(1,3) 2
      by (auto simp: conn_send_def get_conn_def set_conn_def closed_conn_def buf_length_def add_to_poller_def on_poller_def bufs_def)
  qed
qed

theorem send_after_close_witness:
  "\<exists>w1. conn_do_close (ctl_model 8) 1 hi_world = Inr w1 \<and>
     (no_memory (conn_send (ctl_model 8) 1 ''!'' 1 w1) \<or>
      (\<exists>w2 c'. conn_send (ctl_model 8) 1 ''!'' 1 w1 = Inr (True, w2) \<and> tw_conns w2 1 = Some c' \<and> tc_fd c' = - 1 \<and> bufs c' \<noteq> {}))"
  using send_after_close[OF ctl_model_kernel[of 8] hi_world_ok(1,4), of "''!''"] by auto

end
