(* ===== verification/Event_Loop.thy ===== *)
theory Event_Loop
  imports Epoll
begin

text \<open>
  The event loop (src/net/event_loop.h, event_loop.cpp): one thread polls and then runs the queued
  tasks; other threads queue tasks under a mutex and wake the poller through an eventfd. The
  interleavings of the loop thread and the callers are a step relation; the lemmas show that tasks
  run in order, each once, that no queued task waits without a wake-up, and when \<^verbatim>\<open>quit\<close> is missed.
\<close>

section \<open>The loop and its callers\<close>

text \<open>
  Where the loop thread is: not in \<^verbatim>\<open>loop\<close>; testing \<^verbatim>\<open>el_quit\<close>; in \<^verbatim>\<open>poll\<close>; between \<^verbatim>\<open>poll\<close> and the swap of
  the task vector; running the swapped tasks; returned.
\<close>

datatype 't loop_pc = L_out | L_test | L_poll | L_polled | L_run "'t list" | L_returned

text \<open>The callbacks of the loop's poller: the one the constructor registers, and those of connections and
  acceptors, which this theory does not look into.\<close>

datatype loop_cb = Evfd_read | Other_cb nat

record 't event_loop =
  el_epoller :: "loop_cb epoll"
  el_evfd_no :: int             \<comment> \<open>the descriptor of the eventfd\<close>
  el_quit :: bool
  el_tid :: nat                 \<comment> \<open>the thread that constructed the object\<close>
  el_evfd :: nat                \<comment> \<open>the counter of the eventfd\<close>
  el_task_funcs :: "'t list"
  el_dealing_task_funcs :: bool
  el_pc :: "'t loop_pc"
  el_waking :: nat              \<comment> \<open>callers between queueing a task and \<^verbatim>\<open>evfd_wakeup\<close>\<close>
  el_queued :: "'t list"        \<comment> \<open>ghost: the tasks queued so far\<close>
  el_done :: "'t list"          \<comment> \<open>ghost: the queued tasks that ran\<close>
  el_inline :: "(nat \<times> 't) list" \<comment> \<open>ghost: the tasks \<^verbatim>\<open>add_task\<close> ran itself, and in which thread\<close>

text \<open>The constructor: the poller is made first; a failing \<^verbatim>\<open>eventfd\<close> ends the process; the eventfd is
  watched for input.\<close>

definition loop_poller :: "epoll_ctl \<Rightarrow> 'cb \<Rightarrow> int \<Rightarrow> int \<Rightarrow> 'cb epoll result" where
  "loop_poller ctl read_cb epoll_fd evfd =
     rbind (epoll_new epoll_fd) (\<lambda>ep.
     if evfd < 0 then Inl (Exit 1) else Inr (epoll_add ctl evfd EPOLLIN read_cb ep))"

definition event_loop_new :: "epoll_ctl \<Rightarrow> nat \<Rightarrow> int \<Rightarrow> int \<Rightarrow> 't event_loop result" where
  "event_loop_new ctl self epoll_fd evfd =
     rbind (loop_poller ctl Evfd_read epoll_fd evfd) (\<lambda>ep.
     Inr \<lparr>el_epoller = ep, el_evfd_no = evfd,
          el_quit = False, el_tid = self, el_evfd = 0, el_task_funcs = [], el_dealing_task_funcs = False,
          el_pc = L_out, el_waking = 0, el_queued = [], el_done = [], el_inline = []\<rparr>)"

text \<open>\<^verbatim>\<open>add_to_poller\<close> and \<^verbatim>\<open>del_from_poller\<close> for other descriptors.\<close>

definition el_add_to_poller :: "epoll_ctl \<Rightarrow> int \<Rightarrow> 32 word \<Rightarrow> loop_cb \<Rightarrow> 't event_loop \<Rightarrow> 't event_loop" where
  "el_add_to_poller ctl fd event cb el = el\<lparr>el_epoller := epoll_add ctl fd event cb (el_epoller el)\<rparr>"

definition el_del_from_poller :: "epoll_ctl \<Rightarrow> int \<Rightarrow> 't event_loop \<Rightarrow> 't event_loop" where
  "el_del_from_poller ctl fd el = el\<lparr>el_epoller := epoll_del ctl fd (el_epoller el)\<rparr>"

definition is_in_loop_thread :: "nat \<Rightarrow> 't event_loop \<Rightarrow> bool" where
  "is_in_loop_thread self el \<longleftrightarrow> el_tid el = self"

definition evfd_wakeup :: "'t event_loop \<Rightarrow> 't event_loop" where
  "evfd_wakeup el = el\<lparr>el_evfd := el_evfd el + 1\<rparr>"

text \<open>Reading the eventfd takes its whole value.\<close>

definition evfd_read :: "'t event_loop \<Rightarrow> 't event_loop" where
  "evfd_read el = el\<lparr>el_evfd := 0\<rparr>"

text \<open>\<^verbatim>\<open>add_task\<close>: the test decides between running the task and queueing it; then the wake-up.\<close>

definition add_task_body :: "nat \<Rightarrow> 't \<Rightarrow> 't event_loop \<Rightarrow> 't event_loop" where
  "add_task_body self cb el =
     (if is_in_loop_thread self el then
        (let el = el\<lparr>el_inline := el_inline el @ [(self, cb)]\<rparr> in
         if el_dealing_task_funcs el then evfd_wakeup el else el)
      else el\<lparr>el_task_funcs := el_task_funcs el @ [cb], el_queued := el_queued el @ [cb], el_waking := el_waking el + 1\<rparr>)"

definition add_task_wakeup :: "'t event_loop \<Rightarrow> 't event_loop" where
  "add_task_wakeup el = evfd_wakeup (el\<lparr>el_waking := el_waking el - 1\<rparr>)"

definition loop_begin :: "'t event_loop \<Rightarrow> 't event_loop" where
  "loop_begin el = el\<lparr>el_quit := False, el_pc := L_test\<rparr>"

definition loop_test :: "'t event_loop \<Rightarrow> 't event_loop" where
  "loop_test el = el\<lparr>el_pc := (if el_quit el then L_returned else L_poll)\<rparr>"

text \<open>The call of \<^verbatim>\<open>poll\<close>, given the answers of \<^verbatim>\<open>epoll_wait\<close>: the callback of the eventfd reads it, the
  others leave the loop object alone (what they do to it is a step of its own).\<close>

definition run_loop_cb :: "loop_cb \<Rightarrow> 't event_loop \<Rightarrow> 't event_loop result" where
  "run_loop_cb cb el = Inr (case cb of Evfd_read \<Rightarrow> evfd_read el | Other_cb _ \<Rightarrow> el)"

definition loop_polled :: "epoll_ctl \<Rightarrow> (int \<times> 32 word) list option list \<Rightarrow> 't event_loop \<Rightarrow> 't event_loop result" where
  "loop_polled ctl ws el =
     rbind (poll ctl run_loop_cb el_epoller (\<lambda>ep el. el\<lparr>el_epoller := ep\<rparr>) ws el) (\<lambda>(cnt, el).
     Inr (el\<lparr>el_pc := L_polled\<rparr>))"

definition tasks_swap :: "'t event_loop \<Rightarrow> 't event_loop" where
  "tasks_swap el = el\<lparr>el_dealing_task_funcs := True, el_task_funcs := [], el_pc := L_run (el_task_funcs el)\<rparr>"

fun tasks_run :: "'t list \<Rightarrow> 't event_loop \<Rightarrow> 't event_loop" where
  "tasks_run [] el = el\<lparr>el_dealing_task_funcs := False, el_pc := L_test\<rparr>"
| "tasks_run (t # ts) el = el\<lparr>el_done := el_done el @ [t], el_pc := L_run ts\<rparr>"

definition loop_quit :: "nat \<Rightarrow> 't event_loop \<Rightarrow> 't event_loop" where
  "loop_quit self el = (let el = el\<lparr>el_quit := True\<rparr> in if \<not> is_in_loop_thread self el then evfd_wakeup el else el)"

inductive el_step :: "epoll_ctl \<Rightarrow> 't event_loop \<Rightarrow> 't event_loop \<Rightarrow> bool" for ctl where
  el_add: "el_step ctl el (add_task_body self cb el)"
| el_wakeup: "0 < el_waking el \<Longrightarrow> el_step ctl el (add_task_wakeup el)"
| el_quits: "el_step ctl el (loop_quit self el)"
| el_begin: "el_pc el = L_out \<Longrightarrow> el_step ctl el (loop_begin el)"
| el_test: "el_pc el = L_test \<Longrightarrow> el_step ctl el (loop_test el)"
| el_poll: "el_pc el = L_poll \<Longrightarrow> loop_polled ctl ws el = Inr el' \<Longrightarrow> el_step ctl el el'"
| el_register: "fd \<noteq> el_evfd_no el \<Longrightarrow> el_step ctl el (el_add_to_poller ctl fd event (Other_cb n) el)"
| el_unregister: "fd \<noteq> el_evfd_no el \<Longrightarrow> el_step ctl el (el_del_from_poller ctl fd el)"
| el_swap: "el_pc el = L_polled \<Longrightarrow> el_step ctl el (tasks_swap el)"
| el_run: "el_pc el = L_run ts \<Longrightarrow> el_step ctl el (tasks_run ts el)"

inductive_cases el_stepE: "el_step ctl el el'"

definition el_start :: "epoll_ctl \<Rightarrow> 't event_loop \<Rightarrow> bool" where
  "el_start ctl el \<longleftrightarrow> (\<exists>self epoll_fd evfd. event_loop_new ctl self epoll_fd evfd = Inr el)"

section \<open>The invariant\<close>

definition running_tasks :: "'t loop_pc \<Rightarrow> 't list" where
  "running_tasks pc = (case pc of L_run ts \<Rightarrow> ts | _ \<Rightarrow> [])"

lemma running_tasks_simps [simp]:
  "running_tasks L_out = []" "running_tasks L_test = []" "running_tasks L_poll = []" "running_tasks L_polled = []"
  "running_tasks (L_run ts) = ts" "running_tasks L_returned = []"
  by (simp_all add: running_tasks_def)

text \<open>The eventfd stays in the poller's map, with the callback that reads it.\<close>

definition evfd_watched :: "'t event_loop \<Rightarrow> bool" where
  "evfd_watched el \<longleftrightarrow> (\<exists>e. ep_event_map (el_epoller el) (el_evfd_no el) = Some e \<and> read_callback e = Some Evfd_read)"

definition el_inv :: "'t event_loop \<Rightarrow> bool" where
  "el_inv el \<longleftrightarrow> el_queued el = el_done el @ running_tasks (el_pc el) @ el_task_funcs el \<and>
     (el_task_funcs el \<noteq> [] \<longrightarrow> 0 < el_waking el \<or> 0 < el_evfd el \<or> el_pc el = L_polled) \<and>
     (\<forall>(t, cb) \<in> set (el_inline el). t = el_tid el) \<and> evfd_watched el"

lemmas el_ops = add_task_body_def add_task_wakeup_def loop_quit_def loop_begin_def loop_test_def
  tasks_swap_def evfd_wakeup_def evfd_read_def is_in_loop_thread_def el_add_to_poller_def el_del_from_poller_def Let_def

text \<open>A poll changes the eventfd and the poller's map only, and it keeps the watch on the eventfd.\<close>

definition polled_from :: "'t event_loop \<Rightarrow> 't event_loop \<Rightarrow> bool" where
  "polled_from el el' \<longleftrightarrow> el' = el\<lparr>el_epoller := el_epoller el', el_evfd := el_evfd el'\<rparr> \<and> (evfd_watched el \<longrightarrow> evfd_watched el')"

lemma polled_fromI:
  "el' = el\<lparr>el_epoller := ep, el_evfd := n\<rparr> \<Longrightarrow> (evfd_watched el \<Longrightarrow> evfd_watched el') \<Longrightarrow> polled_from el el'"
  by (simp add: polled_from_def)

lemma polled_from_refl: "polled_from el el"
  by (simp add: polled_from_def)

lemma polled_from_trans: "polled_from el el1 \<Longrightarrow> polled_from el1 el2 \<Longrightarrow> polled_from el el2"
  by (cases el1, cases el2, cases el) (auto simp: polled_from_def)

lemma polled_from_run:
  assumes "polled_from el el1" "run_loop_cb cb el1 = Inr el2"
  shows "polled_from el el2"
proof -
  have "polled_from el1 el2"
    using assms(2) by (cases cb) (auto simp: run_loop_cb_def polled_from_refl evfd_read_def evfd_watched_def intro!: polled_fromI[where ep = "el_epoller el1"])
  then show ?thesis by (rule polled_from_trans[OF assms(1)])
qed

lemma polled_from_del:
  assumes "polled_from el el1" "ep_event_map (el_epoller el1) fd = Some e" "read_callback e = None"
  shows "polled_from el (el1\<lparr>el_epoller := epoll_del ctl fd (el_epoller el1)\<rparr>)"
proof -
  have "polled_from el1 (el1\<lparr>el_epoller := epoll_del ctl fd (el_epoller el1)\<rparr>)"
    using assms(2,3) by (intro polled_fromI[where n = "el_evfd el1"]) (auto simp: evfd_watched_def epoll_del_def Let_def)
  then show ?thesis by (rule polled_from_trans[OF assms(1)])
qed

lemma loop_polled_frame:
  assumes "loop_polled ctl ws el = Inr el'"
  obtains ep n where "el' = el\<lparr>el_epoller := ep, el_evfd := n, el_pc := L_polled\<rparr>" "evfd_watched el \<longrightarrow> evfd_watched el'"
proof -
  obtain cnt el1 where el1: "poll ctl run_loop_cb el_epoller (\<lambda>ep el. el\<lparr>el_epoller := ep\<rparr>) ws el = Inr (cnt, el1)"
      "el' = el1\<lparr>el_pc := L_polled\<rparr>"
    using assms by (auto simp: loop_polled_def result_iff)
  have "polled_from el el1"
    by (rule poll_keeps[where P = "polled_from el", OF _ _ polled_from_refl el1(1)])
      (blast intro: polled_from_run polled_from_del)+
  then have "el1 = el\<lparr>el_epoller := el_epoller el1, el_evfd := el_evfd el1\<rparr>" "evfd_watched el \<longrightarrow> evfd_watched el1"
    by (simp_all add: polled_from_def)
  then show ?thesis using el1(2) by (intro that[of "el_evfd el1" "el_epoller el1"]) (auto simp: evfd_watched_def)
qed

lemma epoll_add_other: "fd' \<noteq> fd \<Longrightarrow> ep_event_map (epoll_add ctl fd event cb ep) fd' = ep_event_map ep fd'"
  by (simp add: epoll_add_def Let_def split: prod.splits bool.splits)

lemma epoll_del_other: "fd' \<noteq> fd \<Longrightarrow> ep_event_map (epoll_del ctl fd ep) fd' = ep_event_map ep fd'"
  by (simp add: epoll_del_def Let_def)

lemma evfd_watched_new: "event_loop_new ctl self epoll_fd evfd = Inr el \<Longrightarrow> evfd_watched el"
  by (cases "ctl EPOLL_CTL_ADD evfd EPOLLIN Map.empty"; cases "fst (ctl EPOLL_CTL_ADD evfd EPOLLIN Map.empty)")
    (auto simp: event_loop_new_def loop_poller_def epoll_new_def evfd_watched_def result_iff epoll_add_def final_events_def Let_def split: if_splits)

text \<open>Once the tasks are swapped out, the loop thread runs them one by one.\<close>

lemma tasks_run_all:
  assumes "el_pc el = L_run ts"
  shows "\<exists>el'. (el_step ctl)\<^sup>*\<^sup>* el el' \<and> el' = el\<lparr>el_done := el_done el @ ts, el_dealing_task_funcs := False, el_pc := L_test\<rparr>"
  using assms
proof (induction ts arbitrary: el)
  case Nil
  then have "el_step ctl el (tasks_run [] el)" by (rule el_run)
  then show ?case by (auto intro!: r_into_rtranclp)
next
  case (Cons t ts)
  have "el_step ctl el (tasks_run (t # ts) el)" using Cons.prems by (rule el_run)
  moreover obtain el' where "(el_step ctl)\<^sup>*\<^sup>* (tasks_run (t # ts) el) el'" "el' = (tasks_run (t # ts) el)\<lparr>el_done :=
      el_done (tasks_run (t # ts) el) @ ts, el_dealing_task_funcs := False, el_pc := L_test\<rparr>"
    using Cons.IH[of "tasks_run (t # ts) el"] by auto
  ultimately show ?case by (auto intro: converse_rtranclp_into_rtranclp)
qed

text \<open>When the batch holds the eventfd's event and the eventfd is watched, the poll drains it.\<close>

lemma loop_polled_drains:
  assumes "evfd_watched el"
  shows "loop_polled ctl [Some [(el_evfd_no el, EPOLLIN)]] el = Inr (el\<lparr>el_evfd := 0, el_pc := L_polled\<rparr>)"
  using assms by (auto simp: evfd_watched_def loop_polled_def choose_cb_def run_loop_cb_def evfd_read_def)

interpretation el: step_system "el_start ctl" "el_step ctl" el_inv for ctl
proof
  fix el :: "'t event_loop"
  assume "el_start ctl el"
  then obtain self epoll_fd evfd where new: "event_loop_new ctl self epoll_fd evfd = Inr el" by (auto simp: el_start_def)
  then show "el_inv el" using evfd_watched_new[OF new]
    by (auto simp: event_loop_new_def loop_poller_def el_inv_def result_iff split: if_splits)
next
  fix el el' :: "'t event_loop"
  assume inv: "el_inv el" and "el_step ctl el el'"
  from this(2) show "el_inv el'"
  proof cases
    case (el_run ts)
    then show ?thesis using inv by (cases ts) (auto simp: el_inv_def evfd_watched_def)
  next
    case (el_poll ws)
    show ?thesis by (rule loop_polled_frame[OF el_poll(2)]) (use inv el_poll(1) in \<open>auto simp: el_inv_def\<close>)
  qed (use inv in \<open>auto simp: el_inv_def el_ops evfd_watched_def epoll_add_other epoll_del_other\<close>)
qed

section \<open>Properties of the event loop\<close>

definition loop_zero :: "nat event_loop" where
  "loop_zero = projr (event_loop_new (ctl_model 8) 0 3 4)"

abbreviation "reach_el ctl \<equiv> reach (el_start ctl) (el_step ctl)"

lemma loop_zero_new: "event_loop_new (ctl_model 8) 0 3 4 = Inr loop_zero"
  by (simp add: loop_zero_def event_loop_new_def loop_poller_def epoll_new_def)

lemma loop_zero_fields:
  "el_pc loop_zero = L_out" "el_tid loop_zero = 0" "el_queued loop_zero = []" "el_inline loop_zero = []" "el_evfd loop_zero = 0"
  "el_waking loop_zero = 0" "el_dealing_task_funcs loop_zero = False" "el_task_funcs loop_zero = []"
  by (simp_all add: loop_zero_def event_loop_new_def loop_poller_def epoll_new_def)

lemma reach_loop_zero: "reach_el (ctl_model 8) loop_zero"
  using loop_zero_new by (intro reach_start) (auto simp: el_start_def)

text \<open>The state after thread 1 queued task 7 while the loop thread polls.\<close>

definition loop_one :: "nat event_loop" where
  "loop_one = add_task_wakeup (add_task_body 1 7 (loop_test (loop_begin loop_zero)))"

lemma reach_loop_polling: "reach_el (ctl_model 8) (loop_test (loop_begin loop_zero))"
  by (rule reach_step[OF reach_step[OF reach_loop_zero el_begin] el_test]) (simp_all add: loop_zero_fields loop_begin_def)

lemma reach_loop_one: "reach_el (ctl_model 8) loop_one"
  unfolding loop_one_def
  by (rule reach_step[OF reach_step[OF reach_loop_polling el_add] el_wakeup]) (simp add: el_ops loop_zero_fields)

lemma loop_one_fields: "el_pc loop_one = L_poll" "el_queued loop_one = [7]" "el_evfd loop_one = 1"
  by (simp_all add: loop_one_def el_ops loop_zero_fields)

text \<open>
  C21. Tasks queued from other threads run in the order they were queued, each exactly once: in every
  interleaving the queued tasks are those that ran, those being run and those waiting, in order. And
  whenever a task waits, a wake-up is on its way, is in the eventfd, or the loop thread is about
  to take the queue: no task waits for an unrelated event.
\<close>

theorem event_loop_tasks:
  assumes "reach (el_start ctl) (el_step ctl) el"
  shows "el_queued el = el_done el @ running_tasks (el_pc el) @ el_task_funcs el \<and>
     (el_task_funcs el = [] \<or> 0 < el_waking el \<or> 0 < el_evfd el \<or> el_pc el = L_polled)"
  using el.reach_inv[OF assms] by (auto simp: el_inv_def)

theorem event_loop_tasks_witness:
  "reach (el_start (ctl_model 8)) (el_step (ctl_model 8)) loop_one \<and> el_queued loop_one = [7] \<and>
   el_done loop_one @ running_tasks (el_pc loop_one) @ el_task_funcs loop_one = [7]"
  using event_loop_tasks[OF reach_loop_one] reach_loop_one by (simp add: loop_one_fields)

text \<open>
  C22. The wake-up works: when the loop thread is in \<^verbatim>\<open>poll\<close> and the kernel reports the eventfd, the poll
  empties the eventfd and the loop then runs every task queued by then, in order, and is back at its
  test.
\<close>

theorem event_loop_serves:
  assumes "reach (el_start ctl) (el_step ctl) el" "el_pc el = L_poll"
  shows "\<exists>el1 el'. loop_polled ctl [Some [(el_evfd_no el, EPOLLIN)]] el = Inr el1 \<and> el_evfd el1 = 0 \<and>
     (el_step ctl)\<^sup>*\<^sup>* (tasks_swap el1) el' \<and> el_done el' = el_queued el \<and> el_task_funcs el' = [] \<and>
     el_pc el' = L_test \<and> \<not> el_dealing_task_funcs el'"
proof -
  have inv: "el_inv el" by (rule el.reach_inv[OF assms(1)])
  let ?el1 = "el\<lparr>el_evfd := 0, el_pc := L_polled\<rparr>"
  have p: "loop_polled ctl [Some [(el_evfd_no el, EPOLLIN)]] el = Inr ?el1"
    using inv by (intro loop_polled_drains) (simp add: el_inv_def)
  let ?el2 = "tasks_swap ?el1"
  obtain el' where "(el_step ctl)\<^sup>*\<^sup>* ?el2 el'" "el' = ?el2\<lparr>el_done := el_done el @ el_task_funcs el,
      el_dealing_task_funcs := False, el_pc := L_test\<rparr>"
    using tasks_run_all[of ?el2 "el_task_funcs el" ctl] by (simp add: tasks_swap_def)
  then show ?thesis using p inv assms(2) by (auto simp: el_inv_def tasks_swap_def)
qed

theorem event_loop_serves_witness:
  "\<exists>el1 el'. loop_polled (ctl_model 8) [Some [(el_evfd_no loop_one, EPOLLIN)]] loop_one = Inr el1 \<and> el_evfd el1 = 0 \<and>
     (el_step (ctl_model 8))\<^sup>*\<^sup>* (tasks_swap el1) el' \<and> el_done el' = [7]"
  using event_loop_serves[OF reach_loop_one] by (auto simp: loop_one_fields)

text \<open>
  \<^verbatim>\<open>quit\<close> can be missed. Called by the thread that constructed the loop, which need not be the one
  that runs it (the server constructs the loops of its workers), it does not wake the poller; and
  called before the loop has begun, it is undone by \<^verbatim>\<open>loop\<close>, which clears the flag.
\<close>

theorem event_loop_quit_missed:
  "(\<exists>el :: nat event_loop. reach (el_start (ctl_model 8)) (el_step (ctl_model 8)) el \<and> el_quit el \<and> el_pc el = L_poll \<and>
     el_evfd el = 0 \<and> el_waking el = 0) \<and> el_quit (loop_begin (loop_quit self el0)) = False"
proof -
  let ?b = "loop_test (loop_begin loop_zero)"
  have "reach_el (ctl_model 8) (loop_quit 0 ?b)" by (rule reach_step[OF reach_loop_polling el_quits])
  moreover have "el_quit (loop_quit 0 ?b)" "el_pc (loop_quit 0 ?b) = L_poll" "el_evfd (loop_quit 0 ?b) = 0"
    "el_waking (loop_quit 0 ?b) = 0"
    by (simp_all add: el_ops loop_zero_fields)
  ultimately show ?thesis by (auto simp: loop_begin_def)
qed

text \<open>
  A task that the constructing thread adds runs inside \<^verbatim>\<open>add_task\<close>, in that thread, whichever thread
  runs the loop: nothing is queued.
\<close>

theorem event_loop_inline:
  assumes "reach (el_start ctl) (el_step ctl) el"
  shows "(\<forall>(t, cb) \<in> set (el_inline el). t = el_tid el) \<and>
     el_inline (add_task_body (el_tid el) cb el) = el_inline el @ [(el_tid el, cb)] \<and>
     el_task_funcs (add_task_body (el_tid el) cb el) = el_task_funcs el"
  using el.reach_inv[OF assms] by (auto simp: el_inv_def el_ops)

theorem event_loop_inline_witness: "el_inline (add_task_body 0 7 loop_zero) = [(0, 7)]"
  using event_loop_inline[OF reach_loop_zero, of 7] by (simp add: loop_zero_fields)

end
