(* ===== verification/Tcp_Server.thy ===== *)
theory Tcp_Server
  imports Tcp_Conn Event_Loop
begin

unbundle bit_operations_syntax

text \<open>
  The server and the acceptor (src/net/tcp_server.h, tcp_server.cpp, acceptor.h, acceptor.cpp): the
  choice of a loop for a new connection, the idle timer of a connection, and the accept loop. The
  acceptor runs in the thread that constructs the worker loops, as in the example servers, so
  \<^verbatim>\<open>add_task\<close> runs the connected callback at once (see \<open>add_task_body\<close>).
\<close>

section \<open>The server\<close>

text \<open>The members that only \<^verbatim>\<open>start\<close> and the acceptor use; \<^verbatim>\<open>ts_started\<close> has no initialiser. A task of the
  thread pool is named by the turn of the loop in \<^verbatim>\<open>start\<close> that posted it.\<close>

record tcp_server = tcp_world +
  ts_started :: "bool option"
  ts_thread_num :: int
  ts_thread_pool :: "nat threadpool option"
  ts_acceptor_loop :: nat
  ts_loops_made :: nat          \<comment> \<open>the next unused name of a loop\<close>
  ac_listen_fd :: int
  ac_idle_fd :: int
  ac_listening :: bool
  ts_running :: "nat list"       \<comment> \<open>the loops that threads of the pool run\<close>

definition set_thread_num :: "int \<Rightarrow> 'a tcp_server_scheme \<Rightarrow> 'a tcp_server_scheme" where
  "set_thread_num t_num w = w\<lparr>ts_thread_num := t_num\<rparr>"

definition set_tcp_conn_timeout_ms :: "int \<Rightarrow> 'a tcp_world_scheme \<Rightarrow> 'a tcp_world_scheme" where
  "set_tcp_conn_timeout_ms ms w = w\<lparr>ts_tcp_conn_timout_ms := ms\<rparr>"

text \<open>Of a callback the state records whether it is set.\<close>

definition set_connected_cb :: "bool \<Rightarrow> 'a tcp_world_scheme \<Rightarrow> 'a tcp_world_scheme" where
  "set_connected_cb cb w = w\<lparr>ts_connected_cb := cb\<rparr>"

definition set_close_cb :: "bool \<Rightarrow> 'a tcp_world_scheme \<Rightarrow> 'a tcp_world_scheme" where
  "set_close_cb cb w = w\<lparr>ts_close_cb := cb\<rparr>"

text \<open>\<^verbatim>\<open>ts_next_loop\<close> starts at -1 and is set by this function only, so what is divided is never negative, and \<^verbatim>\<open>%\<close>
  is \<^verbatim>\<open>mod\<close>.\<close>

definition get_next_loop :: "'a tcp_world_scheme \<Rightarrow> nat option \<times> 'a tcp_world_scheme" where
  "get_next_loop w =
     (let sz = int (length (ts_conn_loops w)) in
      if sz = 0 then (None, w)
      else let n = (ts_next_loop w + 1) mod sz in (Some (ts_conn_loops w ! nat n), w\<lparr>ts_next_loop := n\<rparr>))"

definition add_new_tcp_conn :: "int \<Rightarrow> nat \<Rightarrow> 'a tcp_world_scheme \<Rightarrow> 'a tcp_world_scheme result" where
  "add_new_tcp_conn now i w =
     (case run_after now (ts_tcp_conn_timout_ms w) False i (ts_timer w) of (timer_id, tm) \<Rightarrow>
      rbind (set_timer_id timer_id i (w\<lparr>ts_timer := tm\<rparr>)) (\<lambda>w.
      Inr (w\<lparr>ts_tcp_connections := ts_tcp_connections w @ [i]\<rparr>)))"

definition update_conn_timeout_time :: "int \<Rightarrow> nat \<Rightarrow> 'a tcp_world_scheme \<Rightarrow> 'a tcp_world_scheme result" where
  "update_conn_timeout_time now i w =
     rbind (get_timer_id i w) (\<lambda>timer_id.
     add_new_tcp_conn now i (w\<lparr>ts_timer := tm_cancel timer_id (ts_timer w)\<rparr>))"

definition set_message_cb :: "bool \<Rightarrow> 'a tcp_world_scheme \<Rightarrow> 'a tcp_world_scheme" where
  "set_message_cb cb w = w\<lparr>ts_msg_cb := cb\<rparr>"

text \<open>\<^verbatim>\<open>ts_message_cb\<close>, set by the constructor; \<^verbatim>\<open>user\<close> is what the callback of the server's user does, when it
  is set.\<close>

definition server_message_cb :: "int \<Rightarrow> (nat \<Rightarrow> 'a tcp_world_scheme \<Rightarrow> 'a tcp_world_scheme result) \<Rightarrow>
    nat \<Rightarrow> 'a tcp_world_scheme \<Rightarrow> 'a tcp_world_scheme result" where
  "server_message_cb now user i w =
     rbind (update_conn_timeout_time now i w) (\<lambda>w.
     if ts_msg_cb w then user i w else Inr w)"

section \<open>The acceptor\<close>

definition acceptor_new :: "int \<Rightarrow> int \<Rightarrow> bool \<Rightarrow> 'a tcp_server_scheme \<Rightarrow> 'a tcp_server_scheme result" where
  "acceptor_new idle_fd listen_fd bound w =
     (let w = w\<lparr>ac_listening := False, ac_idle_fd := idle_fd, ac_listen_fd := listen_fd\<rparr> in
      rbind (c_assert (listen_fd \<ge> 0)) (\<lambda>_.
      rbind (c_assert (idle_fd \<ge> 0)) (\<lambda>_.
      if \<not> bound then Inl (Exit 1)
      else Inr (w\<lparr>tw_open_fds := tw_open_fds w \<union> {listen_fd, idle_fd}\<rparr>))))"

definition acceptor_delete :: "'a tcp_server_scheme \<Rightarrow> 'a tcp_server_scheme" where
  "acceptor_delete w = w\<lparr>tw_open_fds := tw_open_fds w - {ac_listen_fd w} - {ac_idle_fd w}\<rparr>"

definition is_listenning :: "'a tcp_server_scheme \<Rightarrow> bool" where
  [simp]: "is_listenning w = ac_listening w"

definition acceptor_listen :: "epoll_ctl \<Rightarrow> bool \<Rightarrow> 'a tcp_server_scheme \<Rightarrow> 'a tcp_server_scheme result" where
  "acceptor_listen ctl listen_ok w =
     (if \<not> listen_ok then Inl (Exit 1)
      else Inr (add_to_poller ctl (ts_acceptor_loop w) (ac_listen_fd w) EPOLLIN Do_accept_cb (w\<lparr>ac_listening := True\<rparr>)))"

text \<open>
  The server's constructor and \<^verbatim>\<open>start\<close>. The pool, the pollers and the descriptors of the process are
  given; the loop 0 is the acceptor's. The loop of \<^verbatim>\<open>start\<close> constructs the worker loops (the kernel's
  answers to \<^verbatim>\<open>epoll_create1\<close> and \<^verbatim>\<open>eventfd\<close> are listed) and posts to the thread pool a task for each; the size
  of the pool is the number of threads, converted to \<^verbatim>\<open>unsigned short\<close>. Then \<^verbatim>\<open>listen\<close> runs through
  \<^verbatim>\<open>add_task\<close> of the acceptor's loop.

  Meanwhile the threads of the pool take tasks. The task of turn \<open>i\<close> captured the variable \<^verbatim>\<open>ev\<close> of that turn
  by reference, and reads it when it runs. \<open>vars\<close> are the variables that exist, by turn: during turn \<open>i\<close>
  that of \<open>i\<close> only, afterwards none. How many tasks the threads take in a turn, after it has posted its own, is
  given with the turn. A task taken between two turns finds no more variables than one taken in the second.
\<close>

definition server_new :: "mempool \<Rightarrow> (nat \<Rightarrow> tcp_cb epoll) \<Rightarrow> int set \<Rightarrow> int \<Rightarrow> int \<Rightarrow> bool \<Rightarrow> tcp_server result" where
  "server_new mp pollers fds idle_fd listen_fd bound =
     rbind timer_new (\<lambda>tm.
     acceptor_new idle_fd listen_fd bound
       \<lparr>tw_pool = mp, tw_pollers = pollers, tw_conns = Map.empty, tw_next = 0, tw_open_fds = fds, tw_nonblock = {},
        ts_tcp_connections = [], ts_conn_loops = [], ts_next_loop = - 1, ts_timer = tm, ts_tcp_conn_timout_ms = 6000,
        ts_connected_cb = False, ts_close_cb = False, ts_msg_cb = False,
        tw_connected_calls = [], tw_close_calls = [], tw_message_calls = (\<lambda>_. []), tw_sent = (\<lambda>_. []),
        ts_started = None, ts_thread_num = 1, ts_thread_pool = None, ts_acceptor_loop = 0, ts_loops_made = 1,
        ac_listen_fd = listen_fd, ac_idle_fd = idle_fd, ac_listening = False, ts_running = []\<rparr>)"

definition loop_task_reads :: "(nat \<rightharpoonup> nat) \<Rightarrow> nat \<Rightarrow> nat result" where
  "loop_task_reads vars i = deref (vars i)"

text \<open>\<open>k\<close> threads that wait for a task take one each, if there is one, and go into the loop they read.\<close>

fun workers_take :: "(nat \<rightharpoonup> nat) \<Rightarrow> nat \<Rightarrow> 'a tcp_server_scheme \<Rightarrow> 'a tcp_server_scheme result" where
  "workers_take vars 0 w = Inr w"
| "workers_take vars (Suc k) w =
     rbind (deref (ts_thread_pool w)) (\<lambda>tp.
     let j = length (tp_started tp) in
     case tp_tasks tp of
       [] \<Rightarrow> Inr w
     | i # _ \<Rightarrow>
       if tp_size tp \<le> j then Inr w
       else rbind (loop_task_reads vars i) (\<lambda>l.
         workers_take vars k
           (w\<lparr>ts_thread_pool := Some (worker_run j i (worker_lock j (worker_test j tp))), ts_running := ts_running w @ [l]\<rparr>)))"

fun start_loops :: "epoll_ctl \<Rightarrow> nat \<Rightarrow> nat \<Rightarrow> (int \<times> int \<times> nat) list \<Rightarrow> 'a tcp_server_scheme \<Rightarrow> 'a tcp_server_scheme result" where
  "start_loops ctl i 0 fds w = Inr w"
| "start_loops ctl i (Suc n) [] w = Inl Starved"
| "start_loops ctl i (Suc n) ((epoll_fd, evfd, takes) # fds) w =
     rbind (loop_poller ctl Evfd_read_cb epoll_fd evfd) (\<lambda>ep.
     let l = ts_loops_made w;
         w = w\<lparr>ts_loops_made := l + 1, tw_pollers := (tw_pollers w)(l := ep), ts_conn_loops := ts_conn_loops w @ [l],
                tw_open_fds := tw_open_fds w \<union> {epoll_fd, evfd}\<rparr>
     in rbind (deref (ts_thread_pool w)) (\<lambda>tp.
        rbind (post_task i tp) (\<lambda>tp.
        rbind (workers_take [i \<mapsto> ts_conn_loops w ! i] takes (w\<lparr>ts_thread_pool := Some tp\<rparr>)) (\<lambda>w.
        start_loops ctl (i + 1) n fds w))))"

definition server_start :: "epoll_ctl \<Rightarrow> (int \<times> int \<times> nat) list \<Rightarrow> bool \<Rightarrow> 'a tcp_server_scheme \<Rightarrow> 'a tcp_server_scheme result" where
  "server_start ctl fds listen_ok w =
     rbind (read_var (ts_started w)) (\<lambda>started.
     rbind (if \<not> started then
              let w = w\<lparr>ts_timer := timer_run (ts_timer w), ts_started := Some True\<rparr> in
              rbind (threadpool_new (nat (ts_thread_num w mod 65536))) (\<lambda>tp.
              start_loops ctl 0 (nat (ts_thread_num w)) fds (w\<lparr>ts_thread_pool := Some tp\<rparr>))
            else Inr w) (\<lambda>w.
     if \<not> is_listenning w then acceptor_listen ctl listen_ok w else Inr w))"

text \<open>The end of one turn of the accept loop: the new object, its callbacks, \<^verbatim>\<open>add_task\<close>, and the server's
  list. Without a worker loop \<^verbatim>\<open>add_task\<close> dereferences the null pointer.\<close>

definition accept_one :: "epoll_ctl \<Rightarrow> int \<Rightarrow> int \<Rightarrow> 'a tcp_server_scheme \<Rightarrow> 'a tcp_server_scheme result" where
  "accept_one ctl now connfd w =
     (let w = w\<lparr>tw_open_fds := insert connfd (tw_open_fds w)\<rparr> in
      case get_next_loop w of (sub_loop, w) \<Rightarrow>
      rbind (deref sub_loop) (\<lambda>l.
      case conn_new l connfd w of (i, w) \<Rightarrow>
      rbind (conn_set_cbs i (ts_connected_cb w) (ts_close_cb w) w) (\<lambda>w.
      rbind (conn_add_task ctl i w) (\<lambda>w.
      add_new_tcp_conn now i w))))"

text \<open>What \<^verbatim>\<open>accept\<close> answers: a descriptor (and the clock at that time), or an error; for \<^verbatim>\<open>EMFILE\<close> also
  what the second \<^verbatim>\<open>accept\<close>, whose descriptor is closed again, and \<^verbatim>\<open>open\<close> answer.\<close>

datatype accept_answer = Accept_fd int int | Accept_eintr | Accept_emfile int int | Accept_eagain | Accept_error int

fun accept_turn :: "epoll_ctl \<Rightarrow> accept_answer \<Rightarrow> 'a tcp_server_scheme \<Rightarrow> 'a tcp_server_scheme result" where
  "accept_turn ctl (Accept_fd connfd now) w = accept_one ctl now connfd w"
| "accept_turn ctl (Accept_emfile idle2 idle3) w =
     Inr (w\<lparr>ac_idle_fd := idle3,
       tw_open_fds := (tw_open_fds w - {ac_idle_fd w} - {idle2}) \<union> (if idle3 \<ge> 0 then {idle3} else {})\<rparr>)"
| "accept_turn ctl _ w = Inr w"

fun do_accept :: "epoll_ctl \<Rightarrow> accept_answer list \<Rightarrow> 'a tcp_server_scheme \<Rightarrow> 'a tcp_server_scheme result" where
  "do_accept ctl [] w = Inl Starved"
| "do_accept ctl (a # as) w =
     (if a = Accept_eagain then Inr w else rbind (accept_turn ctl a w) (\<lambda>w. do_accept ctl as w))"

section \<open>Round robin\<close>

fun next_loops :: "nat \<Rightarrow> 'a tcp_world_scheme \<Rightarrow> nat list" where
  "next_loops 0 w = []"
| "next_loops (Suc k) w = (case get_next_loop w of (None, w) \<Rightarrow> [] | (Some l, w) \<Rightarrow> l # next_loops k w)"

lemma next_loops_eq:
  assumes "ts_conn_loops w \<noteq> []"
  shows "next_loops m w = map (\<lambda>k. ts_conn_loops w ! nat ((ts_next_loop w + 1 + int k) mod int (length (ts_conn_loops w)))) [0..<m]"
  using assms
proof (induction m arbitrary: w)
  case (Suc m)
  let ?n = "int (length (ts_conn_loops w))"
  let ?w = "w\<lparr>ts_next_loop := (ts_next_loop w + 1) mod ?n\<rparr>"
  have "next_loops (Suc m) w = ts_conn_loops w ! nat ((ts_next_loop w + 1) mod ?n) # next_loops m ?w"
    using Suc.prems by (simp add: get_next_loop_def Let_def)
  moreover have "((ts_next_loop w + 1) mod ?n + 1 + int k) mod ?n = (ts_next_loop w + 1 + int (Suc k)) mod ?n" for k
    using mod_add_left_eq[of "ts_next_loop w + 1" ?n "1 + int k"] by (simp add: ac_simps)
  ultimately show ?case
    using Suc.IH[of ?w] Suc.prems by (simp add: map_upt_Suc del: upt_Suc)
qed simp

section \<open>The connection list\<close>

lemma add_new_fields:
  assumes "add_new_tcp_conn now i w = Inr w'"
  shows "ts_tcp_connections w' = ts_tcp_connections w @ [i]"
    "\<exists>c. tw_conns w i = Some c \<and> tw_conns w' = (tw_conns w)(i \<mapsto> c\<lparr>tc_timer_id := sint (tm_id (ts_timer w))\<rparr>)"
    "ts_timer w' = snd (run_after now (ts_tcp_conn_timout_ms w) False i (ts_timer w))"
  using assms by (auto simp: add_new_tcp_conn_def result_iff run_after_def tm_register_def Let_def)

lemma update_fields:
  assumes "update_conn_timeout_time now i w = Inr w'"
  shows "ts_tcp_connections w' = ts_tcp_connections w @ [i]" "tw_conns w' i \<noteq> None"
  using assms add_new_fields by (fastforce simp: update_conn_timeout_time_def result_iff)+

fun messages :: "int list \<Rightarrow> nat \<Rightarrow> 'a tcp_world_scheme \<Rightarrow> 'a tcp_world_scheme result" where
  "messages [] i w = Inr w"
| "messages (now # ts) i w = rbind (server_message_cb now (\<lambda>_. Inr) i w) (\<lambda>w. messages ts i w)"

lemma messages_append: "messages ts i w = Inr w' \<Longrightarrow> ts_tcp_connections w' = ts_tcp_connections w @ replicate (length ts) i"
proof (induction ts arbitrary: w)
  case (Cons now ts)
  then obtain w1 where "update_conn_timeout_time now i w = Inr w1" "messages ts i w1 = Inr w'"
    by (auto simp: server_message_cb_def result_iff)
  then show ?case using Cons.IH update_fields(1) by fastforce
qed simp

lemma messages_returns: "tw_conns w i \<noteq> None \<Longrightarrow> \<exists>w'. messages ts i w = Inr w'"
proof (induction ts arbitrary: w)
  case (Cons now ts)
  then obtain c where c: "tw_conns w i = Some c" by auto
  then obtain w1 where w1: "update_conn_timeout_time now i w = Inr w1"
    by (cases "run_after now (ts_tcp_conn_timout_ms w) False i (tm_cancel (tc_timer_id c) (ts_timer w))")
      (auto simp: update_conn_timeout_time_def add_new_tcp_conn_def)
  then show ?case using Cons.IH[OF update_fields(2)[OF w1]] by (simp add: server_message_cb_def)
qed simp

text \<open>A message changes nothing of the connection but its timer.\<close>

definition same_but_timer :: "nat \<Rightarrow> 'a tcp_world_scheme \<Rightarrow> 'a tcp_world_scheme \<Rightarrow> bool" where
  "same_but_timer i w w' \<longleftrightarrow> tw_pool w' = tw_pool w \<and> tw_pollers w' = tw_pollers w \<and> tw_sent w' = tw_sent w \<and>
     tw_message_calls w' = tw_message_calls w \<and> tw_open_fds w' = tw_open_fds w \<and> tw_next w' = tw_next w \<and>
     ts_conn_loops w' = ts_conn_loops w \<and> ts_msg_cb w' = ts_msg_cb w \<and> tcp_world.more w' = tcp_world.more w \<and>
     (\<forall>j. j \<noteq> i \<longrightarrow> tw_conns w' j = tw_conns w j) \<and>
     (\<forall>c. tw_conns w i = Some c \<longrightarrow> (\<exists>t. tw_conns w' i = Some (c\<lparr>tc_timer_id := t\<rparr>)))"

lemma update_same: "update_conn_timeout_time now i w = Inr w' \<Longrightarrow> same_but_timer i w w'"
proof -
  assume u: "update_conn_timeout_time now i w = Inr w'"
  then obtain c where c: "tw_conns w i = Some c" by (auto simp: update_conn_timeout_time_def result_iff)
  show ?thesis
    using u c by (cases "run_after now (ts_tcp_conn_timout_ms w) False i (tm_cancel (tc_timer_id c) (ts_timer w))")
      (auto simp: update_conn_timeout_time_def add_new_tcp_conn_def same_but_timer_def)
qed

lemma same_but_timer_refl: "same_but_timer i w w"
  unfolding same_but_timer_def
proof (intro conjI allI impI refl)
  fix c assume "tw_conns w i = Some c"
  then show "\<exists>t. tw_conns w i = Some (c\<lparr>tc_timer_id := t\<rparr>)" by (intro exI[of _ "tc_timer_id c"]) simp
qed

lemma same_but_timer_trans: "same_but_timer i w w1 \<Longrightarrow> same_but_timer i w1 w2 \<Longrightarrow> same_but_timer i w w2"
  by (fastforce simp: same_but_timer_def)

lemma messages_same: "messages ts i w = Inr w' \<Longrightarrow> same_but_timer i w w'"
proof (induction ts arbitrary: w)
  case Nil
  then show ?case by (simp add: same_but_timer_refl)
next
  case (Cons now ts)
  then obtain w1 where "update_conn_timeout_time now i w = Inr w1" "messages ts i w1 = Inr w'"
    by (auto simp: server_message_cb_def result_iff)
  then show ?case using Cons.IH update_same same_but_timer_trans by blast
qed

lemma conn_same:
  assumes "conn_ok i c w out" "same_but_timer i w w1"
  obtains t where "conn_ok i (c\<lparr>tc_timer_id := t\<rparr>) w1 out" "tw_pollers w1 = tw_pollers w" "tw_pool w1 = tw_pool w" "tw_sent w1 = tw_sent w"
    "tw_message_calls w1 = tw_message_calls w" "in_sync (tw_pollers w (tc_loop c)) \<Longrightarrow> touched i out c w (c\<lparr>tc_timer_id := t\<rparr>) w1"
proof -
  obtain t where t: "tw_conns w1 i = Some (c\<lparr>tc_timer_id := t\<rparr>)" using assms by (auto simp: same_but_timer_def conn_ok_def)
  let ?c = "c\<lparr>tc_timer_id := t\<rparr>"
  have "bufs ?c = bufs c" "out - bufs c \<union> bufs c = out" using bufs_swap(3)[OF assms(1)] by (simp_all add: bufs_def)
  moreover have "conn_ok i ?c w1 out" using assms t by (simp add: same_but_timer_def conn_ok_def)
  ultimately show ?thesis using assms(2) by (intro that[of t]) (auto simp: same_but_timer_def touched_def)
qed

lemma update_returns: "tw_conns w i \<noteq> None \<Longrightarrow> \<exists>w1. update_conn_timeout_time now i w = Inr w1"
  using messages_returns[of w i "[now]"] by (auto simp: server_message_cb_def result_iff)

section \<open>Starting and accepting\<close>

text \<open>
  At the beginning of turn \<open>i\<close>: the loops of the earlier turns are made, the tasks before \<open>m\<close> have been taken,
  each in its turn, and the others are queued; in the turns from \<open>m\<close> on nobody took one.
\<close>

definition starting :: "(nat \<Rightarrow> nat) \<Rightarrow> nat \<Rightarrow> nat \<Rightarrow> nat \<Rightarrow> nat \<Rightarrow> 'a tcp_server_scheme \<Rightarrow> bool" where
  "starting takes n base i m w \<longleftrightarrow> m \<le> i \<and> (\<forall>j < m. 0 < takes j) \<and> (\<forall>j. m \<le> j \<and> j < i \<longrightarrow> takes j = 0) \<and>
     ts_loops_made w = base + i \<and> ts_conn_loops w = [base..<base + i] \<and> ts_running w = [base..<base + m] \<and>
     (\<exists>tp. ts_thread_pool w = Some tp \<and> tp_size tp = n \<and> tp_run tp \<and> tp_started tp = [0..<m] \<and> tp_tasks tp = [m..<i])"

definition taken_late :: "(nat \<Rightarrow> nat) \<Rightarrow> nat \<Rightarrow> bool" where
  "taken_late takes n \<longleftrightarrow> (\<exists>i j. i < j \<and> j < n \<and> takes i = 0 \<and> 0 < takes j)"

lemma workers_take_none: "ts_thread_pool w = Some tp \<Longrightarrow> tp_tasks tp = [] \<Longrightarrow> workers_take vars k w = Inr w"
  by (cases k) simp_all

text \<open>One turn: the task is taken at once, or stays; a task of an earlier turn cannot be taken any more.\<close>

lemma start_turn:
  assumes st: "starting takes n base i m w" and i: "i < n" and ep: "loop_poller ctl Evfd_read_cb epoll_fd evfd = Inr ep"
  shows "(\<exists>w' m'. start_loops ctl i (Suc d) ((epoll_fd, evfd, takes i) # fds) w = start_loops ctl (i + 1) d fds w' \<and>
        starting takes n base (i + 1) m' w') \<or>
     start_loops ctl i (Suc d) ((epoll_fd, evfd, takes i) # fds) w = Inl (Undefined Bad_pointer) \<and> taken_late takes n"
proof -
  obtain tp where tp: "ts_thread_pool w = Some tp" "tp_size tp = n" "tp_run tp" "tp_started tp = [0..<m]" "tp_tasks tp = [m..<i]"
    and w: "m \<le> i" "\<forall>j < m. 0 < takes j" "\<forall>j. m \<le> j \<and> j < i \<longrightarrow> takes j = 0" "ts_loops_made w = base + i"
      "ts_conn_loops w = [base..<base + i]" "ts_running w = [base..<base + m]"
    using st by (auto simp: starting_def)
  obtain tp1 where tp1: "post_task i tp = Inr tp1" "tp_tasks tp1 = [m..<i] @ [i]" "tp_size tp1 = n" "tp_run tp1" "tp_started tp1 = [0..<m]"
    using tp by (simp add: post_task_def post_check_def post_push_def)
  let ?w = "w\<lparr>ts_loops_made := base + i + 1, tw_pollers := (tw_pollers w)(base + i := ep), ts_conn_loops := [base..<base + i] @ [base + i],
     tw_open_fds := tw_open_fds w \<union> {epoll_fd, evfd}, ts_thread_pool := Some tp1\<rparr>"
  have run: "start_loops ctl i (Suc d) ((epoll_fd, evfd, takes i) # fds) w =
      rbind (workers_take [i \<mapsto> base + i] (takes i) ?w) (\<lambda>w. start_loops ctl (i + 1) d fds w)"
    using ep tp(1) tp1(1) w(4,5) by (simp add: Let_def nth_append)
  consider (stays) "takes i = 0" | (taken) k where "takes i = Suc k" "m = i" | (late) k where "takes i = Suc k" "m < i"
    using w(1) by (cases "takes i"; cases "m = i") auto
  then show ?thesis
  proof cases
    case stays
    have "starting takes n base (i + 1) m ?w" using w tp1 stays by (auto simp: starting_def less_Suc_eq)
    then show ?thesis using run stays by auto
  next
    case taken
    let ?tp = "worker_run i i (worker_lock i (worker_test i tp1))"
    have tasks: "tp_tasks tp1 = [i]" using tp1(2) taken by simp
    have f: "tp_tasks ?tp = []" "tp_size ?tp = n" "tp_run ?tp" "tp_started ?tp = [0..<i + 1]"
      using tp1 tasks taken by (simp_all add: worker_run_def worker_lock_def worker_test_def)
    let ?w' = "?w\<lparr>ts_thread_pool := Some ?tp, ts_running := [base..<base + i] @ [base + i]\<rparr>"
    have "workers_take [i \<mapsto> base + i] (takes i) ?w = workers_take [i \<mapsto> base + i] k ?w'"
      using taken tasks tp1(3,5) w(6) i by (simp add: loop_task_reads_def Let_def)
    also have "\<dots> = Inr ?w'" by (rule workers_take_none[OF _ f(1)]) simp
    finally have "start_loops ctl i (Suc d) ((epoll_fd, evfd, takes i) # fds) w = start_loops ctl (i + 1) d fds ?w'" using run by simp
    moreover have "starting takes n base (i + 1) (i + 1) ?w'"
      using w f taken by (auto simp: starting_def less_Suc_eq)
    ultimately show ?thesis by blast
  next
    case late
    have "tp_tasks tp1 = m # [Suc m..<i] @ [i]" using tp1(2) late(2) by (simp add: upt_conv_Cons)
    then have "workers_take [i \<mapsto> base + i] (takes i) ?w = Inl (Undefined Bad_pointer)"
      using late i tp1(3,5) by (simp add: loop_task_reads_def Let_def)
    moreover have "taken_late takes n" unfolding taken_late_def by (rule exI[of _ m], rule exI[of _ i]) (use late w(3) i in simp)
    ultimately show ?thesis using run by simp
  qed
qed

lemma start_loops_outcome:
  assumes "\<forall>(epoll_fd, evfd, _) \<in> set fds. epoll_fd > 0 \<and> evfd \<ge> 0" "n \<le> length fds"
  shows "starting (\<lambda>i. snd (snd (fds ! i))) n base i m w \<Longrightarrow> i + d = n \<Longrightarrow>
     case start_loops ctl i d (drop i fds) w of
       Inl f \<Rightarrow> f = Undefined Bad_pointer \<and> taken_late (\<lambda>i. snd (snd (fds ! i))) n
     | Inr w' \<Rightarrow> \<exists>m'. starting (\<lambda>i. snd (snd (fds ! i))) n base n m' w'"
proof (induction d arbitrary: i m w)
  case (Suc d)
  have i: "i < n" "i < length fds" using Suc.prems(2) assms(2) by simp_all
  obtain epoll_fd evfd k where e: "fds ! i = (epoll_fd, evfd, k)" by (cases "fds ! i")
  have dr: "drop i fds = (epoll_fd, evfd, snd (snd (fds ! i))) # drop (i + 1) fds" using i(2) e by (simp add: Cons_nth_drop_Suc[symmetric])
  have "fds ! i \<in> set fds" using i(2) by simp
  then have "epoll_fd > 0" "evfd \<ge> 0" using assms(1) e by fastforce+
  then obtain ep where ep: "loop_poller ctl Evfd_read_cb epoll_fd evfd = Inr ep" by (simp add: loop_poller_def epoll_new_def)
  from start_turn[OF Suc.prems(1) i(1) ep, of d "drop (i + 1) fds"] show ?case
  proof (elim disjE exE conjE)
    fix w' m'
    assume w': "start_loops ctl i (Suc d) ((epoll_fd, evfd, snd (snd (fds ! i))) # drop (i + 1) fds) w = start_loops ctl (i + 1) d (drop (i + 1) fds) w'"
      "starting (\<lambda>i. snd (snd (fds ! i))) n base (i + 1) m' w'"
    show ?thesis unfolding dr w'(1) by (rule Suc.IH[OF w'(2)]) (use Suc.prems(2) in simp)
  qed (simp add: dr)
qed auto

lemma workers_take_keeps:
  "workers_take vars k w = Inr w' \<Longrightarrow> ac_listening w' = ac_listening w \<and> tw_open_fds w' = tw_open_fds w \<and> ac_listen_fd w' = ac_listen_fd w \<and>
     (\<exists>ls tp. w' = w\<lparr>ts_running := ts_running w @ ls, ts_thread_pool := tp\<rparr> \<and> set ls \<subseteq> ran vars)"
proof (induction k arbitrary: w)
  case 0
  then have "w' = w\<lparr>ts_running := ts_running w @ [], ts_thread_pool := ts_thread_pool w\<rparr>" by simp
  then show ?case using 0 by (metis Inr_inject empty_set empty_subsetI workers_take.simps(1))
next
  case (Suc k)
  obtain tp where tp: "ts_thread_pool w = Some tp" using Suc.prems by (auto simp: result_iff)
  show ?case
  proof (cases "tp_tasks tp = [] \<or> tp_size tp \<le> length (tp_started tp)")
    case True
    then have "w' = w" using Suc.prems tp by (auto simp: Let_def split: list.splits)
    then show ?thesis by (auto intro!: exI[of _ "[]"] exI[of _ "ts_thread_pool w"])
  next
    case False
    then obtain i l tp' where l: "vars i = Some l" "workers_take vars k (w\<lparr>ts_thread_pool := tp', ts_running := ts_running w @ [l]\<rparr>) = Inr w'"
      using Suc.prems tp by (auto simp: Let_def loop_task_reads_def result_iff split: list.splits)
    from Suc.IH[OF l(2)] obtain ls tp2 where "w' = w\<lparr>ts_running := ts_running w @ (l # ls), ts_thread_pool := tp2\<rparr>" "set ls \<subseteq> ran vars"
      by auto
    then show ?thesis using l(1) by (auto simp: ran_def intro!: exI[of _ "l # ls"] exI[of _ tp2])
  qed
qed

lemma start_loops_keeps:
  "start_loops ctl i n fds w = Inr w' \<Longrightarrow> ac_listening w' = ac_listening w \<and>
     tw_open_fds w' \<subseteq> tw_open_fds w \<union> fst ` set fds \<union> (fst \<circ> snd) ` set fds"
proof (induction ctl i n fds w rule: start_loops.induct)
  case (3 ctl i n epoll_fd evfd takes fds w)
  from 3(2) obtain ep tp tp1 w1 where w1: "workers_take [i \<mapsto> (ts_conn_loops w @ [ts_loops_made w]) ! i] takes
      (w\<lparr>ts_loops_made := ts_loops_made w + 1, tw_pollers := (tw_pollers w)(ts_loops_made w := ep), ts_conn_loops := ts_conn_loops w @ [ts_loops_made w],
         tw_open_fds := tw_open_fds w \<union> {epoll_fd, evfd}, ts_thread_pool := Some tp1\<rparr>) = Inr w1"
      "start_loops ctl (i + 1) n fds w1 = Inr w'" and e: "loop_poller ctl Evfd_read_cb epoll_fd evfd = Inr ep" "ts_thread_pool w = Some tp" "post_task i tp = Inr tp1"
    by (auto simp: result_iff Let_def)
  have "ac_listening w1 = ac_listening w \<and> tw_open_fds w1 = tw_open_fds w \<union> {epoll_fd, evfd}" using workers_take_keeps[OF w1(1)] by simp
  moreover have "ac_listening w' = ac_listening w1 \<and> tw_open_fds w' \<subseteq> tw_open_fds w1 \<union> fst ` set fds \<union> (fst \<circ> snd) ` set fds"
    using w1 e by (intro 3(1)) (simp_all add: Let_def)
  ultimately show ?case by auto
qed auto

lemma server_start_outcome:
  assumes w: "ts_started w = Some False" "\<not> ac_listening w" "ts_conn_loops w = []" "ts_running w = []" and n: "ts_thread_num w = int n" "n \<le> 64"
    and fds: "n \<le> length fds" "\<forall>(epoll_fd, evfd, _) \<in> set fds. epoll_fd > 0 \<and> evfd \<ge> 0"
  shows "case server_start ctl fds True w of
      Inl f \<Rightarrow> f = Undefined Bad_pointer \<and> taken_late (\<lambda>i. snd (snd (fds ! i))) n
    | Inr w' \<Rightarrow> ac_listening w' \<and> tw_open_fds w' \<subseteq> tw_open_fds w \<union> fst ` set fds \<union> (fst \<circ> snd) ` set fds \<and>
        (\<exists>m. starting (\<lambda>i. snd (snd (fds ! i))) n (ts_loops_made w) n m w')"
proof -
  let ?takes = "\<lambda>i. snd (snd (fds ! i))"
  obtain tp :: "nat threadpool" where tp: "threadpool_new n = Inr tp" "tp_tasks tp = []" "tp_size tp = n" "tp_run tp" "tp_started tp = []"
    using n(2) by (simp add: threadpool_new_def add_thread_def Let_def)
  let ?w = "w\<lparr>ts_timer := timer_run (ts_timer w), ts_started := Some True, ts_thread_pool := Some tp\<rparr>"
  have "starting ?takes n (ts_loops_made w) 0 0 ?w" using w(3,4) tp by (simp add: starting_def)
  note out = start_loops_outcome[OF fds(2,1) this, of n ctl, simplified]
  have "nat (ts_thread_num w mod 65536) = n" "nat (ts_thread_num w) = n" using n by simp_all
  then have run: "server_start ctl fds True w =
      rbind (start_loops ctl 0 n fds ?w) (\<lambda>w. if \<not> ac_listening w then acceptor_listen ctl True w else Inr w)"
    using w(1) tp(1) by (simp add: server_start_def Let_def)
  show ?thesis
  proof (cases "start_loops ctl 0 n fds ?w")
    case (Inl f)
    then show ?thesis using run out by simp
  next
    case (Inr w1)
    have l: "\<not> ac_listening w1" "tw_open_fds w1 \<subseteq> tw_open_fds w \<union> fst ` set fds \<union> (fst \<circ> snd) ` set fds"
      using start_loops_keeps[OF Inr] w(2) by simp_all
    let ?w' = "add_to_poller ctl (ts_acceptor_loop w1) (ac_listen_fd w1) EPOLLIN Do_accept_cb (w1\<lparr>ac_listening := True\<rparr>)"
    have "server_start ctl fds True w = Inr ?w'" using run Inr l(1) by (simp add: acceptor_listen_def)
    moreover have "starting ?takes n (ts_loops_made w) n m ?w'" if "starting ?takes n (ts_loops_made w) n m w1" for m
      using that by (simp add: starting_def add_to_poller_def on_poller_def)
    ultimately show ?thesis using out Inr l(2) by (auto simp: add_to_poller_def on_poller_def)
  qed
qed

text \<open>A new descriptor is watched for input only.\<close>

lemma poller_watch:
  assumes "epoll_kernel ctl" "in_sync ep" "ep_event_map ep fd = None" "fst (ctl EPOLL_CTL_ADD fd EPOLLIN (ep_kernel ep))"
  shows "in_sync (epoll_add ctl fd EPOLLIN cb ep) \<and> ep_kernel (epoll_add ctl fd EPOLLIN cb ep) fd = Some EPOLLIN"
proof -
  have ok: "fst (ctl (add_op fd ep) fd (final_events fd EPOLLIN ep) (ep_kernel ep))" "final_events fd EPOLLIN ep = EPOLLIN"
    using assms(3,4) by (simp_all add: add_op_def final_events_def)
  show ?thesis using epoll_add_sync[OF assms(1,2) ok(1)] ok by (simp add: epoll_add_eq[OF assms(1)])
qed

text \<open>The world after \<^verbatim>\<open>add_task\<close> of a new connection \<open>c\<close>.\<close>

definition accepted_world :: "epoll_ctl \<Rightarrow> int \<Rightarrow> nat \<Rightarrow> int \<Rightarrow> tcp_conn \<Rightarrow> 'a tcp_server_scheme \<Rightarrow> 'a tcp_server_scheme" where
  "accepted_world ctl fd l n c w =
     w\<lparr>tw_open_fds := insert fd (tw_open_fds w), ts_next_loop := n, tw_next := tw_next w + 1, tw_nonblock := insert fd (tw_nonblock w),
       tw_conns := (tw_conns w)(tw_next w \<mapsto> c),
       tw_connected_calls := tw_connected_calls w @ (if ts_connected_cb w then [tw_next w] else []),
       tw_pollers := (tw_pollers w)(l := epoll_add ctl fd EPOLLIN (Do_read_cb (tw_next w)) (tw_pollers w l))\<rparr>"

lemma accept_one_run:
  assumes "get_next_loop w = (Some l, w0)"
  shows "\<exists>n. accept_one ctl now fd w = add_new_tcp_conn now (tw_next w) (accepted_world ctl fd l n
     \<lparr>tc_loop = l, tc_fd = fd, tc_timer_id = - 1, tc_obuf = None, tc_ibuf = None,
      tc_connected_cb = ts_connected_cb w, tc_close_cb = ts_close_cb w, tc_context = None\<rparr> w)"
proof -
  obtain n where "get_next_loop (w\<lparr>tw_open_fds := insert fd (tw_open_fds w)\<rparr>) =
      (Some l, w\<lparr>tw_open_fds := insert fd (tw_open_fds w), ts_next_loop := n\<rparr>)"
    using assms by (auto simp: get_next_loop_def Let_def split: if_splits)
  then show ?thesis
    by (auto simp: accept_one_def conn_new_def set_sockfd_def conn_set_cbs_def conn_add_task_def conn_connected_def get_conn_def set_conn_def
        add_to_poller_def on_poller_def accepted_world_def Let_def intro!: exI[of _ n])
qed

lemma accept_one_ok:
  assumes k: "epoll_kernel ctl" and loop: "get_next_loop w = (Some l, w0)"
    and poller: "in_sync (tw_pollers w l)" "ep_event_map (tw_pollers w l) fd = None"
      "fst (ctl EPOLL_CTL_ADD fd EPOLLIN (ep_kernel (tw_pollers w l)))"
    and pool: "pool_owns (tw_pool w) out"
  shows "\<exists>w' c s. accept_one ctl now fd w = Inr w' \<and> tc_ibuf c = None \<and> tw_sent w' = tw_sent w \<and> ts_msg_cb w' = ts_msg_cb w \<and> conn_ok (tw_next w) c w' out \<and> write_interest c w' \<and>
     tc_loop c = l \<and> tc_fd c = fd \<and> fd \<in> tw_open_fds w' \<and> fd \<in> tw_nonblock w' \<and> contents (tc_obuf c) (tw_pool w') = [] \<and>
     ts_tcp_connections w' = ts_tcp_connections w @ [tw_next w] \<and>
     tw_connected_calls w' = tw_connected_calls w @ (if ts_connected_cb w then [tw_next w] else []) \<and>
     hm_is_key_exist (tc_timer_id c) (tm_id_state_map (ts_timer w')) \<and> s \<in> set (tm_queue (ts_timer w')) \<and>
     tn_id s = tc_timer_id c \<and> tn_callback s = tw_next w \<and> tn_tm_point s = now + ts_tcp_conn_timout_ms w * 1000000"
proof -
  let ?c = "\<lparr>tc_loop = l, tc_fd = fd, tc_timer_id = - 1, tc_obuf = None, tc_ibuf = None,
    tc_connected_cb = ts_connected_cb w, tc_close_cb = ts_close_cb w, tc_context = None\<rparr>"
  obtain n where run: "accept_one ctl now fd w = add_new_tcp_conn now (tw_next w) (accepted_world ctl fd l n ?c w)"
    using accept_one_run[OF loop] by blast
  let ?w = "accepted_world ctl fd l n ?c w" and ?r = "run_after now (ts_tcp_conn_timout_ms w) False (tw_next w) (ts_timer w)"
  let ?c' = "?c\<lparr>tc_timer_id := fst ?r\<rparr>"
  let ?w' = "?w\<lparr>ts_timer := snd ?r, tw_conns := (tw_conns ?w)(tw_next w \<mapsto> ?c'), ts_tcp_connections := ts_tcp_connections ?w @ [tw_next w]\<rparr>"
  have w': "accept_one ctl now fd w = Inr ?w'"
    using run by (cases ?r) (simp add: add_new_tcp_conn_def accepted_world_def)
  have "conn_ok (tw_next w) ?c' ?w' out" using pool by (simp add: conn_ok_def buf_ok_def aligned_def accepted_world_def)
  moreover have "write_interest ?c' ?w'"
    using poller_watch[OF k poller, of "Do_read_cb (tw_next w)"] by (simp add: write_interest_def accepted_world_def)
  moreover have "hm_is_key_exist (fst ?r) (tm_id_state_map (snd ?r))"
    by (simp add: run_after_def tm_register_def hm_facts Let_def)
  moreover have "\<exists>s \<in> set (tm_queue (snd ?r)). tn_id s = fst ?r \<and> tn_callback s = tw_next w \<and>
      tn_tm_point s = now + ts_tcp_conn_timout_ms w * 1000000"
    by (simp add: run_after_def tm_register_def Let_def)
  ultimately show ?thesis using w' by (intro exI[of _ ?w'] exI[of _ ?c']) (auto simp: accepted_world_def)
qed

section \<open>Properties of the server\<close>

text \<open>A server that was just constructed.\<close>

definition new_server :: tcp_server where
  "new_server = projr (server_new hi_pool (\<lambda>_. projr (epoll_new 3)) {} 5 6 True)"

lemma new_server_eq: "server_new hi_pool (\<lambda>_. projr (epoll_new 3)) {} 5 6 True = Inr new_server"
  by (simp add: new_server_def server_new_def acceptor_new_def timer_new_def threadpool_new_def Let_def)

lemma new_server_fields:
  "ts_started new_server = None" "ts_thread_num new_server = 1" "ts_conn_loops new_server = []" "ts_loops_made new_server = 1"
  "\<not> ac_listening new_server" "ts_running new_server = []" "tw_pool new_server = hi_pool" "tw_next new_server = 0" "ts_next_loop new_server = - 1"
  "tw_pollers new_server = (\<lambda>_. projr (epoll_new 3))" "ts_tcp_connections new_server = []" "ts_connected_cb new_server = False"
  by (simp_all add: new_server_def server_new_def acceptor_new_def timer_new_def threadpool_new_def Let_def)



text \<open>
  A constructed server cannot be started in defined behaviour: the constructor never sets
  \<^verbatim>\<open>ts_started\<close>, which \<^verbatim>\<open>start\<close> reads first.
\<close>

theorem server_start_uninitialised:
  assumes "server_new mp pollers open_fds idle_fd listen_fd bound = Inr w"
  shows "server_start ctl fds listen_ok w = Inl (Undefined Uninitialised)"
proof -
  have "ts_started w = None" using assms by (cases "timer_new :: nat timer result") (auto simp: server_new_def acceptor_new_def result_iff Let_def split: if_splits)
  then show ?thesis by (simp add: server_start_def)
qed

theorem server_start_uninitialised_witness:
  "server_start (ctl_model 8) [(7, 8, 1)] True new_server = Inl (Undefined Uninitialised)"
  by (rule server_start_uninitialised[OF new_server_eq])

text \<open>
  C18. An accepted connection is complete: it belongs to the next worker loop, which watches its
  non-blocking socket for input only, with nothing pending; its connected callback, if set, has run once; it is in
  the server's list; and its idle timer is live and due one timeout after \<^verbatim>\<open>now\<close>.
\<close>

theorem server_accepts:
  assumes k: "epoll_kernel ctl" and loop: "get_next_loop w = (Some l, w0)"
    and poller: "in_sync (tw_pollers w l)" "ep_event_map (tw_pollers w l) fd = None"
      "fst (ctl EPOLL_CTL_ADD fd EPOLLIN (ep_kernel (tw_pollers w l)))"
    and pool: "pool_owns (tw_pool w) out"
  shows "\<exists>w' c s. accept_one ctl now fd w = Inr w' \<and> conn_ok (tw_next w) c w' out \<and> write_interest c w' \<and>
     tc_loop c = l \<and> tc_fd c = fd \<and> fd \<in> tw_open_fds w' \<and> fd \<in> tw_nonblock w' \<and> contents (tc_obuf c) (tw_pool w') = [] \<and>
     ts_tcp_connections w' = ts_tcp_connections w @ [tw_next w] \<and>
     tw_connected_calls w' = tw_connected_calls w @ (if ts_connected_cb w then [tw_next w] else []) \<and>
     hm_is_key_exist (tc_timer_id c) (tm_id_state_map (ts_timer w')) \<and> s \<in> set (tm_queue (ts_timer w')) \<and>
     tn_id s = tc_timer_id c \<and> tn_callback s = tw_next w \<and> tn_tm_point s = now + ts_tcp_conn_timout_ms w * 1000000"
  using accept_one_ok[OF assms] by blast

definition small_server :: tcp_server where
  "small_server = new_server\<lparr>ts_conn_loops := [1, 2], ts_msg_cb := True\<rparr>"

theorem server_accepts_witness:
  "\<exists>w' c. accept_one (ctl_model 8) 50 9 small_server = Inr w' \<and> conn_ok 0 c w' {0} \<and> tc_loop c = 1 \<and> tc_fd c = 9 \<and>
     ts_tcp_connections w' = [0]"
proof -
  have "get_next_loop small_server = (Some 1, small_server\<lparr>ts_next_loop := 0\<rparr>)"
    by (simp add: small_server_def get_next_loop_def new_server_fields)
  moreover have "in_sync (tw_pollers small_server 1)" "ep_event_map (tw_pollers small_server 1) 9 = None"
    "fst (ctl_model 8 EPOLL_CTL_ADD 9 EPOLLIN (ep_kernel (tw_pollers small_server 1)))"
    by (simp_all add: small_server_def new_server_fields epoll_new_def in_sync_def ctl_model_def)
  moreover have "pool_owns (tw_pool small_server) {0}"
    using hi_pool_ok(1) by (simp add: small_server_def new_server_fields buf_ok_def)
  ultimately have "\<exists>w' c s. accept_one (ctl_model 8) 50 9 small_server = Inr w' \<and> conn_ok (tw_next small_server) c w' {0} \<and> write_interest c w' \<and>
     tc_loop c = 1 \<and> tc_fd c = 9 \<and> 9 \<in> tw_open_fds w' \<and> 9 \<in> tw_nonblock w' \<and> contents (tc_obuf c) (tw_pool w') = [] \<and>
     ts_tcp_connections w' = ts_tcp_connections small_server @ [tw_next small_server] \<and>
     tw_connected_calls w' = tw_connected_calls small_server @ (if ts_connected_cb small_server then [tw_next small_server] else []) \<and>
     hm_is_key_exist (tc_timer_id c) (tm_id_state_map (ts_timer w')) \<and> s \<in> set (tm_queue (ts_timer w')) \<and>
     tn_id s = tc_timer_id c \<and> tn_callback s = tw_next small_server \<and> tn_tm_point s = 50 + ts_tcp_conn_timout_ms small_server * 1000000"
    by (rule server_accepts[OF ctl_model_kernel])
  then show ?thesis by (auto simp: small_server_def new_server_fields)
qed

text \<open>
  C38. New connections are dealt to the worker loops round robin: the \<open>k\<close>-th call of
  \<^verbatim>\<open>get_next_loop\<close> from now gives the loop \<open>k\<close> places after the current one, modulo their number.
\<close>

theorem server_round_robin:
  assumes "ts_conn_loops w \<noteq> []"
  shows "next_loops m w =
     map (\<lambda>k. ts_conn_loops w ! nat ((ts_next_loop w + 1 + int k) mod int (length (ts_conn_loops w)))) [0..<m]"
  by (rule next_loops_eq[OF assms])

theorem server_round_robin_witness:
  "next_loops 5 (hi_world\<lparr>ts_conn_loops := [10, 11], ts_next_loop := - 1\<rparr>) = [10, 11, 10, 11, 10]"
  using server_round_robin[of "hi_world\<lparr>ts_conn_loops := [10, 11], ts_next_loop := - 1\<rparr>" 5]
  by (simp add: upt_rec)

text \<open>
  Closed connections stay in the server's list: every message appends the connection again, and
  closing removes one entry only. A connection that was accepted once and got \<open>n\<close> messages leaves \<open>n\<close>
  entries behind, shared pointers that keep it alive as long as the server.
\<close>

theorem server_keeps_closed_connections:
  assumes k: "epoll_kernel ctl" and c: "conn_ok i c w out" "in_sync (tw_pollers w (tc_loop c))"
    and once: "ts_tcp_connections w = [i]"
  shows "\<exists>w1 w2. messages ts i w = Inr w1 \<and> conn_do_close ctl i w1 = Inr w2 \<and>
     ts_tcp_connections w2 = replicate (length ts) i"
proof -
  have i: "tw_conns w i = Some c" using c(1) by (simp add: conn_ok_def)
  obtain w1 where w1: "messages ts i w = Inr w1" using messages_returns[of w i ts] i by auto
  obtain t where t: "conn_ok i (c\<lparr>tc_timer_id := t\<rparr>) w1 out" "tw_pollers w1 = tw_pollers w"
    using conn_same[OF c(1) messages_same[OF w1]] by metis
  moreover have "in_sync (tw_pollers w1 (tc_loop (c\<lparr>tc_timer_id := t\<rparr>)))" using c(2) t(2) by simp
  ultimately obtain w2 where "conn_do_close ctl i w1 = Inr w2" "ts_tcp_connections w2 = remove1 i (ts_tcp_connections w1)"
    using conn_do_close_ok[OF k, of i "c\<lparr>tc_timer_id := t\<rparr>" w1 out] by auto
  then show ?thesis using w1 messages_append[OF w1] once by simp
qed

theorem server_keeps_closed_connections_witness:
  "\<exists>w1 w2. messages [5, 6, 7] 1 hi_world = Inr w1 \<and> conn_do_close (ctl_model 8) 1 w1 = Inr w2 \<and> ts_tcp_connections w2 = [1, 1, 1]"
proof -
  have "ts_tcp_connections hi_world = [1]" by (simp add: hi_world_def)
  from server_keeps_closed_connections[OF ctl_model_kernel[of 8] hi_world_ok(1,4) this, of "[5, 6, 7]"]
  show ?thesis by (simp add: numeral_3_eq_3)
qed

text \<open>
  C19. A message restarts the idle timer: the old timer is cancelled, the new one is live, due one
  timeout after the message, and recorded in the connection.
\<close>

theorem server_message_restarts_timer:
  assumes "tw_conns w i = Some c" "tc_timer_id c \<noteq> sint (tm_id (ts_timer w))"
  shows "\<exists>w' c' s. update_conn_timeout_time now i w = Inr w' \<and> tw_conns w' i = Some c' \<and>
     \<not> hm_is_key_exist (tc_timer_id c) (tm_id_state_map (ts_timer w')) \<and>
     hm_is_key_exist (tc_timer_id c') (tm_id_state_map (ts_timer w')) \<and>
     s \<in> set (tm_queue (ts_timer w')) \<and> tn_id s = tc_timer_id c' \<and> tn_callback s = i \<and>
     tn_tm_point s = now + ts_tcp_conn_timout_ms w * 1000000"
proof -
  let ?tm = "tm_cancel (tc_timer_id c) (ts_timer w)"
  have tid: "tm_id ?tm = tm_id (ts_timer w)" by (simp add: tm_cancel_def)
  let ?r = "run_after now (ts_tcp_conn_timout_ms w) False i ?tm"
  have run: "update_conn_timeout_time now i w =
      Inr (w\<lparr>ts_timer := snd ?r, tw_conns := (tw_conns w)(i \<mapsto> c\<lparr>tc_timer_id := fst ?r\<rparr>),
             ts_tcp_connections := ts_tcp_connections w @ [i]\<rparr>)"
    using assms(1) by (cases ?r) (simp add: update_conn_timeout_time_def add_new_tcp_conn_def)
  have id: "fst ?r = sint (tm_id (ts_timer w))" by (simp add: run_after_def tm_register_def tid Let_def)
  have "tm_id_state_map (snd ?r) = hm_emplace (fst ?r) Running_state (tm_id_state_map ?tm)"
    by (simp add: run_after_def tm_register_def Let_def)
  moreover have "\<not> hm_is_key_exist (tc_timer_id c) (tm_id_state_map ?tm)" by (simp add: tm_cancel_def hm_facts)
  ultimately have "hm_is_key_exist (fst ?r) (tm_id_state_map (snd ?r))"
      "\<not> hm_is_key_exist (tc_timer_id c) (tm_id_state_map (snd ?r))"
    using assms(2) id by (simp_all add: hm_facts)
  moreover have "\<exists>s \<in> set (tm_queue (snd ?r)). tn_id s = fst ?r \<and> tn_callback s = i \<and>
      tn_tm_point s = now + ts_tcp_conn_timout_ms w * 1000000"
    by (simp add: run_after_def tm_register_def Let_def)
  ultimately show ?thesis unfolding run by auto
qed

theorem server_message_restarts_timer_witness:
  "\<exists>w' c' s. update_conn_timeout_time 50 1 (hi_world\<lparr>tw_conns := [1 \<mapsto> hi_conn\<lparr>tc_timer_id := 7\<rparr>]\<rparr>) = Inr w' \<and> tw_conns w' 1 = Some c' \<and>
     s \<in> set (tm_queue (ts_timer w')) \<and> tn_id s = tc_timer_id c' \<and> tn_tm_point s = 6000000050"
proof -
  let ?w = "hi_world\<lparr>tw_conns := [1 \<mapsto> hi_conn\<lparr>tc_timer_id := 7\<rparr>]\<rparr>"
  have "tm_id (ts_timer ?w) = 0" by (simp add: hi_world_def timer_new_def threadpool_new_def)
  then have "tc_timer_id (hi_conn\<lparr>tc_timer_id := 7\<rparr>) \<noteq> sint (tm_id (ts_timer ?w))" by simp
  moreover have "tw_conns ?w 1 = Some (hi_conn\<lparr>tc_timer_id := 7\<rparr>)" by simp
  ultimately show ?thesis
    using server_message_restarts_timer[of ?w 1 "hi_conn\<lparr>tc_timer_id := 7\<rparr>" 50] by (auto simp: hi_world_def)
qed

text \<open>
  The accept loop ends only when \<^verbatim>\<open>accept\<close> answers \<^verbatim>\<open>EAGAIN\<close>; every other answer, an unexpected
  error included, is followed by another call. The listening socket is created without
  \<^verbatim>\<open>SOCK_NONBLOCK\<close>, so the kernel blocks where it would answer \<^verbatim>\<open>EAGAIN\<close>, and the acceptor's event loop
  stays in the first call of \<^verbatim>\<open>do_accept\<close>.
\<close>

theorem do_accept_needs_eagain:
  assumes "Accept_eagain \<notin> set answers"
  shows "\<exists>e. do_accept ctl answers w = Inl e"
  using assms
proof (induction answers arbitrary: w)
  case (Cons a as)
  then show ?case
  proof (cases a)
    case (Accept_fd connfd now)
    then show ?thesis using Cons by (cases "accept_one ctl now connfd w") auto
  qed auto
qed simp

theorem do_accept_needs_eagain_witness:
  "\<exists>e. do_accept (ctl_model 8) [Accept_eintr, Accept_error 103] new_server = Inl e"
  by (rule do_accept_needs_eagain) simp

end
