(* ===== verification/Echo.thy ===== *)
theory Echo
  imports Tcp_Server
begin

text \<open>
  The example servers, src/net/tests/echo_server.cpp and http_for_bench.cpp: their message callbacks
  behind the server's, and their \<^verbatim>\<open>main\<close>. What the server needs of a message callback, and what it makes of
  it, is the locale \<open>message_app\<close>, interpreted on both. The lemmas follow a connection through any sequence
  of its readable and writable events.
\<close>

section \<open>The message callback\<close>

text \<open>\<^verbatim>\<open>string(msg, msg + len)\<close>, given the memory from \<^verbatim>\<open>msg\<close> on; the bytes must have been written.\<close>

definition string_from :: "bytes option \<Rightarrow> int \<Rightarrow> string result" where
  "string_from msg len =
     (case msg of
        None \<Rightarrow> if len = 0 then Inr [] else Inl (Undefined Bad_pointer)
      | Some bs \<Rightarrow> rbind (mem_read 0 len bs) (\<lambda>cs.
          if None \<in> set cs then Inl (Undefined Uninitialised) else Inr (map the cs)))"

definition echo_message_cb :: "epoll_ctl \<Rightarrow> nat \<Rightarrow> 'a tcp_world_scheme \<Rightarrow> 'a tcp_world_scheme result" where
  "echo_message_cb ctl i w =
     rbind (get_conn i w) (\<lambda>c.
     rbind (get_from_buf (tc_ibuf c) (tw_pool w)) (\<lambda>msg.
     rbind (buf_length (tc_ibuf c) (tw_pool w)) (\<lambda>len.
     rbind (string_from msg len) (\<lambda>msg_str.
     rbind (buf_pop len (tc_ibuf c) (tw_pool w)) (\<lambda>(b, mp).
     rbind (ibuf_adjust b mp) (\<lambda>mp.
     let w = set_conn i (c\<lparr>tc_ibuf := b\<rparr>) (w\<lparr>tw_pool := mp\<rparr>) in
     rbind (conn_send ctl i msg_str (int (length msg_str)) w) (\<lambda>(_, w). Inr w)))))))"

text \<open>The other example, src/net/tests/http\_for\_bench.cpp: it answers with a fixed page.\<close>

definition return_msg :: string where
  "return_msg = ''HTTP/1.1 200 OK'' @ [CHR 0x0D, CHR 0x0A, CHR 0x0D, CHR 0x0A] @
     ''<html><head><title>my title</title><body>Hello World!</body></head></html>''"

definition http_message_cb :: "epoll_ctl \<Rightarrow> nat \<Rightarrow> 'a tcp_world_scheme \<Rightarrow> 'a tcp_world_scheme result" where
  "http_message_cb ctl i w =
     rbind (get_conn i w) (\<lambda>c.
     rbind (get_from_buf (tc_ibuf c) (tw_pool w)) (\<lambda>msg.
     rbind (buf_length (tc_ibuf c) (tw_pool w)) (\<lambda>len.
     rbind (string_from msg len) (\<lambda>msg_str.
     rbind (buf_pop len (tc_ibuf c) (tw_pool w)) (\<lambda>(b, mp).
     rbind (ibuf_adjust b mp) (\<lambda>mp.
     let w = set_conn i (c\<lparr>tc_ibuf := b\<rparr>) (w\<lparr>tw_pool := mp\<rparr>) in
     rbind (conn_send ctl i return_msg (int (length return_msg)) w) (\<lambda>(_, w). Inr w)))))))"

section \<open>The example servers\<close>

text \<open>
  The constructor of \<^verbatim>\<open>EchoServer\<close> sets the three callbacks, \<^verbatim>\<open>start\<close> the number of threads; \<^verbatim>\<open>main\<close> of both
  examples makes the base loop, the server with a timeout of 8 s, and starts it. Descriptors and
  outcomes of the system calls are given, and the value found in \<^verbatim>\<open>ts_started\<close>, which nothing initialises.
  The start of the logger is left out; the loop that \<^verbatim>\<open>main\<close> ends in is that of \<open>Event_Loop\<close>.
\<close>

record main_env =
  me_pool :: mempool
  me_base :: "int \<times> int"             \<comment> \<open>\<^verbatim>\<open>epoll_create1\<close> and \<^verbatim>\<open>eventfd\<close> of the base loop\<close>
  me_idle :: int
  me_listen :: int
  me_bound :: bool
  me_started :: bool
  me_loops :: "(int \<times> int \<times> nat) list" \<comment> \<open>the same for each worker loop, and how many tasks the pool takes in its turn\<close>
  me_listen_ok :: bool

definition example_new :: "mempool \<Rightarrow> (nat \<Rightarrow> tcp_cb epoll) \<Rightarrow> int set \<Rightarrow> int \<Rightarrow> int \<Rightarrow> bool \<Rightarrow> tcp_server result" where
  "example_new mp pollers fds idle_fd listen_fd bound =
     rbind (server_new mp pollers fds idle_fd listen_fd bound) (\<lambda>w.
     Inr (set_close_cb True (set_message_cb True (set_connected_cb True w))))"

definition example_start :: "epoll_ctl \<Rightarrow> (int \<times> int \<times> nat) list \<Rightarrow> bool \<Rightarrow> int \<Rightarrow> 'a tcp_server_scheme \<Rightarrow> 'a tcp_server_scheme result" where
  "example_start ctl fds listen_ok thread_num w = server_start ctl fds listen_ok (set_thread_num thread_num w)"

definition example_main :: "epoll_ctl \<Rightarrow> int \<Rightarrow> main_env \<Rightarrow> tcp_server result" where
  "example_main ctl thread_num e =
     rbind (loop_poller ctl Evfd_read_cb (fst (me_base e)) (snd (me_base e))) (\<lambda>ep.
     rbind (example_new (me_pool e) (\<lambda>_. ep) {fst (me_base e), snd (me_base e)} (me_idle e) (me_listen e) (me_bound e)) (\<lambda>w.
     let w = set_tcp_conn_timeout_ms 8000 (w\<lparr>ts_started := Some (me_started e)\<rparr>) in
     example_start ctl (me_loops e) (me_listen_ok e) thread_num w))"

definition echo_main :: "epoll_ctl \<Rightarrow> main_env \<Rightarrow> tcp_server result" where
  "echo_main ctl e = example_main ctl 2 e"

definition http_main :: "epoll_ctl \<Rightarrow> main_env \<Rightarrow> tcp_server result" where
  "http_main ctl e = example_main ctl 4 e"

section \<open>One connection\<close>

text \<open>What the poller does with the connection: readable, at a time, with the answers of \<^verbatim>\<open>ioctl\<close> and \<^verbatim>\<open>read\<close>;
  writable, with the answers of the \<^verbatim>\<open>write\<close> calls. A closed connection has no more events.\<close>

datatype io = Readable int int "read_answer list" | Writable "write_answer list list"

fun echo_io :: "epoll_ctl \<Rightarrow> io \<Rightarrow> nat \<Rightarrow> 'a tcp_world_scheme \<Rightarrow> 'a tcp_world_scheme result" where
  "echo_io ctl (Readable now n answers) i w =
     conn_do_read ctl (server_message_cb now (echo_message_cb ctl)) (Some n) answers i w"
| "echo_io ctl (Writable answers) i w = conn_do_write ctl answers i w"

fun echo_run :: "epoll_ctl \<Rightarrow> io list \<Rightarrow> nat \<Rightarrow> 'a tcp_world_scheme \<Rightarrow> 'a tcp_world_scheme result" where
  "echo_run ctl [] i w = Inr w"
| "echo_run ctl (e # es) i w =
     rbind (get_conn i w) (\<lambda>c.
     if tc_fd c = - 1 then Inr w
     else rbind (echo_io ctl e i w) (\<lambda>w. echo_run ctl es i w))"

text \<open>The stream \<open>s\<close> has been received: what was sent and what is pending make it up.\<close>

definition echo_state :: "nat \<Rightarrow> 'a tcp_world_scheme \<Rightarrow> string \<Rightarrow> bool" where
  "echo_state i w s \<longleftrightarrow> (\<exists>c out. conn_ok i c w out \<and> tc_ibuf c = None \<and> tc_fd c \<noteq> - 1 \<and> write_interest c w \<and>
     tw_sent w i @ contents (tc_obuf c) (tw_pool w) = map Some s) \<and> ts_msg_cb w"

definition echo_closed :: "nat \<Rightarrow> 'a tcp_world_scheme \<Rightarrow> string \<Rightarrow> bool" where
  "echo_closed i w s \<longleftrightarrow> (\<exists>c. tw_conns w i = Some c \<and> tc_fd c = - 1) \<and> (\<exists>rest. tw_sent w i @ rest = map Some s)"

fun io_bytes :: "io \<Rightarrow> string" where
  "io_bytes (Readable now n answers) = (case read_retry answers of Inr (Read_ok ready) \<Rightarrow> take (nat n) ready | _ \<Rightarrow> [])"
| "io_bytes (Writable answers) = []"

text \<open>A read that is not empty and gets all the bytes reported; writes with enough answers.\<close>

fun io_ok :: "nat \<Rightarrow> io \<Rightarrow> bool" where
  "io_ok limit (Readable now n answers) \<longleftrightarrow> 0 < n \<and> length (io_bytes (Readable now n answers)) = nat n"
| "io_ok limit (Writable answers) \<longleftrightarrow> limit \<le> length answers \<and> (\<forall>as \<in> set answers. \<exists>ans. write_retry as = Inr ans)"

lemma map_Some_inj: "map Some xs = map Some ys \<longleftrightarrow> xs = ys"
  by (rule inj_map_eq_map) (simp add: inj_def)

lemma string_from_contents:
  assumes "buf_ok (Some a) mp out" "contents (Some a) mp = map Some bs"
  shows "\<exists>msg. get_from_buf (Some a) mp = Inr msg \<and> buf_length (Some a) mp = Inr (int (length bs)) \<and>
     string_from msg (int (length bs)) = Inr bs"
proof -
  obtain c where c: "st_heap mp a = Some c" "chunk_ok c" "int (length (contents (Some a) mp)) = ck_length c"
    using buf_chunk[OF assms(1)] by blast
  have l: "ck_length c = int (length bs)" using c(3) assms(2) by simp
  have "take (length bs) (drop (nat (ck_head c)) (ck_data c)) = map Some bs"
    using assms(2) c(1) l by (simp add: contents_def chunk_bytes_def)
  moreover have "int (length bs) \<le> int (length (drop (nat (ck_head c)) (ck_data c)))"
    using c(2) l by (auto simp: chunk_ok_def)
  ultimately have "string_from (Some (drop (nat (ck_head c)) (ck_data c))) (int (length bs)) = Inr bs"
    by (simp add: string_from_def mem_read_ok comp_def)
  then show ?thesis using c(1) l by (simp add: get_from_buf_def buf_length_def)
qed

section \<open>The contract of a message callback\<close>

text \<open>
  The callback takes the whole input and sends an answer: from a connection in order, with a message of at
  most 4 MB, it ends for lack of memory, or it touches this connection only, empties the input, and puts
  the answer behind the pending output, or nothing when the output would exceed 4 MB.
\<close>

definition answered :: "(string \<Rightarrow> string) \<Rightarrow> nat \<Rightarrow> addr set \<Rightarrow> string \<Rightarrow> tcp_conn \<Rightarrow> 'a tcp_world_scheme \<Rightarrow> tcp_conn \<Rightarrow> 'a tcp_world_scheme \<Rightarrow> bool" where
  "answered reply i out bs c w c' w' \<longleftrightarrow> touched i out c w c' w' \<and> tc_ibuf c' = None \<and> tc_fd c' = tc_fd c \<and> write_interest c' w' \<and>
     tw_sent w' = tw_sent w \<and> tw_message_calls w' = tw_message_calls w \<and>
     (contents (tc_obuf c') (tw_pool w') = contents (tc_obuf c) (tw_pool w) @ map Some (reply bs) \<or>
      contents (tc_obuf c') (tw_pool w') = contents (tc_obuf c) (tw_pool w) \<and>
        4194304 < length (reply bs) + length (contents (tc_obuf c) (tw_pool w)))"

locale message_app =
  fixes user :: "nat \<Rightarrow> 'a tcp_world_scheme \<Rightarrow> 'a tcp_world_scheme result" and reply :: "string \<Rightarrow> string"
  assumes answers: "conn_ok i c w out \<Longrightarrow> write_interest c w \<Longrightarrow> contents (tc_ibuf c) (tw_pool w) = map Some bs \<Longrightarrow> bs \<noteq> [] \<Longrightarrow>
     no_memory (user i w) \<or>
     (\<exists>c' w'. user i w = Inr w' \<and> answered reply i out bs c w c' w')"
begin

text \<open>The message callback that the server wraps around it restarts the idle timer first.\<close>

lemma server_answers:
  assumes c: "conn_ok i c w out" "write_interest c w" "contents (tc_ibuf c) (tw_pool w) = map Some bs" "bs \<noteq> []" and cb: "ts_msg_cb w"
  shows "no_memory (server_message_cb now user i w) \<or>
     (\<exists>c' w'. server_message_cb now user i w = Inr w' \<and> answered reply i out bs c w c' w')"
proof -
  obtain w1 where w1: "update_conn_timeout_time now i w = Inr w1" using update_returns[of w i now] c(1) by (auto simp: conn_ok_def)
  have sync: "in_sync (tw_pollers w (tc_loop c))" using c(2) by (simp add: write_interest_def)
  obtain t where t: "conn_ok i (c\<lparr>tc_timer_id := t\<rparr>) w1 out" "tw_pollers w1 = tw_pollers w" "tw_pool w1 = tw_pool w" "tw_sent w1 = tw_sent w"
      "tw_message_calls w1 = tw_message_calls w" "touched i out c w (c\<lparr>tc_timer_id := t\<rparr>) w1"
    using conn_same[OF c(1) update_same[OF w1]] sync by metis
  let ?c = "c\<lparr>tc_timer_id := t\<rparr>"
  have run: "server_message_cb now user i w = user i w1" using w1 cb touchedD(9)[OF t(6)] by (simp add: server_message_cb_def)
  have i: "write_interest ?c w1" "contents (tc_ibuf ?c) (tw_pool w1) = map Some bs" using c(2,3) t by (simp_all add: write_interest_def)
  have out: "out - bufs c \<union> bufs ?c = out" using bufs_swap(3)[OF c(1)] by (simp add: bufs_def)
  note trans = touched_trans[OF t(6), unfolded out]
  from answers[OF t(1) i c(4)] show ?thesis
  proof (elim disjE exE conjE)
    fix c' w'
    assume "user i w1 = Inr w'" "answered reply i out bs ?c w1 c' w'"
    moreover from this(2) have "touched i out c w c' w'" using trans[of c' w'] by (simp add: answered_def)
    ultimately show ?thesis using run t by (intro disjI2 exI[of _ c'] exI[of _ w']) (simp add: answered_def)
  qed (simp add: run)
qed

end

text \<open>The two callbacks take the message and send, in the same way, what \<open>reply\<close> makes of it.\<close>

definition answer_cb :: "epoll_ctl \<Rightarrow> (string \<Rightarrow> string) \<Rightarrow> nat \<Rightarrow> 'a tcp_world_scheme \<Rightarrow> 'a tcp_world_scheme result" where
  "answer_cb ctl reply i w =
     rbind (get_conn i w) (\<lambda>c.
     rbind (get_from_buf (tc_ibuf c) (tw_pool w)) (\<lambda>msg.
     rbind (buf_length (tc_ibuf c) (tw_pool w)) (\<lambda>len.
     rbind (string_from msg len) (\<lambda>msg_str.
     rbind (buf_pop len (tc_ibuf c) (tw_pool w)) (\<lambda>(b, mp).
     rbind (ibuf_adjust b mp) (\<lambda>mp.
     rbind (conn_send ctl i (reply msg_str) (int (length (reply msg_str))) (set_conn i (c\<lparr>tc_ibuf := b\<rparr>) (w\<lparr>tw_pool := mp\<rparr>)))
       (\<lambda>(_, w). Inr w)))))))"

lemma example_cbs: "echo_message_cb ctl = answer_cb ctl (\<lambda>msg. msg)" "http_message_cb ctl = answer_cb ctl (\<lambda>_. return_msg)"
  by (simp_all add: fun_eq_iff echo_message_cb_def http_message_cb_def answer_cb_def Let_def)

lemma answer_cb_app:
  assumes k: "epoll_kernel ctl" "ctl_accepts ctl" and reply: "\<And>bs. bs \<noteq> [] \<Longrightarrow> reply bs \<noteq> [] \<and> length (reply bs) \<le> max 4194304 (length bs)"
  shows "message_app (answer_cb ctl reply) reply"
proof
  fix i c bs and w :: "'a tcp_world_scheme" and out
  assume c: "conn_ok i c w out" "write_interest c w" and bs: "contents (tc_ibuf c) (tw_pool w) = map Some bs" "bs \<noteq> []"
  let ?old = "contents (tc_obuf c) (tw_pool w)"
  obtain a where a: "tc_ibuf c = Some a" using bs by (cases "tc_ibuf c") auto
  have ok: "tw_conns w i = Some c" "buf_ok (Some a) (tw_pool w) out" "buf_ok (tc_obuf c) (tw_pool w) out"
      "set_option (tc_obuf c) \<inter> set_option (tc_ibuf c) = {}"
    using c(1) a by (auto simp: conn_ok_def)
  obtain msg where msg: "get_from_buf (Some a) (tw_pool w) = Inr msg" "buf_length (Some a) (tw_pool w) = Inr (int (length bs))"
      "string_from msg (int (length bs)) = Inr bs"
    using string_from_contents[OF ok(2)] bs(1) a by auto
  obtain mp where mp: "buf_pop (int (length bs)) (Some a) (tw_pool w) = Inr (None, mp)" "buf_ok None mp (swapped out (Some a) None)"
      "others_same out (Some a) (tw_pool w) mp"
    using buf_pop_ok[OF ok(2), of "int (length bs)"] bs(1) a by auto
  let ?c = "c\<lparr>tc_ibuf := None\<rparr>" and ?w = "set_conn i (c\<lparr>tc_ibuf := None\<rparr>) (w\<lparr>tw_pool := mp\<rparr>)"
  have sync: "in_sync (tw_pollers w (tc_loop c))" using c(2) by (simp add: write_interest_def)
  have t: "touched i out c w ?c ?w" using mp a by (intro touched_ibuf[OF c(1) sync]) (simp_all add: fresh_for_def)
  have old: "contents (tc_obuf ?c) (tw_pool ?w) = ?old"
    using other_buffer[OF ok(3,4), of mp None] mp a by (simp add: set_conn_def buf_ok_def)
  have run: "answer_cb ctl reply i w = rbind (conn_send ctl i (reply bs) (int (length (reply bs))) ?w) (\<lambda>(_, w). Inr w)"
    using ok(1) a msg mp(1) by (simp add: answer_cb_def get_conn_def ibuf_adjust_def)
  have c1: "conn_ok i ?c ?w (out - bufs c \<union> bufs ?c)" by (rule touchedD(1)[OF t])
  have c2: "write_interest ?c ?w" using c(2) old by (simp add: write_interest_def set_conn_def)
  have "int (length (contents (tc_ibuf c) (tw_pool w))) \<le> 4194304" "int (length ?old) \<le> 4194304"
    using contents_bound ok(2,3) a by metis+
  then have fit: "int (length (reply bs)) + int (length (contents (tc_obuf ?c) (tw_pool ?w))) \<le> INT_MAX"
    using reply[OF bs(2)] bs(1) unfolding old by (simp add: max_def split: if_splits)
  from conn_send_cases[OF k c1 c2 _ fit]
  consider "no_memory (conn_send ctl i (reply bs) (int (length (reply bs))) ?w)"
    | "conn_send ctl i (reply bs) (int (length (reply bs))) ?w = Inr (False, ?w)" "4194304 < int (length (reply bs)) + int (length ?old)"
    | c' w' where "conn_send ctl i (reply bs) (int (length (reply bs))) ?w = Inr (True, w')" "write_interest c' w'"
        "contents (tc_obuf c') (tw_pool w') = ?old @ map Some (reply bs)" "c' = ?c\<lparr>tc_obuf := tc_obuf c'\<rparr>" "tw_sent w' = tw_sent ?w"
        "tw_message_calls w' = tw_message_calls ?w" "touched i (out - bufs c \<union> bufs ?c) ?c ?w c' w'"
    using reply[OF bs(2)] unfolding old by blast
  then show "no_memory (answer_cb ctl reply i w) \<or> (\<exists>c' w'. answer_cb ctl reply i w = Inr w' \<and> answered reply i out bs c w c' w')"
  proof cases
    case 1
    then show ?thesis using run by auto
  next
    case 2
    then show ?thesis using run t c2 old by (intro disjI2 exI[of _ ?c] exI[of _ ?w]) (simp add: answered_def set_conn_def)
  next
    case 3
    have "tc_ibuf c' = None" "tc_fd c' = tc_fd c" using arg_cong[OF 3(4), of tc_ibuf] arg_cong[OF 3(4), of tc_fd] by simp_all
    moreover have "touched i out c w c' w'" using touched_trans[OF t _ 3(7)] by simp
    ultimately show ?thesis using run 3 by (intro disjI2 exI[of _ c'] exI[of _ w']) (simp add: answered_def set_conn_def)
  qed
qed

lemma echo_app: "epoll_kernel ctl \<Longrightarrow> ctl_accepts ctl \<Longrightarrow> message_app (echo_message_cb ctl) (\<lambda>msg. msg)"
  unfolding example_cbs by (rule answer_cb_app) simp_all

lemma http_app: "epoll_kernel ctl \<Longrightarrow> ctl_accepts ctl \<Longrightarrow> message_app (http_message_cb ctl) (\<lambda>_. return_msg)"
  unfolding example_cbs by (rule answer_cb_app) (simp_all add: return_msg_def)

interpretation echo: message_app "echo_message_cb (ctl_model n)" "\<lambda>msg. msg" for n
  by (rule echo_app[OF ctl_model_kernel ctl_model_accepts])

interpretation http: message_app "http_message_cb (ctl_model n)" "\<lambda>_. return_msg" for n
  by (rule http_app[OF ctl_model_kernel ctl_model_accepts])

section \<open>One event\<close>

lemma echo_read_ok:
  assumes k: "epoll_kernel ctl" "ctl_accepts ctl" and e: "echo_state i w s" and io: "io_ok limit (Readable now n answers)"
    and fit: "int (length s) + n \<le> 4194304"
  shows "no_memory (echo_io ctl (Readable now n answers) i w) \<or>
     (\<exists>w'. echo_io ctl (Readable now n answers) i w = Inr w' \<and> echo_state i w' (s @ io_bytes (Readable now n answers)))"
proof -
  let ?cb = "server_message_cb now (echo_message_cb ctl)"
  obtain c out where c: "conn_ok i c w out" "tc_ibuf c = None" "tc_fd c \<noteq> - 1" "write_interest c w"
      "tw_sent w i @ contents (tc_obuf c) (tw_pool w) = map Some s" "ts_msg_cb w"
    using e by (auto simp: echo_state_def)
  obtain ready where ready: "read_retry answers = Inr (Read_ok ready)" "0 < n" "nat n \<le> length ready"
    using io by (auto split: sum.splits read_answer.splits)
  have al: "aligned (tc_ibuf c) (tw_pool w)" "in_sync (tw_pollers w (tc_loop c))" using c(2,4) by (auto simp: aligned_def write_interest_def)
  let ?bs = "take (nat n) ready"
  have bs: "take (if n = 0 then 4096 else nat n) ready = ?bs" "?bs \<noteq> []" "length ?bs = nat n" using ready by auto
  have pend: "length (contents (tc_obuf c) (tw_pool w)) \<le> length s" using arg_cong[OF c(5), of length] by simp
  have n: "0 \<le> n" "n + int (length (contents (tc_ibuf c) (tw_pool w))) \<le> INT_MAX" "n = 0 \<Longrightarrow> tc_ibuf c = None"
    using ready(2) fit c(2) by simp_all
  show ?thesis
  proof (rule conn_do_read_cases[OF k(1) c(1) al n ready(1), of ?cb])
    fix w' assume "take (if n = 0 then 4096 else nat n) ready = [] \<or> 4194304 < n + int (length (contents (tc_ibuf c) (tw_pool w)))"
    then show ?thesis using bs fit c(2) by auto
  next
    fix c1 w1
    assume run: "conn_do_read ctl ?cb (Some n) answers i w = ?cb i w1"
      and h: "has_read i out c (take (if n = 0 then 4096 else nat n) ready) w c1 w1"
    note f = has_read_fields[OF h, unfolded bs(1) c(2) contents_None append_Nil]
    have "write_interest c1 w1" "ts_msg_cb w1" using c(4,6) f(4-6,8) touchedD(9)[OF f(2)] by (simp_all add: write_interest_def)
    from message_app.server_answers[OF echo_app[OF k] f(1) this(1) f(3) bs(2) this(2), of now]
    show ?thesis
    proof (elim disjE exE conjE)
      fix c' w'
      assume w': "?cb i w1 = Inr w'" and a: "answered (\<lambda>msg. msg) i (out - bufs c \<union> bufs c1) ?bs c1 w1 c' w'"
      have "contents (tc_obuf c') (tw_pool w') = contents (tc_obuf c) (tw_pool w) @ map Some ?bs"
        using a f(4) bs(3) fit ready(2) pend unfolding answered_def by auto
      then have "tw_sent w' i @ contents (tc_obuf c') (tw_pool w') = map Some (s @ io_bytes (Readable now n answers))"
        using a f(7) c(5) ready(1) by (simp add: answered_def flip: append_assoc)
      moreover have t: "touched i (out - bufs c \<union> bufs c1) c1 w1 c' w'" using a by (simp add: answered_def)
      moreover have "tc_ibuf c' = None" "tc_fd c' \<noteq> - 1" "write_interest c' w'" "ts_msg_cb w'"
        using a c(3) f(5) touchedD(9)[OF t] \<open>ts_msg_cb w1\<close> by (simp_all add: answered_def)
      ultimately have "echo_state i w' (s @ io_bytes (Readable now n answers))"
        using touchedD(1)[OF t] unfolding echo_state_def by blast
      then show ?thesis using run w' by simp
    qed (use run in simp)
  qed (use bs in auto)
qed

lemma echo_write_ok:
  assumes k: "epoll_kernel ctl" "ctl_accepts ctl" and e: "echo_state i w s" and io: "io_ok limit (Writable answers)"
    and fit: "length s \<le> limit"
  shows "\<exists>w'. echo_io ctl (Writable answers) i w = Inr w' \<and> (echo_state i w' s \<or> echo_closed i w' s)"
proof -
  obtain c out where c: "conn_ok i c w out" "tc_ibuf c = None" "tc_fd c \<noteq> - 1" "write_interest c w"
      "tw_sent w i @ contents (tc_obuf c) (tw_pool w) = map Some s" "ts_msg_cb w"
    using e by (auto simp: echo_state_def)
  have "length (contents (tc_obuf c) (tw_pool w)) \<le> length answers"
    using arg_cong[OF c(5), of length] fit io by simp
  then obtain w' sent rest where w': "conn_do_write ctl answers i w = Inr w'" "tw_sent w' i = tw_sent w i @ sent"
      "sent @ rest = contents (tc_obuf c) (tw_pool w)"
      "conn_ok i c w' out \<and> contents (tc_obuf c) (tw_pool w') = rest \<and> write_interest c w' \<and> touched i out c w c w' \<or>
       tw_conns w' i = Some (closed_conn c)"
    using conn_do_write_cases[OF k c(1,4), of answers] io by auto
  have s: "tw_sent w' i @ rest = map Some s" using w'(2,3) c(5) by simp
  from w'(4) have "echo_state i w' s \<or> echo_closed i w' s"
  proof
    assume o: "conn_ok i c w' out \<and> contents (tc_obuf c) (tw_pool w') = rest \<and> write_interest c w' \<and> touched i out c w c w'"
    then have "ts_msg_cb w'" using touchedD(9) c(6) by blast
    then show ?thesis using c(2,3) s o unfolding echo_state_def by blast
  next
    assume "tw_conns w' i = Some (closed_conn c)"
    then show ?thesis using s unfolding echo_closed_def by (fastforce simp: closed_conn_def)
  qed
  then show ?thesis using w'(1) by simp
qed

section \<open>Any sequence of events\<close>

lemma echo_run_closed:
  assumes "echo_closed i w s"
  shows "echo_run ctl es i w = Inr w \<and> echo_closed i w (s @ later)"
proof -
  obtain rest where "tw_sent w i @ rest = map Some s" using assms by (auto simp: echo_closed_def)
  then have "tw_sent w i @ (rest @ map Some later) = map Some (s @ later)" by (simp flip: append_assoc)
  then have "\<exists>r. tw_sent w i @ r = map Some (s @ later)" by blast
  moreover obtain c where "tw_conns w i = Some c" "tc_fd c = - 1" using assms by (auto simp: echo_closed_def)
  ultimately show ?thesis unfolding echo_closed_def by (cases es) (auto simp: get_conn_def)
qed

lemma echo_run_ok:
  assumes k: "epoll_kernel ctl" "ctl_accepts ctl" and "limit \<le> 4194304"
    and "echo_state i w s" "\<forall>e \<in> set es. io_ok limit e" "length s + length (concat (map io_bytes es)) \<le> limit"
  shows "no_memory (echo_run ctl es i w) \<or>
     (\<exists>w'. echo_run ctl es i w = Inr w' \<and>
        (echo_state i w' (s @ concat (map io_bytes es)) \<or> echo_closed i w' (s @ concat (map io_bytes es))))"
  using assms(4-6)
proof (induction es arbitrary: w s)
  case Nil
  then show ?case by simp
next
  case (Cons e es)
  obtain c where c: "tw_conns w i = Some c" "tc_fd c \<noteq> - 1" using Cons.prems(1) by (auto simp: echo_state_def conn_ok_def)
  then have run: "echo_run ctl (e # es) i w = rbind (echo_io ctl e i w) (\<lambda>w. echo_run ctl es i w)" by (simp add: get_conn_def)
  have "no_memory (echo_io ctl e i w) \<or>
      (\<exists>w'. echo_io ctl e i w = Inr w' \<and> (echo_state i w' (s @ io_bytes e) \<or> echo_closed i w' (s @ io_bytes e)))"
  proof (cases e)
    case (Readable now n answers)
    have "length (io_bytes e) = nat n" "0 < n" using Cons.prems(2) Readable by auto
    then have "int (length s) + n \<le> 4194304" using Cons.prems(3) assms(3) by simp
    then show ?thesis using echo_read_ok[OF k Cons.prems(1), of limit now n answers] Cons.prems(2) Readable by auto
  next
    case (Writable answers)
    have "length s \<le> limit" using Cons.prems(3) by simp
    then show ?thesis using echo_write_ok[OF k Cons.prems(1), of limit answers] Cons.prems(2) Writable by auto
  qed
  then consider "no_memory (echo_io ctl e i w)" | w1 where "echo_io ctl e i w = Inr w1" "echo_state i w1 (s @ io_bytes e)"
    | w1 where "echo_io ctl e i w = Inr w1" "echo_closed i w1 (s @ io_bytes e)" by blast
  then show ?case
  proof cases
    case 1
    then show ?thesis using run by auto
  next
    case 2
    then show ?thesis using Cons.IH[OF 2(2)] Cons.prems(2,3) run by auto
  next
    case 3
    then show ?thesis using echo_run_closed[OF 3(2), of ctl es "concat (map io_bytes es)"] run by auto
  qed
qed

text \<open>A connection that was just accepted has received nothing.\<close>

lemma accept_echo_state:
  assumes "epoll_kernel ctl" "get_next_loop w = (Some l, w0)" "in_sync (tw_pollers w l)" "ep_event_map (tw_pollers w l) fd = None"
      "fst (ctl EPOLL_CTL_ADD fd EPOLLIN (ep_kernel (tw_pollers w l)))" "pool_owns (tw_pool w) out"
    and "fd \<noteq> - 1" "tw_sent w (tw_next w) = []" "ts_msg_cb w"
  shows "\<exists>w'. accept_one ctl now fd w = Inr w' \<and> echo_state (tw_next w) w' []"
proof -
  obtain w' c where "accept_one ctl now fd w = Inr w'" "conn_ok (tw_next w) c w' out" "tc_ibuf c = None" "write_interest c w'" "tc_fd c = fd"
      "contents (tc_obuf c) (tw_pool w') = []" "tw_sent w' = tw_sent w" "ts_msg_cb w' = ts_msg_cb w"
    using accept_one_ok[OF assms(1-6), of now] by blast
  then show ?thesis using assms(7-9) unfolding echo_state_def by auto
qed

end
