(* ===== verification/Reactor.thy ===== *)
theory Reactor
  imports Echo "HOL-Library.Sublist"
begin

text \<open>
  The running server, in its serial runs: the acceptor's thread, the worker loops, and the idle timer's
  callbacks act on any number of connections in any order, one callback at a time. The code does not enforce
  this: \<^verbatim>\<open>do_close\<close> from a thread of the timer takes no lock against the callbacks of the connection's loop, so
  callbacks can overlap, and then the properties of serial runs may fail (one way is shown at the end of
  \<open>Tcp_Conn\<close>). Between \<^verbatim>\<open>epoll_wait\<close> and the callbacks of its events a loop holds a batch; meanwhile the
  other threads go on. Only the loops that a thread of the pool runs take part: a thread has a loop when it
  took its task in time, see \<open>start_loops\<close>. The invariant speaks of all connections at once: the pool's chunks
  are exactly their buffers, each poller watches its own connections, and each stream of answers is that of
  the connection's own messages. The message callback is that of an example server, known only by its
  contract (locale \<open>message_app\<close>).
\<close>

section \<open>Callbacks and their environment\<close>

text \<open>What the clock and the kernel answer to one callback.\<close>

record io_env =
  io_now :: int
  io_fionread :: "int option"
  io_reads :: "read_answer list"
  io_writes :: "write_answer list list"
  io_accepts :: "accept_answer list"

text \<open>The callbacks registered with the pollers. That of the eventfd changes its counter only, see
  \<^const>\<open>evfd_read\<close>.\<close>

fun run_cb :: "epoll_ctl \<Rightarrow> (nat \<Rightarrow> 'a tcp_server_scheme \<Rightarrow> 'a tcp_server_scheme result) \<Rightarrow> (tcp_cb \<Rightarrow> io_env) \<Rightarrow>
    tcp_cb \<Rightarrow> 'a tcp_server_scheme \<Rightarrow> 'a tcp_server_scheme result" where
  "run_cb ctl user env Evfd_read_cb w = Inr w"
| "run_cb ctl user env Do_accept_cb w = do_accept ctl (io_accepts (env Do_accept_cb)) w"
| "run_cb ctl user env (Do_read_cb i) w =
     (let e = env (Do_read_cb i) in conn_do_read ctl (server_message_cb (io_now e) user) (io_fionread e) (io_reads e) i w)"
| "run_cb ctl user env (Do_write_cb i) w = conn_do_write ctl (io_writes (env (Do_write_cb i))) i w"

definition loop_dispatch :: "epoll_ctl \<Rightarrow> (nat \<Rightarrow> 'a tcp_server_scheme \<Rightarrow> 'a tcp_server_scheme result) \<Rightarrow> (tcp_cb \<Rightarrow> io_env) \<Rightarrow>
    nat \<Rightarrow> (int \<times> 32 word) list \<Rightarrow> 'a tcp_server_scheme \<Rightarrow> 'a tcp_server_scheme result" where
  "loop_dispatch ctl user env l = execute_cbs ctl (run_cb ctl user env) (\<lambda>w. tw_pollers w l) (\<lambda>ep. on_poller l (\<lambda>_. ep))"

definition loop_poll :: "epoll_ctl \<Rightarrow> (nat \<Rightarrow> 'a tcp_server_scheme \<Rightarrow> 'a tcp_server_scheme result) \<Rightarrow> (tcp_cb \<Rightarrow> io_env) \<Rightarrow>
    nat \<Rightarrow> (int \<times> 32 word) list option list \<Rightarrow> 'a tcp_server_scheme \<Rightarrow> (nat \<times> 'a tcp_server_scheme) result" where
  "loop_poll ctl user env l = poll ctl (run_cb ctl user env) (\<lambda>w. tw_pollers w l) (\<lambda>ep. on_poller l (\<lambda>_. ep))"

text \<open>
  The answers of the kernel that are considered: \<^verbatim>\<open>FIONREAD\<close> fails or gives a number that fits an \<^verbatim>\<open>int\<close>; a
  retried call is answered; and the writes of one callback are answered as often as a buffer can hold
  bytes. A read that gets some bytes, but fewer than \<^verbatim>\<open>FIONREAD\<close> announced, is short.
\<close>

definition env_ok :: "io_env \<Rightarrow> bool" where
  "env_ok e \<longleftrightarrow>
     (\<forall>n. io_fionread e = Some n \<longrightarrow> 0 \<le> n \<and> n \<le> INT_MAX \<and> (\<exists>ans. read_retry (io_reads e) = Inr ans)) \<and>
     (\<forall>as \<in> set (io_writes e). \<exists>ans. write_retry as = Inr ans) \<and> 4194304 \<le> length (io_writes e)"

definition short_read :: "io_env \<Rightarrow> bool" where
  "short_read e \<longleftrightarrow> (\<exists>n ready. io_fionread e = Some n \<and> read_retry (io_reads e) = Inr (Read_ok ready) \<and> ready \<noteq> [] \<and> length ready < nat n)"

text \<open>\<^verbatim>\<open>accept\<close> and \<^verbatim>\<open>open\<close> give descriptors that are not in use.\<close>

fun accept_ok :: "accept_answer \<Rightarrow> 'a tcp_server_scheme \<Rightarrow> bool" where
  "accept_ok (Accept_fd fd now) w \<longleftrightarrow> 0 \<le> fd \<and> fd \<notin> tw_open_fds w"
| "accept_ok (Accept_emfile idle2 idle3) w \<longleftrightarrow>
     idle2 \<notin> tw_open_fds w - {ac_idle_fd w} \<and> idle3 \<notin> tw_open_fds w - {ac_idle_fd w} \<and> - 1 \<le> idle3"
| "accept_ok _ w \<longleftrightarrow> True"

section \<open>Serial runs\<close>

text \<open>The world, and for each loop the events that \<^verbatim>\<open>epoll_wait\<close> reported and whose callbacks have not run. A step
  is the return of \<^verbatim>\<open>epoll_wait\<close> in a loop, the callback of one event, one turn of the accept loop, or a
  callback of the idle timer, each from its beginning to its end.\<close>

record srv =
  sv_world :: tcp_server
  sv_pending :: "nat \<Rightarrow> (int \<times> 32 word) list"

inductive serial_step :: "epoll_ctl \<Rightarrow> (nat \<Rightarrow> tcp_server \<Rightarrow> tcp_server result) \<Rightarrow> srv \<Rightarrow> srv \<Rightarrow> bool" for ctl user where
  sv_wait: "l \<in> set (ts_running (sv_world s)) \<Longrightarrow> sv_pending s l = [] \<Longrightarrow> distinct (map fst evs) \<Longrightarrow>
     (\<forall>fd \<in> set (map fst evs). ep_kernel (tw_pollers (sv_world s) l) fd \<noteq> None) \<Longrightarrow>
     serial_step ctl user s (s\<lparr>sv_pending := (sv_pending s)(l := evs)\<rparr>)"
| sv_dispatch: "l \<in> set (ts_running (sv_world s)) \<Longrightarrow> sv_pending s l = ev # evs \<Longrightarrow> (\<forall>cb. env_ok (env cb)) \<Longrightarrow>
     loop_dispatch ctl user env l [ev] (sv_world s) = Inr w \<Longrightarrow>
     serial_step ctl user s \<lparr>sv_world = w, sv_pending = (sv_pending s)(l := evs)\<rparr>"
| sv_accept: "accept_ok a (sv_world s) \<Longrightarrow> accept_turn ctl a (sv_world s) = Inr w \<Longrightarrow> serial_step ctl user s (s\<lparr>sv_world := w\<rparr>)"
| sv_timeout: "tw_conns (sv_world s) i \<noteq> None \<Longrightarrow> active_close ctl i (sv_world s) = Inr w \<Longrightarrow> serial_step ctl user s (s\<lparr>sv_world := w\<rparr>)"

text \<open>The state that \<^verbatim>\<open>main\<close> of an example with \<open>n\<close> threads leaves, on a fresh pool and with the descriptors that
  the kernel handed out.\<close>

definition env_fds :: "main_env \<Rightarrow> int list" where
  "env_fds e = [fst (me_base e), snd (me_base e), me_idle e, me_listen e] @ concat (map (\<lambda>(a, b, _). [a, b]) (me_loops e))"

definition srv_start :: "epoll_ctl \<Rightarrow> int \<Rightarrow> srv \<Rightarrow> bool" where
  "srv_start ctl n s \<longleftrightarrow> (\<exists>e budget nothrow. mempool_new budget nothrow = Inr (me_pool e) \<and> distinct (env_fds e) \<and> (\<forall>fd \<in> set (env_fds e). 0 \<le> fd) \<and>
     \<not> me_started e \<and> example_main ctl n e = Inr (sv_world s) \<and> sv_pending s = (\<lambda>_. []))"

section \<open>The invariant\<close>

text \<open>The bytes are the answers to the messages \<open>calls\<close>, whole and in order; answers are left out only when
  the answers to all messages exceed 4 MB.\<close>

definition streamed :: "(string \<Rightarrow> string) \<Rightarrow> bytes list \<Rightarrow> bytes \<Rightarrow> bool" where
  "streamed reply calls bs \<longleftrightarrow> (\<exists>msgs ms. calls = map (map Some) msgs \<and> subseq ms msgs \<and>
     (length (concat (map reply msgs)) \<le> 4194304 \<longrightarrow> ms = msgs) \<and> bs = map Some (concat (map reply ms)))"

definition chunks_held :: "'a tcp_world_scheme \<Rightarrow> addr set" where
  "chunks_held w = (\<Union>c \<in> ran (tw_conns w). bufs c)"

definition open_conn :: "(string \<Rightarrow> string) \<Rightarrow> nat \<Rightarrow> tcp_conn \<Rightarrow> 'a tcp_world_scheme \<Rightarrow> bool" where
  "open_conn reply i c w \<longleftrightarrow> tc_ibuf c = None \<and> tc_fd c \<in> tw_open_fds w \<and> write_interest c w \<and>
     cbs_ok i (ep_event_map (tw_pollers w (tc_loop c)) (tc_fd c)) \<and>
     streamed reply (tw_message_calls w i) (tw_sent w i @ contents (tc_obuf c) (tw_pool w))"

definition shut_conn :: "(string \<Rightarrow> string) \<Rightarrow> nat \<Rightarrow> tcp_conn \<Rightarrow> 'a tcp_world_scheme \<Rightarrow> bool" where
  "shut_conn reply i c w \<longleftrightarrow> bufs c = {} \<and> (\<exists>rest. streamed reply (tw_message_calls w i) (tw_sent w i @ rest))"

definition conn_inv :: "(string \<Rightarrow> string) \<Rightarrow> addr set \<Rightarrow> 'a tcp_world_scheme \<Rightarrow> nat \<Rightarrow> tcp_conn \<Rightarrow> bool" where
  "conn_inv reply out w i c \<longleftrightarrow> conn_ok i c w out \<and> i < tw_next w \<and> tc_loop c \<in> set (ts_conn_loops w) \<and>
     (if tc_fd c = - 1 then shut_conn reply i c w else open_conn reply i c w)"

text \<open>A worker's poller agrees with the kernel and watches its eventfd and its own open connections.\<close>

definition loop_inv :: "'a tcp_server_scheme \<Rightarrow> nat \<Rightarrow> bool" where
  "loop_inv w l \<longleftrightarrow> in_sync (tw_pollers w l) \<and>
     (\<forall>fd e. ep_event_map (tw_pollers w l) fd = Some e \<longrightarrow> fd \<in> tw_open_fds w \<and> fd \<noteq> ac_idle_fd w \<and>
        (read_callback e = Some Evfd_read_cb \<and> write_callback e = None \<and> (\<forall>i c. tw_conns w i = Some c \<longrightarrow> tc_fd c \<noteq> fd) \<or>
         (\<exists>i c. tw_conns w i = Some c \<and> tc_loop c = l \<and> tc_fd c = fd)))"

definition world_inv :: "(string \<Rightarrow> string) \<Rightarrow> 'a tcp_server_scheme \<Rightarrow> bool" where
  "world_inv reply w \<longleftrightarrow> pool_owns (tw_pool w) (chunks_held w) \<and>
     (\<forall>i c. tw_conns w i = Some c \<longrightarrow> conn_inv reply (chunks_held w) w i c) \<and>
     (\<forall>i j c d. i \<noteq> j \<longrightarrow> tw_conns w i = Some c \<longrightarrow> tw_conns w j = Some d \<longrightarrow> bufs c \<inter> bufs d = {} \<and> (tc_fd c = tc_fd d \<longrightarrow> tc_fd c = - 1)) \<and>
     (\<forall>l \<in> set (ts_conn_loops w). loop_inv w l) \<and> ts_conn_loops w \<noteq> [] \<and> - 1 \<notin> tw_open_fds w \<and> ts_msg_cb w \<and>
     (ac_idle_fd w = - 1 \<or> ac_idle_fd w \<in> tw_open_fds w) \<and> set (ts_running w) \<subseteq> set (ts_conn_loops w) \<and>
     (\<forall>i. tw_next w \<le> i \<longrightarrow> tw_conns w i = None \<and> tw_sent w i = [] \<and> tw_message_calls w i = [])"

lemma world_invD:
  assumes "world_inv reply w"
  shows "pool_owns (tw_pool w) (chunks_held w)" "tw_conns w i = Some c \<Longrightarrow> conn_inv reply (chunks_held w) w i c"
    "i \<noteq> j \<Longrightarrow> tw_conns w i = Some c \<Longrightarrow> tw_conns w j = Some d \<Longrightarrow> bufs c \<inter> bufs d = {}"
    "i \<noteq> j \<Longrightarrow> tw_conns w i = Some c \<Longrightarrow> tw_conns w j = Some d \<Longrightarrow> tc_fd c = tc_fd d \<Longrightarrow> tc_fd c = - 1"
    "l \<in> set (ts_conn_loops w) \<Longrightarrow> loop_inv w l" "ts_conn_loops w \<noteq> []" "- 1 \<notin> tw_open_fds w" "ts_msg_cb w"
    "tw_next w \<le> i \<Longrightarrow> tw_conns w i = None" "tw_next w \<le> i \<Longrightarrow> tw_sent w i = []" "tw_next w \<le> i \<Longrightarrow> tw_message_calls w i = []"
    "ac_idle_fd w = - 1 \<or> ac_idle_fd w \<in> tw_open_fds w" "l \<in> set (ts_running w) \<Longrightarrow> l \<in> set (ts_conn_loops w)"
  using assms unfolding world_inv_def by blast+

lemma loop_inv_entry:
  assumes "loop_inv w l" "ep_event_map (tw_pollers w l) fd = Some e"
  obtains (evfd) "read_callback e = Some Evfd_read_cb" "write_callback e = None" "\<forall>i c. tw_conns w i = Some c \<longrightarrow> tc_fd c \<noteq> fd"
    | (conn) i c where "tw_conns w i = Some c" "tc_loop c = l" "tc_fd c = fd"
proof -
  have "read_callback e = Some Evfd_read_cb \<and> write_callback e = None \<and> (\<forall>i c. tw_conns w i = Some c \<longrightarrow> tc_fd c \<noteq> fd) \<or>
      (\<exists>i c. tw_conns w i = Some c \<and> tc_loop c = l \<and> tc_fd c = fd)"
    using assms by (simp add: loop_inv_def)
  then show ?thesis by (elim disjE exE conjE) (rule evfd, assumption+, rule conn)
qed

section \<open>Streams\<close>

lemma streamed_start: "streamed reply [] []"
  by (simp add: streamed_def)

lemma streamed_answer:
  assumes "streamed reply calls bs"
  shows "streamed reply (calls @ [map Some m]) (bs @ map Some (reply m))"
proof -
  obtain msgs ms where m: "calls = map (map Some) msgs" "subseq ms msgs"
      "length (concat (map reply msgs)) \<le> 4194304 \<longrightarrow> ms = msgs" "bs = map Some (concat (map reply ms))"
    using assms by (auto simp: streamed_def)
  then show ?thesis unfolding streamed_def
    by (intro exI[of _ "msgs @ [m]"] exI[of _ "ms @ [m]"]) (auto simp: list_emb_append_mono)
qed

lemma streamed_refused:
  assumes "streamed reply calls (sent @ pending)" "4194304 < length (reply m) + length pending"
  shows "streamed reply (calls @ [map Some m]) (sent @ pending)"
proof -
  obtain msgs ms where m: "calls = map (map Some) msgs" "subseq ms msgs"
      "length (concat (map reply msgs)) \<le> 4194304 \<longrightarrow> ms = msgs" "sent @ pending = map Some (concat (map reply ms))"
    using assms(1) by (auto simp: streamed_def)
  have "length pending \<le> length (concat (map reply ms))" using arg_cong[OF m(4), of length] by simp
  then have "\<not> length (concat (map reply (msgs @ [m]))) \<le> 4194304" using m(3) assms(2) by auto
  then show ?thesis unfolding streamed_def using m(1,2,4)
    by (intro exI[of _ "msgs @ [m]"] exI[of _ ms]) (auto intro: list_emb_append2)
qed

section \<open>An operation on one connection keeps the invariant\<close>

lemma held_in: "tw_conns w i = Some c \<Longrightarrow> bufs c \<subseteq> chunks_held w"
  by (auto simp: chunks_held_def ran_def)

lemma held_touched:
  assumes inv: "world_inv reply w" "tw_conns w i = Some c" and t: "touched i (chunks_held w) c w c' w'"
  shows "chunks_held w' = chunks_held w - bufs c \<union> bufs c'"
proof -
  have i: "tw_conns w' i = Some c'" and o: "\<And>j. j \<noteq> i \<Longrightarrow> tw_conns w' j = tw_conns w j"
    using touchedD(1,4)[OF t] by (auto simp: conn_ok_def)
  have other: "bufs d \<subseteq> chunks_held w - bufs c" if "j \<noteq> i" "tw_conns w j = Some d" for j d
    using world_invD(3)[OF inv(1) that(1)[symmetric] inv(2) that(2)] held_in[OF that(2)] by blast
  show ?thesis
  proof (intro equalityI subsetI)
    fix a assume "a \<in> chunks_held w'"
    then obtain j d where "tw_conns w' j = Some d" "a \<in> bufs d" by (auto simp: chunks_held_def ran_def)
    then show "a \<in> chunks_held w - bufs c \<union> bufs c'" using i o other by (cases "j = i") auto
  next
    fix a assume "a \<in> chunks_held w - bufs c \<union> bufs c'"
    then consider "a \<in> bufs c'" | j d where "tw_conns w j = Some d" "a \<in> bufs d" "a \<notin> bufs c" by (auto simp: chunks_held_def ran_def)
    then show "a \<in> chunks_held w'"
    proof cases
      case 1
      then show ?thesis using held_in[of w' i c'] i by auto
    next
      case 2
      then have "j \<noteq> i" using inv(2) by auto
      then show ?thesis using 2 held_in[of w' j d] o by auto
    qed
  qed
qed

text \<open>The other connections are as before.\<close>

lemma others_kept:
  assumes inv: "world_inv reply w" "tw_conns w i = Some c" and t: "touched i (chunks_held w) c w c' w'" and d: "tw_conns w j = Some d" "j \<noteq> i"
  shows "conn_inv reply (chunks_held w') w' j d"
proof -
  have b: "bufs d \<subseteq> chunks_held w - bufs c" using world_invD(3)[OF inv(1) d(2)[symmetric] inv(2) d(1)] held_in[OF d(1)] by blast
  have cd: "conn_inv reply (chunks_held w) w j d" by (rule world_invD(2)[OF inv(1) d(1)])
  then have ok: "conn_ok j d w (chunks_held w)" by (simp add: conn_inv_def)
  note h = held_touched[OF inv t]
  have heap: "st_heap (tw_pool w') a = st_heap (tw_pool w) a" if "a \<in> bufs d" for a using touchedD(3)[OF t] that b by blast
  have same: "contents (tc_obuf d) (tw_pool w') = contents (tc_obuf d) (tw_pool w)" "aligned (tc_obuf d) (tw_pool w') \<longleftrightarrow> aligned (tc_obuf d) (tw_pool w)"
    using heap by (auto simp: contents_def aligned_def bufs_def split: option.splits)
  have owns: "pool_owns (tw_pool w') (chunks_held w')" using touchedD(1)[OF t] by (simp add: conn_ok_def buf_ok_def h)
  have ok': "conn_ok j d w' (chunks_held w')"
    using ok b owns same(2) touchedD(4)[OF t d(2)] unfolding conn_ok_def buf_ok_def h bufs_def by auto
  have fd: "tc_fd d \<noteq> - 1 \<Longrightarrow> tc_fd c \<noteq> tc_fd d" using world_invD(4)[OF inv(1) d(2) d(1) inv(2)] by auto
  have open': "open_conn reply j d w'" if op: "open_conn reply j d w" "tc_fd d \<noteq> - 1"
  proof -
    have e: "ep_event_map (tw_pollers w' (tc_loop d)) (tc_fd d) = ep_event_map (tw_pollers w (tc_loop d)) (tc_fd d)"
      using touchedD(13)[OF t, of "tc_loop d"] touchedD(14)[OF t, of "tc_fd d"] fd[OF op(2)] by (cases "tc_loop d = tc_loop c") auto
    have s: "in_sync (tw_pollers w (tc_loop d))" using op(1) by (simp add: open_conn_def write_interest_def)
    have s': "in_sync (tw_pollers w' (tc_loop d))"
      using touchedD(12,13)[OF t] s by (cases "tc_loop d = tc_loop c") auto
    have "ep_kernel (tw_pollers w' (tc_loop d)) (tc_fd d) = ep_kernel (tw_pollers w (tc_loop d)) (tc_fd d)"
      using s s' e by (simp add: in_sync_def)
    then have "write_interest d w'" using op(1) s' same(1) by (simp add: open_conn_def write_interest_def)
    moreover have "tc_fd d \<in> tw_open_fds w'" using t op(1) fd[OF op(2)] by (auto simp: touched_def open_conn_def split: if_splits)
    ultimately show ?thesis using op(1) e same(1) touchedD(5,6)[OF t d(2)] by (simp add: open_conn_def)
  qed
  have shut': "shut_conn reply j d w'" if "shut_conn reply j d w"
    using that touchedD(5,6)[OF t d(2)] by (simp add: shut_conn_def)
  show ?thesis using cd ok' open' shut' touchedD(7,8)[OF t] by (simp add: conn_inv_def)
qed

lemma more_same:
  assumes "tcp_world.more w' = tcp_world.more w"
  shows "ac_idle_fd w' = ac_idle_fd w" "ts_running w' = ts_running w"
  using assms by (cases w, cases w', simp)+

text \<open>An open connection is registered with its loop; only a descriptor in use is.\<close>

lemma open_registered:
  assumes "world_inv reply w" "tw_conns w i = Some c" "tc_fd c \<noteq> - 1"
  shows "ep_event_map (tw_pollers w (tc_loop c)) (tc_fd c) \<noteq> None" "tc_fd c \<in> tw_open_fds w" "tc_fd c \<noteq> ac_idle_fd w"
proof -
  have c: "conn_inv reply (chunks_held w) w i c" by (rule world_invD(2)[OF assms(1,2)])
  then show r: "ep_event_map (tw_pollers w (tc_loop c)) (tc_fd c) \<noteq> None" using assms(3)
    by (auto simp: conn_inv_def open_conn_def write_interest_def in_sync_def)
  have "loop_inv w (tc_loop c)" using c world_invD(5)[OF assms(1)] by (simp add: conn_inv_def)
  then show "tc_fd c \<in> tw_open_fds w" "tc_fd c \<noteq> ac_idle_fd w" using r unfolding loop_inv_def by blast+
qed

lemma shut_unregistered: "world_inv reply w \<Longrightarrow> l \<in> set (ts_conn_loops w) \<Longrightarrow> ep_event_map (tw_pollers w l) (- 1) = None"
  using world_invD(5,7) unfolding loop_inv_def by (metis option.exhaust)

lemma loop_kept:
  assumes inv: "world_inv reply w" "tw_conns w i = Some c" and t: "touched i (chunks_held w) c w c' w'" and l: "l \<in> set (ts_conn_loops w)"
  shows "loop_inv w' l"
proof -
  have li: "loop_inv w l" by (rule world_invD(5)[OF inv(1) l])
  have conns: "tw_conns w' = (tw_conns w)(i \<mapsto> c')" using touchedD(1,4)[OF t] by (auto simp: conn_ok_def)
  have idle: "ac_idle_fd w' = ac_idle_fd w" by (rule more_same(1)[OF touchedD(10)[OF t]])
  have cl: "tc_loop c \<in> set (ts_conn_loops w)" using world_invD(2)[OF inv] by (simp add: conn_inv_def)
  have fd: "tc_fd c' = tc_fd c \<and> tw_open_fds w' = tw_open_fds w \<or>
      tc_fd c' = - 1 \<and> tw_open_fds w' = tw_open_fds w - {tc_fd c} \<and> ep_event_map (tw_pollers w' (tc_loop c)) (tc_fd c) = None"
    using t by (auto simp: touched_def split: if_splits)
  have e: "ep_event_map (tw_pollers w l) f \<noteq> None \<and> (f = tc_fd c \<and> l = tc_loop c \<and> tc_fd c' = tc_fd c \<or>
      (l \<noteq> tc_loop c \<or> f \<noteq> tc_fd c) \<and> ep_event_map (tw_pollers w l) f = Some e)" if "ep_event_map (tw_pollers w' l) f = Some e" for f e
    using that fd touchedD(13)[OF t, of l] touchedD(14)[OF t, of f] t
    by (cases "l = tc_loop c"; cases "f = tc_fd c") (auto simp: touched_def entry_kept_def)
  have "f \<in> tw_open_fds w' \<and> f \<noteq> ac_idle_fd w' \<and>
      (read_callback e = Some Evfd_read_cb \<and> write_callback e = None \<and> (\<forall>j d. tw_conns w' j = Some d \<longrightarrow> tc_fd d \<noteq> f) \<or>
       (\<exists>j d. tw_conns w' j = Some d \<and> tc_loop d = l \<and> tc_fd d = f))" if e': "ep_event_map (tw_pollers w' l) f = Some e" for f e
  proof -
    have f: "f \<in> tw_open_fds w" "f \<noteq> ac_idle_fd w" "f \<noteq> - 1" using e[OF e'] li world_invD(7)[OF inv(1)] unfolding loop_inv_def by blast+
    show ?thesis
    proof (cases "f = tc_fd c \<and> l = tc_loop c")
      case True
      then have "tc_fd c' = tc_fd c" using e[OF e'] by blast
      then show ?thesis using True f fd idle conns touchedD(11)[OF t] by auto
    next
      case False
      then have old: "ep_event_map (tw_pollers w l) f = Some e" using e[OF e'] by blast
      from li old show ?thesis
      proof (cases rule: loop_inv_entry)
        case evfd
        then have "f \<noteq> tc_fd c" using inv(2) by blast
        then show ?thesis using evfd f fd idle conns by auto
      next
        case (conn j d)
        then have j: "j \<noteq> i" using False inv(2) by auto
        then have "f \<noteq> tc_fd c" using world_invD(4)[OF inv(1) j conn(1) inv(2)] conn(3) f(3) by auto
        then show ?thesis using conn j f fd idle conns by auto
      qed
    qed
  qed
  moreover have "in_sync (tw_pollers w' l)" using li touchedD(12,13)[OF t] by (cases "l = tc_loop c") (auto simp: loop_inv_def)
  ultimately show ?thesis unfolding loop_inv_def by blast
qed

lemma world_touched:
  assumes inv: "world_inv reply w" "tw_conns w i = Some c" and t: "touched i (chunks_held w) c w c' w'"
    and c': "tc_fd c' = - 1 \<Longrightarrow> shut_conn reply i c' w'" "tc_fd c' \<noteq> - 1 \<Longrightarrow> open_conn reply i c' w'"
  shows "world_inv reply w'"
proof -
  note h = held_touched[OF inv t]
  have conns: "tw_conns w' = (tw_conns w)(i \<mapsto> c')" using touchedD(1,4)[OF t] by (auto simp: conn_ok_def)
  have ok: "conn_ok i c' w' (chunks_held w')" using touchedD(1)[OF t] h by simp
  then have "pool_owns (tw_pool w') (chunks_held w')" by (simp add: conn_ok_def buf_ok_def)
  moreover have i: "i < tw_next w" "tc_loop c \<in> set (ts_conn_loops w)" using world_invD(2)[OF inv] by (auto simp: conn_inv_def)
  then have "conn_inv reply (chunks_held w') w' i c'" using ok c' touchedD(7,8,11)[OF t] by (simp add: conn_inv_def)
  then have "conn_inv reply (chunks_held w') w' j d" if "tw_conns w' j = Some d" for j d
    using that others_kept[OF inv t, of j d] conns by (cases "j = i") auto
  moreover have "bufs d \<inter> bufs d' = {} \<and> (tc_fd d = tc_fd d' \<longrightarrow> tc_fd d = - 1)"
    if "j \<noteq> j'" "tw_conns w' j = Some d" "tw_conns w' j' = Some d'" for j j' d d'
  proof -
    have new: "bufs d \<inter> bufs c' = {} \<and> (tc_fd d = tc_fd c' \<longrightarrow> tc_fd d = - 1)" if "j \<noteq> i" "tw_conns w j = Some d" for j d
    proof -
      have "bufs d \<subseteq> chunks_held w - bufs c" using world_invD(3)[OF inv(1) that(1)[symmetric] inv(2) that(2)] held_in[OF that(2)] by blast
      then have "bufs d \<inter> bufs c' = {}" using touchedD(2)[OF t] by blast
      moreover have "tc_fd c' = tc_fd c \<or> tc_fd c' = - 1" using t by (auto simp: touched_def split: if_splits)
      ultimately show ?thesis using world_invD(4)[OF inv(1) that(1) that(2) inv(2)] by auto
    qed
    show ?thesis
      using that new[of j d] new[of j' d'] world_invD(3,4)[OF inv(1) that(1), of d d'] unfolding conns
      by (cases "j = i"; cases "j' = i") auto
  qed
  moreover have "\<forall>l \<in> set (ts_conn_loops w'). loop_inv w' l" "ts_conn_loops w' \<noteq> []" "ts_msg_cb w'"
    using loop_kept[OF inv t] touchedD(8,9)[OF t] world_invD(6,8)[OF inv(1)] by simp_all
  moreover have "- 1 \<notin> tw_open_fds w'" using t world_invD(7)[OF inv(1)] by (auto simp: touched_def split: if_splits)
  moreover have "ac_idle_fd w' = - 1 \<or> ac_idle_fd w' \<in> tw_open_fds w'"
    using t world_invD(12)[OF inv(1)] more_same(1)[OF touchedD(10)[OF t]] open_registered(3)[OF inv]
    by (auto simp: touched_def split: if_splits)
  moreover have "set (ts_running w') \<subseteq> set (ts_conn_loops w')"
    using more_same(2)[OF touchedD(10)[OF t]] touchedD(8)[OF t] world_invD(13)[OF inv(1)] by auto
  moreover have "tw_conns w' j = None \<and> tw_sent w' j = [] \<and> tw_message_calls w' j = []" if "tw_next w' \<le> j" for j
  proof -
    have "j \<noteq> i" "tw_next w \<le> j" using that i(1) touchedD(7)[OF t] by auto
    then show ?thesis using touchedD(4,5,6)[OF t] world_invD(9,10,11)[OF inv(1)] by simp
  qed
  ultimately show ?thesis unfolding world_inv_def by blast
qed

section \<open>Every step of every thread keeps the invariant\<close>

lemma bufs_closed [simp]: "bufs (closed_conn c) = {}" "tc_fd (closed_conn c) = - 1"
  by (simp_all add: bufs_def closed_conn_def)

lemma conn_invD:
  assumes "world_inv reply w" "tw_conns w i = Some c"
  shows "conn_ok i c w (chunks_held w)" "in_sync (tw_pollers w (tc_loop c))" "tc_fd c \<noteq> - 1 \<Longrightarrow> open_conn reply i c w"
    "tc_fd c = - 1 \<Longrightarrow> shut_conn reply i c w" "tc_loop c \<in> set (ts_conn_loops w)"
proof -
  have c: "conn_inv reply (chunks_held w) w i c" by (rule world_invD(2)[OF assms])
  then show "conn_ok i c w (chunks_held w)" "tc_fd c \<noteq> - 1 \<Longrightarrow> open_conn reply i c w" "tc_fd c = - 1 \<Longrightarrow> shut_conn reply i c w"
      "tc_loop c \<in> set (ts_conn_loops w)"
    by (auto simp: conn_inv_def)
  show "in_sync (tw_pollers w (tc_loop c))" using c world_invD(5)[OF assms(1)] by (auto simp: conn_inv_def loop_inv_def)
qed

lemma shut_after_close:
  assumes inv: "world_inv reply w" "tw_conns w i = Some c" and same: "tw_sent w' = tw_sent w" "tw_message_calls w' = tw_message_calls w"
  shows "shut_conn reply i (closed_conn c) w'"
  using conn_invD(3,4)[OF inv] same by (cases "tc_fd c = - 1") (auto simp: shut_conn_def open_conn_def)

text \<open>What one event of connection \<open>i\<close> leads to; \<open>short\<close> says whether its read came back short.\<close>

definition event_kept :: "(string \<Rightarrow> string) \<Rightarrow> bool \<Rightarrow> nat \<Rightarrow> tcp_conn \<Rightarrow> 'a tcp_server_scheme \<Rightarrow> 'a tcp_server_scheme result \<Rightarrow> bool" where
  "event_kept reply short i c w r \<longleftrightarrow> no_memory r \<or> short \<and> r = Inl Assertion \<or>
     (\<exists>c' w'. r = Inr w' \<and> touched i (chunks_held w) c w c' w' \<and> world_inv reply w')"

lemma has_closed_kept:
  assumes inv: "world_inv reply w" "tw_conns w i = Some c" "tc_fd c \<noteq> - 1" and h: "has_closed i (chunks_held w) c w w'"
  shows "event_kept reply short i c w (Inr w')"
proof -
  have t: "touched i (chunks_held w) c w (closed_conn c) w'" using h inv(3) by (simp add: has_closed_def)
  have "shut_conn reply i (closed_conn c) w'" using h by (intro shut_after_close[OF inv(1,2)]) (simp_all add: has_closed_def)
  then have "world_inv reply w'" using world_touched[OF inv(1,2) t] by simp
  then show ?thesis using t by (auto simp: event_kept_def)
qed

lemma timeout_kept:
  assumes k: "epoll_kernel ctl" and inv: "world_inv reply w" "tw_conns w i = Some c"
  shows "\<exists>w'. conn_do_close ctl i w = Inr w' \<and> touched i (chunks_held w) c w (closed_conn c) w' \<and> world_inv reply w'"
proof -
  obtain w' where w': "conn_do_close ctl i w = Inr w'" "tw_sent w' = tw_sent w" "tw_message_calls w' = tw_message_calls w"
      "tc_fd c = - 1 \<longrightarrow> - 1 \<notin> tw_open_fds w \<longrightarrow> touched i (chunks_held w) c w (closed_conn c) w'"
      "tc_fd c \<noteq> - 1 \<longrightarrow> touched i (chunks_held w) c w (closed_conn c) w'"
    using conn_do_close_ok[OF k conn_invD(1,2)[OF inv]] by (elim exE conjE) (rule that)
  then have t: "touched i (chunks_held w) c w (closed_conn c) w'" using world_invD(7)[OF inv(1)] by blast
  have "world_inv reply w'" using world_touched[OF inv t] shut_after_close[OF inv w'(2,3)] by simp
  then show ?thesis using w'(1) t by blast
qed

lemma write_kept:
  assumes k: "epoll_kernel ctl" "ctl_accepts ctl" and inv: "world_inv reply w" "tw_conns w i = Some c" "tc_fd c \<noteq> - 1" and env: "env_ok e"
  shows "event_kept reply short i c w (conn_do_write ctl (io_writes e) i w)"
proof -
  have o: "open_conn reply i c w" by (rule conn_invD(3)[OF inv])
  then have wi: "write_interest c w" "tc_ibuf c = None" by (auto simp: open_conn_def)
  have c: "conn_ok i c w (chunks_held w)" by (rule conn_invD(1)[OF inv(1,2)])
  have "int (length (contents (tc_obuf c) (tw_pool w))) \<le> 4194304" using contents_bound c by (auto simp: conn_ok_def)
  then have ans: "\<forall>as \<in> set (io_writes e). \<exists>ans. write_retry as = Inr ans"
      "length (contents (tc_obuf c) (tw_pool w)) \<le> length (io_writes e)"
    using env by (auto simp: env_ok_def)
  obtain w' sent rest where w': "conn_do_write ctl (io_writes e) i w = Inr w'" "tw_sent w' i = tw_sent w i @ sent"
      "sent @ rest = contents (tc_obuf c) (tw_pool w)" "tw_message_calls w' = tw_message_calls w"
      "contents (tc_obuf c) (tw_pool w') = rest \<and> write_interest c w' \<and> touched i (chunks_held w) c w c w' \<or>
       touched i (chunks_held w) c w (closed_conn c) w'"
    using conn_do_write_cases[OF k c wi(1) ans] inv(3) by blast
  have s: "streamed reply (tw_message_calls w' i) (tw_sent w' i @ rest)" using o w'(2-4) by (simp add: open_conn_def)
  from w'(5) show ?thesis
  proof (elim disjE conjE)
    assume p: "contents (tc_obuf c) (tw_pool w') = rest" "write_interest c w'" "touched i (chunks_held w) c w c w'"
    have "open_conn reply i c w'" using o s p by (auto simp: open_conn_def touched_def entry_kept_def)
    then show ?thesis using world_touched[OF inv(1,2) p(3)] inv(3) p(3) w'(1) by (auto simp: event_kept_def)
  next
    assume t: "touched i (chunks_held w) c w (closed_conn c) w'"
    have "shut_conn reply i (closed_conn c) w'" using s by (auto simp: shut_conn_def)
    then show ?thesis using world_touched[OF inv(1,2) t] t w'(1) by (auto simp: event_kept_def)
  qed
qed

text \<open>Accepting: a new connection beside the others.\<close>

lemma next_loop_in:
  assumes "ts_conn_loops w \<noteq> []"
  obtains l w0 where "get_next_loop w = (Some l, w0)" "l \<in> set (ts_conn_loops w)"
proof -
  let ?n = "(ts_next_loop w + 1) mod int (length (ts_conn_loops w))"
  have "nat ?n < length (ts_conn_loops w)" using assms pos_mod_bound[of "int (length (ts_conn_loops w))" "ts_next_loop w + 1"]
      pos_mod_sign[of "int (length (ts_conn_loops w))" "ts_next_loop w + 1"] by (simp add: nat_less_iff)
  then show ?thesis using that[of "ts_conn_loops w ! nat ?n" "w\<lparr>ts_next_loop := ?n\<rparr>"] assms by (simp add: get_next_loop_def Let_def)
qed

lemma accept_one_fields:
  assumes "get_next_loop w = (Some l, w0)"
  obtains c w' where "accept_one ctl now fd w = Inr w'" "tc_loop c = l" "tc_fd c = fd" "tc_obuf c = None" "tc_ibuf c = None"
    "tw_conns w' = (tw_conns w)(tw_next w \<mapsto> c)" "tw_open_fds w' = insert fd (tw_open_fds w)" "tw_next w' = tw_next w + 1"
    "tw_pollers w' = (tw_pollers w)(l := epoll_add ctl fd EPOLLIN (Do_read_cb (tw_next w)) (tw_pollers w l))"
    "tw_pool w' = tw_pool w" "tw_sent w' = tw_sent w" "tw_message_calls w' = tw_message_calls w" "ts_conn_loops w' = ts_conn_loops w"
    "ts_msg_cb w' = ts_msg_cb w" "ac_idle_fd w' = ac_idle_fd w" "ts_running w' = ts_running w"
proof -
  let ?c = "\<lparr>tc_loop = l, tc_fd = fd, tc_timer_id = - 1, tc_obuf = None, tc_ibuf = None,
    tc_connected_cb = ts_connected_cb w, tc_close_cb = ts_close_cb w, tc_context = None\<rparr>"
  obtain n where run: "accept_one ctl now fd w = add_new_tcp_conn now (tw_next w) (accepted_world ctl fd l n ?c w)"
    using accept_one_run[OF assms] by blast
  let ?w = "accepted_world ctl fd l n ?c w" and ?r = "run_after now (ts_tcp_conn_timout_ms w) False (tw_next w) (ts_timer w)"
  let ?c' = "?c\<lparr>tc_timer_id := fst ?r\<rparr>"
  let ?w' = "?w\<lparr>ts_timer := snd ?r, tw_conns := (tw_conns ?w)(tw_next w \<mapsto> ?c'), ts_tcp_connections := ts_tcp_connections ?w @ [tw_next w]\<rparr>"
  have "accept_one ctl now fd w = Inr ?w'" using run by (cases ?r) (simp add: add_new_tcp_conn_def accepted_world_def)
  then show ?thesis by (rule that[where c = ?c']) (simp_all add: accepted_world_def)
qed

lemma accept_kept:
  assumes k: "roomy_kernel ctl" and inv: "world_inv reply w" and fd: "0 \<le> fd" "fd \<notin> tw_open_fds w"
  shows "\<exists>w' c. accept_one ctl now fd w = Inr w' \<and> world_inv reply w' \<and> tw_conns w' (tw_next w) = Some c \<and> tc_fd c = fd \<and>
     ts_conn_loops w' = ts_conn_loops w \<and> ts_running w' = ts_running w"
proof -
  have ek: "epoll_kernel ctl" using k by (simp add: roomy_kernel_def)
  obtain l w0 where l: "get_next_loop w = (Some l, w0)" "l \<in> set (ts_conn_loops w)" using next_loop_in[OF world_invD(6)[OF inv]] by metis
  obtain c w' where w': "accept_one ctl now fd w = Inr w'" "tc_loop c = l" "tc_fd c = fd" "tc_obuf c = None" "tc_ibuf c = None"
    "tw_conns w' = (tw_conns w)(tw_next w \<mapsto> c)" "tw_open_fds w' = insert fd (tw_open_fds w)" "tw_next w' = tw_next w + 1"
    "tw_pollers w' = (tw_pollers w)(l := epoll_add ctl fd EPOLLIN (Do_read_cb (tw_next w)) (tw_pollers w l))"
    "tw_pool w' = tw_pool w" "tw_sent w' = tw_sent w" "tw_message_calls w' = tw_message_calls w" "ts_conn_loops w' = ts_conn_loops w"
    "ts_msg_cb w' = ts_msg_cb w" "ac_idle_fd w' = ac_idle_fd w" "ts_running w' = ts_running w"
    by (rule accept_one_fields[OF l(1)])
  note eqs = w'(2-16)
  let ?i = "tw_next w" and ?ep = "epoll_add ctl fd EPOLLIN (Do_read_cb (tw_next w)) (tw_pollers w l)"
  have li: "loop_inv w l'" if "l' \<in> set (ts_conn_loops w)" for l' by (rule world_invD(5)[OF inv that])
  have new: "ep_event_map (tw_pollers w l') fd = None" if "l' \<in> set (ts_conn_loops w)" for l'
    using li[OF that] fd(2) unfolding loop_inv_def by (metis option.exhaust)
  have s: "in_sync (tw_pollers w l)" using li[OF l(2)] by (simp add: loop_inv_def)
  have "ep_kernel (tw_pollers w l) fd = None" using s new[OF l(2)] by (simp add: in_sync_def)
  then have watch: "in_sync ?ep" "ep_kernel ?ep fd = Some EPOLLIN"
    using poller_watch[OF ek s new[OF l(2)]] roomy_kernel.ctl_takes[OF k] by blast+
  have entry: "ep_event_map ?ep fd = Some \<lparr>ev_event = EPOLLIN, read_callback = Some (Do_read_cb ?i), write_callback = None\<rparr>"
    using new[OF l(2)] by (simp add: poller_add_frame add_entry_def map_entry_def final_events_def Let_def)
  have none: "tw_conns w ?i = None" "tw_sent w ?i = []" "tw_message_calls w ?i = []" using world_invD(9,10,11)[OF inv] by simp_all
  have b: "bufs c = {}" using eqs by (simp add: bufs_def)
  have h: "chunks_held w' = chunks_held w" using none(1) b by (simp add: chunks_held_def eqs ran_map_upd)
  have fds: "tc_fd d \<noteq> fd" if "tw_conns w j = Some d" for j d
    using open_registered(2)[OF inv that] fd by (cases "tc_fd d = - 1") auto
  have "conn_inv reply (chunks_held w') w' j d" if "tw_conns w' j = Some d" for j d
  proof (cases "j = ?i")
    case True
    then have d: "d = c" using that eqs by simp
    have "conn_ok ?i c w' (chunks_held w')" using world_invD(1)[OF inv] h by (simp add: conn_ok_def buf_ok_def aligned_def eqs)
    moreover have "open_conn reply ?i c w'" using watch entry none
      by (simp add: open_conn_def write_interest_def eqs cbs_ok_def streamed_start)
    ultimately show ?thesis using True d fd l(2) by (simp add: conn_inv_def eqs)
  next
    case False
    then have d: "tw_conns w j = Some d" using that eqs by simp
    have cd: "conn_inv reply (chunks_held w) w j d" by (rule world_invD(2)[OF inv d])
    have e: "ep_event_map (tw_pollers w' (tc_loop d)) (tc_fd d) = ep_event_map (tw_pollers w (tc_loop d)) (tc_fd d)"
      using fds[OF d] by (simp add: eqs poller_add_frame)
    have s': "in_sync (tw_pollers w' (tc_loop d))" "in_sync (tw_pollers w (tc_loop d))"
      using conn_invD(2)[OF inv d] watch by (simp_all add: eqs)
    then have "ep_kernel (tw_pollers w' (tc_loop d)) (tc_fd d) = ep_kernel (tw_pollers w (tc_loop d)) (tc_fd d)"
      using e by (simp add: in_sync_def)
    then have "open_conn reply j d w \<Longrightarrow> open_conn reply j d w'" using s' e by (simp add: open_conn_def write_interest_def eqs)
    moreover have "shut_conn reply j d w \<Longrightarrow> shut_conn reply j d w'" by (simp add: shut_conn_def eqs)
    ultimately show ?thesis using cd False h by (auto simp: conn_inv_def conn_ok_def eqs)
  qed
  moreover have "bufs d \<inter> bufs d' = {} \<and> (tc_fd d = tc_fd d' \<longrightarrow> tc_fd d = - 1)"
    if "j \<noteq> j'" "tw_conns w' j = Some d" "tw_conns w' j' = Some d'" for j j' d d'
    using that world_invD(3,4)[OF inv that(1), of d d'] fds[of j d] fds[of j' d'] b w'(3) unfolding w'(6)
    by (cases "j = ?i"; cases "j' = ?i") auto
  moreover have "loop_inv w' l'" if l': "l' \<in> set (ts_conn_loops w')" for l'
  proof -
    have "f \<in> tw_open_fds w' \<and> f \<noteq> ac_idle_fd w' \<and>
      (read_callback e = Some Evfd_read_cb \<and> write_callback e = None \<and> (\<forall>j d. tw_conns w' j = Some d \<longrightarrow> tc_fd d \<noteq> f) \<or>
       (\<exists>j d. tw_conns w' j = Some d \<and> tc_loop d = l' \<and> tc_fd d = f))" if e: "ep_event_map (tw_pollers w' l') f = Some e" for f e
    proof (cases "f = fd \<and> l' = l")
      case True
      have "fd \<noteq> ac_idle_fd w" using fd world_invD(12)[OF inv] by auto
      then show ?thesis using True by (auto simp: eqs)
    next
      case False
      have l0: "l' \<in> set (ts_conn_loops w)" using l' by (simp add: eqs)
      have old: "ep_event_map (tw_pollers w l') f = Some e" using e False by (auto simp: eqs poller_add_frame split: if_splits)
      then have f: "f \<in> tw_open_fds w" "f \<noteq> ac_idle_fd w" using li[OF l0] unfolding loop_inv_def by blast+
      from li[OF l0] old show ?thesis
      proof (cases rule: loop_inv_entry)
        case evfd
        then show ?thesis using f fd(2) by (auto simp: eqs)
      next
        case (conn j d)
        then have "j \<noteq> ?i" using none(1) by auto
        then show ?thesis using conn f by (auto simp: eqs)
      qed
    qed
    moreover have "in_sync (tw_pollers w' l')" using li[of l'] l' watch by (simp add: eqs loop_inv_def)
    ultimately show ?thesis unfolding loop_inv_def by blast
  qed
  moreover have "tw_conns w' j = None \<and> tw_sent w' j = [] \<and> tw_message_calls w' j = []" if "tw_next w' \<le> j" for j
    using that world_invD(9,10,11)[OF inv, of j] by (simp add: eqs)
  moreover have "pool_owns (tw_pool w') (chunks_held w')" "ts_conn_loops w' \<noteq> []" "- 1 \<notin> tw_open_fds w'" "ts_msg_cb w'"
      "ac_idle_fd w' = - 1 \<or> ac_idle_fd w' \<in> tw_open_fds w'" "set (ts_running w') \<subseteq> set (ts_conn_loops w')"
    using world_invD(1,6,7,8,12,13)[OF inv] h fd(1) by (auto simp: eqs)
  ultimately have "world_inv reply w'" unfolding world_inv_def by blast
  then show ?thesis using w'(1,3,6,13,16) by auto
qed

text \<open>When the process is out of descriptors the spare one is given up and taken again; no connection notices.\<close>

lemma emfile_kept:
  assumes inv: "world_inv reply w" and a: "accept_ok (Accept_emfile idle2 idle3) w"
  shows "\<exists>w'. accept_turn ctl (Accept_emfile idle2 idle3) w = Inr w' \<and> world_inv reply w'"
proof -
  define fds where "fds = (tw_open_fds w - {ac_idle_fd w} - {idle2}) \<union> (if idle3 \<ge> 0 then {idle3} else {})"
  let ?w = "w\<lparr>ac_idle_fd := idle3, tw_open_fds := fds\<rparr>"
  have keep: "f \<in> fds \<and> f \<noteq> idle3" if "f \<in> tw_open_fds w" "f \<noteq> ac_idle_fd w" for f using a that by (auto simp: fds_def)
  have h: "chunks_held ?w = chunks_held w" by (simp add: chunks_held_def)
  have "loop_inv ?w l" if "loop_inv w l" for l using that keep unfolding loop_inv_def by simp
  moreover have "conn_inv reply (chunks_held ?w) ?w i c" if i: "tw_conns w i = Some c" for i c
  proof -
    have "tc_fd c \<noteq> - 1 \<Longrightarrow> tc_fd c \<in> fds" using keep open_registered(2,3)[OF inv i] by blast
    then show ?thesis using world_invD(2)[OF inv i] unfolding h
      by (cases "tc_fd c = - 1") (auto simp: conn_inv_def conn_ok_def open_conn_def shut_conn_def write_interest_def)
  qed
  moreover have "- 1 \<notin> fds" "idle3 = - 1 \<or> idle3 \<in> fds" using world_invD(7)[OF inv] a by (auto simp: fds_def)
  ultimately have "world_inv reply ?w" using inv h unfolding world_inv_def by simp
  then show ?thesis by (simp add: fds_def)
qed

lemma accept_turn_kept:
  assumes "roomy_kernel ctl" "world_inv reply w" "accept_ok a w"
  shows "\<exists>w'. accept_turn ctl a w = Inr w' \<and> world_inv reply w'"
proof (cases a)
  case (Accept_fd fd now)
  then show ?thesis using accept_kept[OF assms(1,2), of fd now] assms(3) by auto
next
  case (Accept_emfile idle2 idle3)
  then show ?thesis using emfile_kept[OF assms(2), of idle2 idle3 ctl] assms(3) by blast
qed (use assms(2) in simp_all)

text \<open>
  How the dispatch of a batch may fail: for lack of memory, or in the assertion on a short read of a connection
  whose descriptor is in the batch; \<open>owner\<close> relates the descriptors to the connections.
\<close>

definition batch_fault :: "(tcp_cb \<Rightarrow> io_env) \<Rightarrow> (int \<times> nat) set \<Rightarrow> fault \<Rightarrow> bool" where
  "batch_fault env owner f \<longleftrightarrow> out_of_memory f \<or> f = Assertion \<and> (\<exists>(fd, i) \<in> owner. short_read (env (Do_read_cb i)))"

definition can_handle :: "(tcp_cb \<Rightarrow> io_env) \<Rightarrow> (int \<times> nat) set \<Rightarrow> int \<Rightarrow> 'a tcp_server_scheme \<Rightarrow> bool" where
  "can_handle env owner fd w \<longleftrightarrow> (\<forall>cb. env_ok (env cb)) \<and>
     (\<forall>i c. tw_conns w i = Some c \<longrightarrow> tc_fd c = fd \<longrightarrow> fd \<noteq> - 1 \<longrightarrow> (fd, i) \<in> owner)"

definition fd_conns :: "int set \<Rightarrow> 'a tcp_server_scheme \<Rightarrow> (int \<times> nat) set" where
  "fd_conns fds w = {(fd, i). fd \<in> fds \<and> (\<exists>c. tw_conns w i = Some c \<and> tc_fd c = fd)}"

lemma can_handle_conns: "\<forall>cb. env_ok (env cb) \<Longrightarrow> fd \<in> fds \<Longrightarrow> can_handle env (fd_conns fds w) fd w"
  by (simp add: can_handle_def fd_conns_def)

lemma batch_fault_conns:
  "batch_fault env (fd_conns fds w) f \<longleftrightarrow> out_of_memory f \<or>
     f = Assertion \<and> (\<exists>i c. tw_conns w i = Some c \<and> tc_fd c \<in> fds \<and> short_read (env (Do_read_cb i)))"
  by (auto simp: batch_fault_def fd_conns_def)

text \<open>A server with a message callback of the contract, on a kernel with room.\<close>

locale app_server = roomy_kernel ctl + message_app user reply
  for ctl :: epoll_ctl and user :: "nat \<Rightarrow> tcp_server \<Rightarrow> tcp_server result" and reply :: "string \<Rightarrow> string" +
  fixes threads :: int
  assumes threads: "0 < threads"
begin

lemma message_kept:
  assumes inv: "world_inv reply w" "tw_conns w i = Some c" "tc_fd c \<noteq> - 1" and h: "has_read i (chunks_held w) c bs w c1 w1" and bs: "bs \<noteq> []"
  shows "event_kept reply short i c w (server_message_cb now user i w1)"
proof -
  have o: "open_conn reply i c w" by (rule conn_invD(3)[OF inv])
  then have ib: "tc_ibuf c = None" by (simp add: open_conn_def)
  note f = has_read_fields[OF h, unfolded ib contents_None append_Nil]
  have "write_interest c1 w1" "ts_msg_cb w1"
    using o f(4-6,8) touchedD(9)[OF f(2)] world_invD(8)[OF inv(1)] by (simp_all add: open_conn_def write_interest_def)
  from server_answers[OF f(1) this(1) f(3) bs this(2), of now] show ?thesis
  proof (elim disjE exE conjE)
    fix c' w'
    assume w': "server_message_cb now user i w1 = Inr w'" and a: "answered reply i (chunks_held w - bufs c \<union> bufs c1) bs c1 w1 c' w'"
    have t: "touched i (chunks_held w) c w c' w'" using touched_trans[OF f(2,5)] a by (simp add: answered_def)
    have "tc_fd c' = tc_fd c" using a f(5) by (simp add: answered_def)
    moreover have "streamed reply (tw_message_calls w' i) (tw_sent w' i @ contents (tc_obuf c') (tw_pool w'))"
      using a f(3,4,7,9) o streamed_answer[of reply "tw_message_calls w i" "tw_sent w i @ contents (tc_obuf c) (tw_pool w)" bs]
        streamed_refused[of reply "tw_message_calls w i" "tw_sent w i" "contents (tc_obuf c) (tw_pool w)" bs]
      by (auto simp: answered_def open_conn_def)
    ultimately have "open_conn reply i c' w'"
      using a o t touchedD(11)[OF t] by (auto simp: open_conn_def answered_def touched_def entry_kept_def)
    then show ?thesis using world_touched[OF inv(1,2) t] \<open>tc_fd c' = tc_fd c\<close> inv(3) t w' by (auto simp: event_kept_def)
  qed (simp add: event_kept_def)
qed

lemma read_kept:
  assumes inv: "world_inv reply w" "tw_conns w i = Some c" "tc_fd c \<noteq> - 1" and env: "env_ok e"
  shows "event_kept reply (short_read e) i c w (conn_do_read ctl (server_message_cb (io_now e) user) (io_fionread e) (io_reads e) i w)"
proof -
  let ?cb = "server_message_cb (io_now e) user"
  have k: "epoll_kernel ctl" by (rule epoll_kernel_axioms)
  have ib: "tc_ibuf c = None" using conn_invD(3)[OF inv] by (simp add: open_conn_def)
  then have c: "conn_ok i c w (chunks_held w)" "aligned (tc_ibuf c) (tw_pool w)" "in_sync (tw_pollers w (tc_loop c))"
    using conn_invD(1,2)[OF inv(1,2)] by (simp_all add: aligned_def)
  consider (fail) "io_fionread e = None \<or> (\<exists>n err. io_fionread e = Some n \<and> n + int (length (contents (tc_ibuf c) (tw_pool w))) \<le> INT_MAX \<and>
        read_retry (io_reads e) = Inr (Read_err err))"
    | (read) n ready where "io_fionread e = Some n" "0 \<le> n" "n \<le> INT_MAX" "read_retry (io_reads e) = Inr (Read_ok ready)"
  proof (cases "io_fionread e")
    case None
    then show thesis using that(1) by simp
  next
    case (Some n)
    then obtain ans where ans: "0 \<le> n" "n \<le> INT_MAX" "read_retry (io_reads e) = Inr ans"
      using env by (auto simp: env_ok_def)
    show thesis
    proof (cases ans)
      case (Read_ok ready)
      then show thesis using that(2) Some ans by simp
    next
      case (Read_err err)
      then show thesis using that(1) Some ans ib by simp
    qed
  qed
  then show ?thesis
  proof cases
    case fail
    from conn_do_read_fails[OF k c fail, of ?cb] show ?thesis
      using has_closed_kept[OF inv] by (auto simp: event_kept_def)
  next
    case read
    have n: "n + int (length (contents (tc_ibuf c) (tw_pool w))) \<le> INT_MAX" "n = 0 \<Longrightarrow> tc_ibuf c = None" using read(3) ib by simp_all
    show ?thesis
    proof (rule conn_do_read_cases[OF k c read(2) n read(4), of ?cb])
      fix w' assume "conn_do_read ctl ?cb (Some n) (io_reads e) i w = Inr w'" "has_closed i (chunks_held w) c w w'"
      then show ?thesis using has_closed_kept[OF inv] read(1) by simp
    next
      fix c1 w1 assume "conn_do_read ctl ?cb (Some n) (io_reads e) i w = ?cb i w1" "take (if n = 0 then 4096 else nat n) ready \<noteq> []"
        "has_read i (chunks_held w) c (take (if n = 0 then 4096 else nat n) ready) w c1 w1"
      then show ?thesis using message_kept[OF inv] read(1) by simp
    qed (use read(1,4) in \<open>auto simp: event_kept_def short_read_def min_def split: if_splits\<close>)
  qed
qed

lemma dispatch_kept:
  assumes inv: "world_inv reply w" "l \<in> set (ts_running w)" and e: "ep_event_map (tw_pollers w l) fd = Some e" and can: "can_handle env owner fd w"
  shows "case dispatch_event ctl (run_cb ctl user env) (\<lambda>w. tw_pollers w l) (\<lambda>ep. on_poller l (\<lambda>_. ep)) fd events e w of
      Inl f \<Rightarrow> batch_fault env owner f
    | Inr w' \<Rightarrow> (world_inv reply w' \<and> l \<in> set (ts_running w')) \<and>
        (\<forall>fd'. fd' \<noteq> fd \<longrightarrow> ep_event_map (tw_pollers w' l) fd' = ep_event_map (tw_pollers w l) fd' \<and>
           (can_handle env owner fd' w \<longrightarrow> can_handle env owner fd' w'))"
  using world_invD(5)[OF inv(1) world_invD(13)[OF inv]] e
proof (cases rule: loop_inv_entry)
  case evfd
  then have "choose_cb events e = Run Evfd_read_cb \<or> choose_cb events e = Skip" by (auto simp: choose_cb_def)
  then show ?thesis using inv by auto
next
  case (conn i c)
  have op: "tc_fd c \<noteq> - 1" using shut_unregistered[OF inv(1) world_invD(13)[OF inv]] e conn(3) by auto
  have env: "env_ok (env cb)" for cb using can by (simp add: can_handle_def)
  have own: "(fd, i) \<in> owner" using can conn(1,3) op by (auto simp: can_handle_def)
  have "cbs_ok i (Some e)" using conn_invD(3)[OF inv(1) conn(1) op] conn e by (simp add: open_conn_def)
  then have "choose_cb events e \<in> {Run (Do_read_cb i), Run (Do_write_cb i), Skip}" by (auto simp: choose_cb_def cbs_ok_def)
  moreover have "event_kept reply (short_read (env (Do_read_cb i))) i c w (run_cb ctl user env (Do_read_cb i) w)"
    using read_kept[OF inv(1) conn(1) op env] by (simp add: Let_def)
  moreover have "event_kept reply (short_read (env (Do_read_cb i))) i c w (run_cb ctl user env (Do_write_cb i) w)"
    using write_kept[OF epoll_kernel_axioms accepts inv(1) conn(1) op env] by simp
  moreover have "event_kept reply (short_read (env (Do_read_cb i))) i c w (Inr w)"
    using inv(1) touched_refl[OF conn_invD(1,2)[OF inv(1) conn(1)]] by (auto simp: event_kept_def)
  ultimately have "event_kept reply (short_read (env (Do_read_cb i))) i c w
      (dispatch_event ctl (run_cb ctl user env) (\<lambda>w. tw_pollers w l) (\<lambda>ep. on_poller l (\<lambda>_. ep)) fd events e w)" (is "event_kept _ _ _ _ _ ?r")
    by auto
  then consider (fault) f where "?r = Inl f" "batch_fault env owner f"
    | (kept) c' w' where "?r = Inr w'" "touched i (chunks_held w) c w c' w'" "world_inv reply w'"
    using own unfolding event_kept_def batch_fault_def by fastforce
  then show ?thesis
  proof cases
    case kept
    have "tc_fd c' = tc_fd c \<or> tc_fd c' = - 1" using kept(2) by (auto simp: touched_def split: if_splits)
    then have "can_handle env owner fd' w'" if "can_handle env owner fd' w" "fd' \<noteq> fd" for fd'
      using that touchedD(1,4)[OF kept(2)] conn(3) unfolding can_handle_def conn_ok_def by (metis option.inject)
    then show ?thesis unfolding kept(1) using kept(3) more_same(2)[OF touchedD(10)[OF kept(2)]] touchedD(14)[OF kept(2)] inv(2) conn by simp
  qed simp
qed

end

text \<open>The worker loops dispatch to callbacks of the dispatcher's contract.\<close>

sublocale app_server \<subseteq> loop: dispatcher ctl "run_cb ctl user env" "\<lambda>w. tw_pollers w l" "\<lambda>ep. on_poller l (\<lambda>_. ep)"
    "\<lambda>w. world_inv reply w \<and> l \<in> set (ts_running w)" "can_handle env owner" "batch_fault env owner"
  for env l owner
  by unfold_locales (rule dispatch_kept; simp)

section \<open>The start\<close>

text \<open>While \<^verbatim>\<open>start\<close> makes the loops there are no connections.\<close>

definition boot_inv :: "'a tcp_server_scheme \<Rightarrow> bool" where
  "boot_inv w \<longleftrightarrow> tw_conns w = Map.empty \<and> tw_sent w = (\<lambda>_. []) \<and> tw_message_calls w = (\<lambda>_. []) \<and> pool_owns (tw_pool w) {} \<and>
     (\<forall>l \<in> set (ts_conn_loops w). loop_inv w l \<and> 0 < l \<and> l < ts_loops_made w) \<and> 0 < ts_loops_made w \<and> ts_acceptor_loop w = 0 \<and>
     - 1 \<notin> tw_open_fds w \<and> ac_idle_fd w \<in> tw_open_fds w \<and> ts_msg_cb w \<and> set (ts_running w) \<subseteq> set (ts_conn_loops w)"

lemma loop_poller_entry:
  assumes "roomy_kernel ctl" "loop_poller ctl Evfd_read_cb epoll_fd evfd = Inr ep"
  shows "in_sync ep" "ep_event_map ep = [evfd \<mapsto> \<lparr>ev_event = EPOLLIN, read_callback = Some Evfd_read_cb, write_callback = None\<rparr>]"
proof -
  let ?ep = "\<lparr>ep_kernel = Map.empty, ep_listen_fds = {}, ep_event_map = Map.empty\<rparr> :: tcp_cb epoll"
  have k: "epoll_kernel ctl" using assms(1) by (simp add: roomy_kernel_def)
  have ep: "ep = epoll_add ctl evfd EPOLLIN Evfd_read_cb ?ep"
    using assms(2) by (auto simp: loop_poller_def epoll_new_def result_iff split: if_splits)
  have "in_sync ?ep" by (simp add: in_sync_def)
  then show "in_sync ep" using poller_watch[OF k, of ?ep evfd Evfd_read_cb] roomy_kernel.ctl_takes[OF assms(1)] ep by simp
  show "ep_event_map ep = [evfd \<mapsto> \<lparr>ev_event = EPOLLIN, read_callback = Some Evfd_read_cb, write_callback = None\<rparr>]"
    unfolding ep epoll_add_eq[OF k] by (simp add: add_entry_def map_entry_def final_events_def Let_def)
qed

lemma start_loops_boot:
  assumes k: "roomy_kernel ctl"
  shows "start_loops ctl i n fds w = Inr w' \<Longrightarrow> boot_inv w \<Longrightarrow> length (ts_conn_loops w) = i \<Longrightarrow>
     \<forall>(epoll_fd, evfd, _) \<in> set fds. 0 \<le> epoll_fd \<and> 0 \<le> evfd \<and> evfd \<noteq> ac_idle_fd w \<Longrightarrow>
     boot_inv w' \<and> length (ts_conn_loops w') = i + n"
proof (induction n arbitrary: i fds w)
  case (Suc n)
  obtain epoll_fd evfd takes fds' where fds: "fds = (epoll_fd, evfd, takes) # fds'" using Suc.prems(1) by (cases fds) auto
  let ?l = "ts_loops_made w"
  let ?w = "\<lambda>ep tp'. w\<lparr>ts_loops_made := ?l + 1, tw_pollers := (tw_pollers w)(?l := ep),
      ts_conn_loops := ts_conn_loops w @ [?l], tw_open_fds := tw_open_fds w \<union> {epoll_fd, evfd}, ts_thread_pool := Some tp'\<rparr>"
  obtain ep tp' w1 where ep: "loop_poller ctl Evfd_read_cb epoll_fd evfd = Inr ep"
    and run: "workers_take [i \<mapsto> ?l] takes (?w ep tp') = Inr w1" "start_loops ctl (i + 1) n fds' w1 = Inr w'"
    using Suc.prems(1,3) fds by (auto simp: result_iff Let_def nth_append)
  have new: "0 \<le> epoll_fd" "0 \<le> evfd" "evfd \<noteq> ac_idle_fd w" using Suc.prems(4) fds by auto
  have "loop_inv (?w ep tp') l" if "loop_inv w l" "l < ts_loops_made w" for l using that Suc.prems(2) by (auto simp: loop_inv_def boot_inv_def)
  moreover have "loop_inv (?w ep tp') ?l"
    using loop_poller_entry[OF k ep] new Suc.prems(2) by (auto simp: loop_inv_def boot_inv_def)
  ultimately have b: "boot_inv (?w ep tp')" using Suc.prems(2) new by (auto simp: boot_inv_def)
  obtain ls tp where w1: "w1 = (?w ep tp')\<lparr>ts_running := ts_running w @ ls, ts_thread_pool := tp\<rparr>" "set ls \<subseteq> {?l}"
    using workers_take_keeps[OF run(1)] by auto
  have "boot_inv w1" using b w1(2) unfolding w1(1) by (auto simp: boot_inv_def loop_inv_def)
  moreover have "ac_idle_fd w1 = ac_idle_fd w" "length (ts_conn_loops w1) = i + 1" using w1(1) Suc.prems(3) by simp_all
  ultimately show ?case using Suc.IH[OF run(2)] Suc.prems(4) fds by simp
qed simp

lemma boot_world:
  assumes "boot_inv w" "ts_conn_loops w \<noteq> []"
  shows "world_inv reply w"
proof -
  have "chunks_held w = {}" using assms(1) by (simp add: chunks_held_def boot_inv_def)
  then show ?thesis using assms by (auto simp: world_inv_def boot_inv_def)
qed

lemma pool_new_owns: "mempool_new budget nothrow = Inr mp \<Longrightarrow> pool_owns mp {}"
  using mempool_new_run[of budget nothrow] mempool_new_oom[of budget nothrow] by (cases "2885 \<le> budget") (auto simp: pool_owns_def)

lemma example_new_boot:
  assumes "example_new mp pollers fds idle_fd listen_fd bound = Inr w" "pool_owns mp {}" "- 1 \<notin> fds" "0 \<le> idle_fd" "0 \<le> listen_fd"
  shows "boot_inv w \<and> ts_conn_loops w = [] \<and> ac_idle_fd w = idle_fd"
  using assms by (auto simp: example_new_def server_new_def acceptor_new_def set_close_cb_def set_message_cb_def set_connected_cb_def
      boot_inv_def result_iff Let_def split: if_splits)

lemma boot_inv_cong:
  "boot_inv (w\<lparr>ts_timer := tm, ts_started := st, ts_thread_pool := tp\<rparr>) = boot_inv w"
  "boot_inv (w\<lparr>ts_started := st, ts_tcp_conn_timout_ms := ms, ts_thread_num := n\<rparr>) = boot_inv w"
  by (simp_all add: boot_inv_def loop_inv_def)

lemma server_start_boot:
  assumes k: "roomy_kernel ctl" and run: "server_start ctl fds listen_ok w = Inr w'" and w: "boot_inv w" "ts_started w = Some False" "0 < ts_thread_num w" "ts_conn_loops w = []"
    and fds: "\<forall>(epoll_fd, evfd, _) \<in> set fds. 0 \<le> epoll_fd \<and> 0 \<le> evfd \<and> evfd \<noteq> ac_idle_fd w"
  shows "boot_inv w' \<and> ts_conn_loops w' \<noteq> []"
proof -
  obtain tp w1 where w1: "start_loops ctl 0 (nat (ts_thread_num w)) fds
        (w\<lparr>ts_timer := timer_run (ts_timer w), ts_started := Some True, ts_thread_pool := Some tp\<rparr>) = Inr w1"
      "(if \<not> ac_listening w1 then acceptor_listen ctl listen_ok w1 else Inr w1) = Inr w'"
    using run w(2) by (auto simp: server_start_def result_iff Let_def)
  have b: "boot_inv w1 \<and> ts_conn_loops w1 \<noteq> []"
    using start_loops_boot[OF k w1(1)] w(1,3,4) fds by (auto simp: boot_inv_cong)
  show ?thesis
  proof (cases "ac_listening w1")
    case True
    then show ?thesis using w1(2) b by simp
  next
    case False
    then have "w' = add_to_poller ctl (ts_acceptor_loop w1) (ac_listen_fd w1) EPOLLIN Do_accept_cb (w1\<lparr>ac_listening := True\<rparr>)"
      using w1(2) by (auto simp: acceptor_listen_def split: if_splits)
    then show ?thesis using b by (auto simp: boot_inv_def loop_inv_def add_to_poller_def on_poller_def)
  qed
qed

lemma start_world:
  assumes k: "roomy_kernel ctl" and n: "0 < n" and s: "srv_start ctl n s"
  shows "world_inv reply (sv_world s)"
proof -
  obtain e budget nothrow where e: "mempool_new budget nothrow = Inr (me_pool e)" "distinct (env_fds e)" "\<forall>fd \<in> set (env_fds e). 0 \<le> fd"
      "\<not> me_started e" "example_main ctl n e = Inr (sv_world s)"
    using s unfolding srv_start_def by blast
  obtain ep w0 where w0: "example_new (me_pool e) (\<lambda>_. ep) {fst (me_base e), snd (me_base e)} (me_idle e) (me_listen e) (me_bound e) = Inr w0"
      "server_start ctl (me_loops e) (me_listen_ok e) (w0\<lparr>ts_started := Some False, ts_tcp_conn_timout_ms := 8000, ts_thread_num := n\<rparr>) = Inr (sv_world s)"
    using e(4,5) unfolding example_main_def example_start_def set_thread_num_def set_tcp_conn_timeout_ms_def Let_def rbind_eq_Inr
    by (elim exE conjE) (rule that, assumption, simp)
  have fds: "- 1 \<notin> {fst (me_base e), snd (me_base e)}" "0 \<le> me_idle e" "0 \<le> me_listen e" using e(3) by (auto simp: env_fds_def)
  have b: "boot_inv w0" "ac_idle_fd w0 = me_idle e" "ts_conn_loops w0 = []" using example_new_boot[OF w0(1) pool_new_owns[OF e(1)] fds] by simp_all
  let ?worker = "set (concat (map (\<lambda>(a, b, _). [a, b]) (me_loops e)))"
  have "me_idle e \<notin> ?worker" "\<forall>fd \<in> ?worker. 0 \<le> fd" using e(2,3) by (simp_all add: env_fds_def)
  then have loops: "\<forall>(epoll_fd, evfd, _) \<in> set (me_loops e). 0 \<le> epoll_fd \<and> 0 \<le> evfd \<and> evfd \<noteq> me_idle e" by fastforce
  let ?w = "w0\<lparr>ts_started := Some False, ts_tcp_conn_timout_ms := 8000, ts_thread_num := n\<rparr>"
  have "boot_inv ?w" using b(1) by (simp only: boot_inv_cong)
  then have "boot_inv (sv_world s) \<and> ts_conn_loops (sv_world s) \<noteq> []"
    by (rule server_start_boot[OF k w0(2)]) (use loops b(2,3) n in simp_all)
  then show ?thesis using boot_world by blast
qed

section \<open>Every serial run\<close>

lemma loop_dispatch_Cons:
  "loop_dispatch ctl user env l (ev # evs) w = rbind (loop_dispatch ctl user env l [ev] w) (\<lambda>w. loop_dispatch ctl user env l evs w)"
  by (cases ev) (auto simp: loop_dispatch_def split: option.splits sum.splits simp: rbind_def)

context app_server
begin

lemma loop_dispatch_kept:
  assumes "world_inv reply w" "l \<in> set (ts_running w)" "\<forall>cb. env_ok (env cb)"
  shows "case loop_dispatch ctl user env l [(fd, events)] w of
      Inl f \<Rightarrow> out_of_memory f \<or> f = Assertion \<and>
        (ep_event_map (tw_pollers w l) fd = None \<or> (\<exists>i c. tw_conns w i = Some c \<and> tc_fd c = fd \<and> short_read (env (Do_read_cb i))))
    | Inr w' \<Rightarrow> ep_event_map (tw_pollers w l) fd \<noteq> None \<and> world_inv reply w' \<and> l \<in> set (ts_running w')"
proof (cases "ep_event_map (tw_pollers w l) fd")
  case None
  then show ?thesis by (simp add: loop_dispatch_def)
next
  case (Some e)
  have "case loop_dispatch ctl user env l [(fd, events)] w of
      Inl f \<Rightarrow> batch_fault env (fd_conns {fd} w) f | Inr w' \<Rightarrow> world_inv reply w' \<and> l \<in> set (ts_running w')"
    unfolding loop_dispatch_def by (rule loop.batch) (use assms Some can_handle_conns[OF assms(3)] in auto)
  then show ?thesis using Some by (auto simp: batch_fault_conns split: sum.splits)
qed

end

sublocale app_server \<subseteq> srv: step_system "srv_start ctl threads" "serial_step ctl user" "\<lambda>s. world_inv reply (sv_world s)"
proof
  fix s assume "srv_start ctl threads s"
  then show "world_inv reply (sv_world s)" by (rule start_world[OF roomy_kernel_axioms threads])
next
  fix s t assume inv: "world_inv reply (sv_world s)" and "serial_step ctl user s t"
  from this(2) show "world_inv reply (sv_world t)"
  proof cases
    case (sv_dispatch l ev evs env w)
    then show ?thesis using loop_dispatch_kept[OF inv sv_dispatch(2,4), of "fst ev" "snd ev"] by simp
  next
    case (sv_accept a w)
    then show ?thesis using accept_turn_kept[OF roomy_kernel_axioms inv, of a] by auto
  next
    case (sv_timeout i w)
    then show ?thesis using timeout_kept[OF epoll_kernel_axioms inv, of i] by auto
  qed (use inv in simp)
qed

context app_server
begin

lemma reach_world: "reach (srv_start ctl threads) (serial_step ctl user) s \<Longrightarrow> world_inv reply (sv_world s)"
  by (rule srv.reach_inv)

lemma loop_turn_reach:
  assumes "reach (srv_start ctl threads) (serial_step ctl user) s" "sv_pending s l = evs" "l \<in> set (ts_running (sv_world s))"
    and env: "\<forall>cb. env_ok (env cb)" and run: "loop_dispatch ctl user env l evs (sv_world s) = Inr w"
  shows "reach (srv_start ctl threads) (serial_step ctl user) \<lparr>sv_world = w, sv_pending = (sv_pending s)(l := [])\<rparr>"
  using assms(1-3) run
proof (induction evs arbitrary: s)
  case Nil
  then have "\<lparr>sv_world = w, sv_pending = (sv_pending s)(l := [])\<rparr> = s" by (cases s) (auto simp: loop_dispatch_def)
  then show ?case by (simp only:) (rule Nil(1))
next
  case (Cons ev evs)
  obtain w1 where w1: "loop_dispatch ctl user env l [ev] (sv_world s) = Inr w1" "loop_dispatch ctl user env l evs w1 = Inr w"
    using Cons.prems(4) by (subst (asm) loop_dispatch_Cons) (auto simp: result_iff)
  let ?s = "\<lparr>sv_world = w1, sv_pending = (sv_pending s)(l := evs)\<rparr>"
  have "serial_step ctl user s ?s" by (rule serial_step.sv_dispatch[OF Cons.prems(3,2) env w1(1)])
  then have r: "reach (srv_start ctl threads) (serial_step ctl user) ?s" by (rule reach_step[OF Cons.prems(1)])
  have "l \<in> set (ts_running w1)"
    using loop_dispatch_kept[OF srv.reach_inv[OF Cons.prems(1)] Cons.prems(3) env, of "fst ev" "snd ev"] w1(1) by simp
  then have "reach (srv_start ctl threads) (serial_step ctl user) \<lparr>sv_world = w, sv_pending = (sv_pending ?s)(l := [])\<rparr>"
    by (intro Cons.IH[OF r]) (use w1(2) in simp_all)
  then show ?case by (simp only: srv.simps fun_upd_upd)
qed

text \<open>A whole turn of a loop that nobody interrupts: it handles its batch, and it is one of the serial runs.\<close>

lemma turn:
  assumes s: "reach (srv_start ctl threads) (serial_step ctl user) s" "sv_pending s l = []" "l \<in> set (ts_running (sv_world s))"
    and evs: "distinct (map fst evs)" "\<forall>fd \<in> set (map fst evs). ep_kernel (tw_pollers (sv_world s) l) fd \<noteq> None"
    and env: "\<forall>cb. env_ok (env cb)"
  shows "case loop_poll ctl user env l (replicate errors None @ Some evs # ws) (sv_world s) of
      Inl f \<Rightarrow> out_of_memory f \<or>
        f = Assertion \<and> (\<exists>i c. tw_conns (sv_world s) i = Some c \<and> tc_fd c \<in> set (map fst evs) \<and> short_read (env (Do_read_cb i)))
    | Inr (n, w) \<Rightarrow> n = length evs \<and> reach (srv_start ctl threads) (serial_step ctl user) (s\<lparr>sv_world := w\<rparr>)"
proof -
  let ?run = "loop_dispatch ctl user env l evs (sv_world s)"
  have inv: "world_inv reply (sv_world s)" by (rule srv.reach_inv[OF s(1)])
  have "in_sync (tw_pollers (sv_world s) l)" using world_invD(5)[OF inv world_invD(13)[OF inv s(3)]] by (simp add: loop_inv_def)
  then have reg: "\<forall>fd \<in> set (map fst evs). ep_event_map (tw_pollers (sv_world s) l) fd \<noteq> None" using evs(2) by (simp add: in_sync_def)
  have poll: "loop_poll ctl user env l (replicate errors None @ Some evs # ws) (sv_world s) = rbind ?run (\<lambda>w. Inr (length evs, w))"
    by (induction errors) (simp_all add: loop_poll_def loop_dispatch_def)
  have "\<forall>fd \<in> set (map fst evs). ep_event_map (tw_pollers (sv_world s) l) fd \<noteq> None \<and>
      can_handle env (fd_conns (set (map fst evs)) (sv_world s)) fd (sv_world s)"
    using reg can_handle_conns[OF env] by blast
  then have safe: "case ?run of Inl f \<Rightarrow> batch_fault env (fd_conns (set (map fst evs)) (sv_world s)) f | Inr w \<Rightarrow> world_inv reply w \<and> l \<in> set (ts_running w)"
    unfolding loop_dispatch_def by (intro loop.batch) (use inv s(3) evs(1) in simp_all)
  show ?thesis
  proof (cases ?run)
    case (Inl f)
    then show ?thesis using poll safe by (simp add: batch_fault_conns)
  next
    case (Inr w)
    let ?s = "s\<lparr>sv_pending := (sv_pending s)(l := evs)\<rparr>"
    have "reach (srv_start ctl threads) (serial_step ctl user) ?s" by (rule reach_step[OF s(1) serial_step.sv_wait[OF s(3,2) evs]])
    then have "reach (srv_start ctl threads) (serial_step ctl user) \<lparr>sv_world = w, sv_pending = (sv_pending ?s)(l := [])\<rparr>"
      by (rule loop_turn_reach[where evs = evs and env = env]) (use Inr s(3) env in simp_all)
    moreover have "\<lparr>sv_world = w, sv_pending = (sv_pending ?s)(l := [])\<rparr> = s\<lparr>sv_world := w\<rparr>" using s(2) by (cases s) auto
    ultimately show ?thesis using poll Inr by simp
  qed
qed

lemma step_outcomes:
  assumes s: "reach (srv_start ctl threads) (serial_step ctl user) s"
  shows "l \<in> set (ts_running (sv_world s)) \<Longrightarrow> \<forall>cb. env_ok (env cb) \<Longrightarrow>
      case loop_dispatch ctl user env l [(fd, events)] (sv_world s) of
        Inl f \<Rightarrow> out_of_memory f \<or> f = Assertion \<and> (ep_event_map (tw_pollers (sv_world s) l) fd = None \<or>
          (\<exists>i c. tw_conns (sv_world s) i = Some c \<and> tc_fd c = fd \<and> short_read (env (Do_read_cb i))))
      | Inr w \<Rightarrow> ep_event_map (tw_pollers (sv_world s) l) fd \<noteq> None"
    "accept_ok a (sv_world s) \<Longrightarrow> \<exists>w. accept_turn ctl a (sv_world s) = Inr w"
    "tw_conns (sv_world s) i \<noteq> None \<Longrightarrow> \<exists>w. active_close ctl i (sv_world s) = Inr w"
proof -
  have inv: "world_inv reply (sv_world s)" by (rule srv.reach_inv[OF s])
  show "case loop_dispatch ctl user env l [(fd, events)] (sv_world s) of
        Inl f \<Rightarrow> out_of_memory f \<or> f = Assertion \<and> (ep_event_map (tw_pollers (sv_world s) l) fd = None \<or>
          (\<exists>i c. tw_conns (sv_world s) i = Some c \<and> tc_fd c = fd \<and> short_read (env (Do_read_cb i))))
      | Inr w \<Rightarrow> ep_event_map (tw_pollers (sv_world s) l) fd \<noteq> None"
    if "l \<in> set (ts_running (sv_world s))" "\<forall>cb. env_ok (env cb)"
    using loop_dispatch_kept[OF inv that, of fd events] by (cases "loop_dispatch ctl user env l [(fd, events)] (sv_world s)") simp_all
  show "\<exists>w. accept_turn ctl a (sv_world s) = Inr w" if "accept_ok a (sv_world s)"
    using accept_turn_kept[OF roomy_kernel_axioms inv that] by blast
  show "\<exists>w. active_close ctl i (sv_world s) = Inr w" if "tw_conns (sv_world s) i \<noteq> None"
    using timeout_kept[OF epoll_kernel_axioms inv, of i] that by auto
qed

text \<open>An idle timer that closes a connection between \<^verbatim>\<open>epoll_wait\<close> and the callback of its event.\<close>

lemma race:
  assumes s: "reach (srv_start ctl threads) (serial_step ctl user) s" and c: "tw_conns (sv_world s) i = Some c" "tc_fd c \<noteq> - 1"
    and idle: "sv_pending s (tc_loop c) = []" "tc_loop c \<in> set (ts_running (sv_world s))"
  shows "\<exists>s'. reach (srv_start ctl threads) (serial_step ctl user) s' \<and> sv_pending s' (tc_loop c) = [(tc_fd c, EPOLLIN)] \<and>
     (\<forall>env. loop_dispatch ctl user env (tc_loop c) [(tc_fd c, EPOLLIN)] (sv_world s') = Inl Assertion)"
proof -
  let ?w = "sv_world s" and ?l = "tc_loop c" and ?evs = "[(tc_fd c, EPOLLIN)]"
  have inv: "world_inv reply ?w" by (rule srv.reach_inv[OF s])
  have k: "\<forall>fd \<in> set (map fst ?evs). ep_kernel (tw_pollers ?w ?l) fd \<noteq> None"
    using conn_invD(3)[OF inv c] by (auto simp: open_conn_def write_interest_def)
  have d: "distinct (map fst ?evs)" by simp
  have r1: "reach (srv_start ctl threads) (serial_step ctl user) (s\<lparr>sv_pending := (sv_pending s)(?l := ?evs)\<rparr>)"
    by (rule reach_step[OF s serial_step.sv_wait[OF idle(2,1) d k]])
  obtain w' where w': "conn_do_close ctl i ?w = Inr w'" "touched i (chunks_held ?w) c ?w (closed_conn c) w'"
    using timeout_kept[OF epoll_kernel_axioms inv c(1)] by blast
  let ?s = "s\<lparr>sv_pending := (sv_pending s)(?l := ?evs), sv_world := w'\<rparr>"
  have "serial_step ctl user (s\<lparr>sv_pending := (sv_pending s)(?l := ?evs)\<rparr>) (s\<lparr>sv_pending := (sv_pending s)(?l := ?evs)\<rparr>\<lparr>sv_world := w'\<rparr>)"
    by (rule serial_step.sv_timeout[where i = i]) (use c(1) w'(1) in simp_all)
  then have "reach (srv_start ctl threads) (serial_step ctl user) ?s" using reach_step[OF r1] by simp
  moreover have "ep_event_map (tw_pollers w' ?l) (tc_fd c) = None" using w'(2) c(2) by (simp add: touched_def)
  ultimately show ?thesis by (intro exI[of _ ?s]) (simp add: loop_dispatch_def)
qed

end

section \<open>The two example servers\<close>

lemma echo_server: "roomy_kernel ctl \<Longrightarrow> app_server ctl (echo_message_cb ctl) (\<lambda>msg. msg) 2"
  by (intro app_server.intro app_server_axioms.intro echo_app roomy_kernel.accepts) (simp_all add: roomy_kernel_def)

lemma http_server: "roomy_kernel ctl \<Longrightarrow> app_server ctl (http_message_cb ctl) (\<lambda>_. return_msg) 4"
  by (intro app_server.intro app_server_axioms.intro http_app roomy_kernel.accepts) (simp_all add: roomy_kernel_def)

interpretation echo_srv: app_server ctl_free "echo_message_cb ctl_free" "\<lambda>msg. msg" 2
  by (rule echo_server[OF ctl_free_roomy])

interpretation http_srv: app_server ctl_free "http_message_cb ctl_free" "\<lambda>_. return_msg" 4
  by (rule http_server[OF ctl_free_roomy])

abbreviation "reach_echo ctl \<equiv> reach (srv_start ctl 2) (serial_step ctl (echo_message_cb ctl))"
abbreviation "reach_http ctl \<equiv> reach (srv_start ctl 4) (serial_step ctl (http_message_cb ctl))"

text \<open>A start that succeeds, and the state after one connection was accepted.\<close>

definition some_env :: "mempool \<Rightarrow> main_env" where
  "some_env mp = \<lparr>me_pool = mp, me_base = (3, 4), me_idle = 5, me_listen = 6, me_bound = True, me_started = False,
     me_loops = [(7, 8, 1), (9, 10, 1), (11, 12, 1), (13, 14, 1)], me_listen_ok = True\<rparr>"

lemma start_exists:
  assumes "0 < n" "n \<le> 4"
  obtains s where "srv_start ctl (int n) s" "20 \<notin> tw_open_fds (sv_world s)" "set (ts_conn_loops (sv_world s)) \<subseteq> set (ts_running (sv_world s))"
proof -
  obtain mp where mp: "mempool_new 2885 True = Inr mp" using mempool_new_run[of 2885 True] by auto
  let ?e = "some_env mp"
  obtain ep where ep: "loop_poller ctl Evfd_read_cb 3 4 = Inr ep" by (simp add: loop_poller_def epoll_new_def)
  obtain w0 where w0: "example_new mp (\<lambda>_. ep) {3, 4} 5 6 True = Inr w0" "\<not> ac_listening w0" "tw_open_fds w0 = {3, 4, 5, 6}"
      "ts_conn_loops w0 = []" "ts_running w0 = []"
    by (auto simp: example_new_def server_new_def acceptor_new_def timer_new_def threadpool_new_def
        set_close_cb_def set_message_cb_def set_connected_cb_def Let_def)
  let ?w = "w0\<lparr>ts_started := Some False, ts_tcp_conn_timout_ms := 8000, ts_thread_num := int n\<rparr>"
  let ?takes = "\<lambda>i. snd (snd (me_loops ?e ! i))"
  have "case server_start ctl (me_loops ?e) True ?w of
      Inl f \<Rightarrow> f = Undefined Bad_pointer \<and> taken_late ?takes n
    | Inr w' \<Rightarrow> ac_listening w' \<and> tw_open_fds w' \<subseteq> tw_open_fds ?w \<union> fst ` set (me_loops ?e) \<union> (fst \<circ> snd) ` set (me_loops ?e) \<and>
        (\<exists>m. starting ?takes n (ts_loops_made ?w) n m w')"
    by (rule server_start_outcome) (use w0 assms in \<open>simp_all add: some_env_def\<close>)
  moreover have takes: "?takes i = 1" if "i < n" for i
  proof -
    have "i = 0 \<or> i = 1 \<or> i = 2 \<or> i = 3" using that assms(2) by auto
    then show ?thesis by (auto simp: some_env_def)
  qed
  then have "\<not> taken_late ?takes n" unfolding taken_late_def by (metis less_trans zero_neq_one)
  ultimately obtain w' m where w': "server_start ctl (me_loops ?e) True ?w = Inr w'" "starting ?takes n (ts_loops_made ?w) n m w'"
      "tw_open_fds w' \<subseteq> tw_open_fds ?w \<union> fst ` set (me_loops ?e) \<union> (fst \<circ> snd) ` set (me_loops ?e)"
    by (cases "server_start ctl (me_loops ?e) True ?w") auto
  have "m = n" using w'(2) takes unfolding starting_def by (metis le_less less_irrefl_nat zero_neq_one)
  then have loops: "ts_conn_loops w' = ts_running w'" using w'(2) by (simp add: starting_def)
  have run: "example_main ctl (int n) ?e = Inr w'"
    using ep w0(1) w'(1) by (simp add: example_main_def some_env_def example_start_def set_thread_num_def set_tcp_conn_timeout_ms_def Let_def)
  let ?s = "\<lparr>sv_world = w', sv_pending = (\<lambda>_. [])\<rparr>"
  have "distinct (env_fds ?e)" "\<forall>fd \<in> set (env_fds ?e). 0 \<le> fd" by (simp_all add: env_fds_def some_env_def)
  moreover have "mempool_new 2885 True = Inr (me_pool ?e)" "\<not> me_started ?e" using mp by (simp_all add: some_env_def)
  ultimately have "srv_start ctl (int n) ?s" unfolding srv_start_def using run by (intro exI[of _ ?e] exI[of _ 2885] exI[of _ True]) simp
  moreover have "20 \<notin> tw_open_fds (sv_world ?s)" using w'(3) w0(3) by (auto simp: some_env_def)
  ultimately show ?thesis using that loops by simp
qed

lemma accepted_exists:
  assumes k: "roomy_kernel ctl" and n: "0 < n" "n \<le> 4"
  obtains s i c where "reach (srv_start ctl (int n)) (serial_step ctl user) s" "tw_conns (sv_world s) i = Some c" "tc_fd c = 20" "sv_pending s = (\<lambda>_. [])"
    "tc_loop c \<in> set (ts_running (sv_world s))"
proof -
  obtain s where s: "srv_start ctl (int n) s" "20 \<notin> tw_open_fds (sv_world s)" "set (ts_conn_loops (sv_world s)) \<subseteq> set (ts_running (sv_world s))"
    by (rule start_exists[OF n])
  have inv: "world_inv (\<lambda>m. m) (sv_world s)" using start_world[OF k _ s(1)] n by simp
  obtain w c where w: "accept_one ctl 0 20 (sv_world s) = Inr w" "tw_conns w (tw_next (sv_world s)) = Some c" "tc_fd c = 20" "world_inv (\<lambda>m. m) w"
      "ts_conn_loops w = ts_conn_loops (sv_world s)" "ts_running w = ts_running (sv_world s)"
    using accept_kept[OF k inv, of 20 0] s(2) by auto
  have "serial_step ctl user s (s\<lparr>sv_world := w\<rparr>)" by (rule serial_step.sv_accept[where a = "Accept_fd 20 0"]) (use s(2) w(1) in simp_all)
  then have "reach (srv_start ctl (int n)) (serial_step ctl user) (s\<lparr>sv_world := w\<rparr>)" by (rule reach_step[OF reach_start[of "srv_start ctl (int n)", OF s(1)]])
  moreover have "sv_pending (s\<lparr>sv_world := w\<rparr>) = (\<lambda>_. [])" using s(1) unfolding srv_start_def by auto
  moreover have "tc_loop c \<in> set (ts_running w)" using conn_invD(5)[OF w(4,2)] w(5,6) s(3) by auto
  ultimately show ?thesis using that w(2,3) by simp
qed

lemmas echo_exists = accepted_exists[where n = 2, simplified]
lemmas http_exists = accepted_exists[where n = 4, simplified]

text \<open>What the kernel answers when two bytes arrive and the socket takes none.\<close>

definition two_bytes :: io_env where
  "two_bytes = \<lparr>io_now = 50, io_fionread = Some 2, io_reads = [Read_ok ''ab''], io_writes = replicate 4194304 [Write_err EAGAIN], io_accepts = []\<rparr>"

lemma two_bytes_ok: "env_ok two_bytes"
  by (auto simp: env_ok_def two_bytes_def)

lemma open_watched:
  assumes "roomy_kernel ctl" "reach_echo ctl s" "tw_conns (sv_world s) i = Some c" "tc_fd c \<noteq> - 1"
  shows "tc_loop c \<in> set (ts_conn_loops (sv_world s))" "ep_kernel (tw_pollers (sv_world s) (tc_loop c)) (tc_fd c) \<noteq> None"
proof -
  have inv: "world_inv (\<lambda>msg. msg) (sv_world s)" by (rule app_server.reach_world[OF echo_server[OF assms(1)] assms(2)])
  show "tc_loop c \<in> set (ts_conn_loops (sv_world s))" by (rule conn_invD(5)[OF inv assms(3)])
  show "ep_kernel (tw_pollers (sv_world s) (tc_loop c)) (tc_fd c) \<noteq> None"
    using conn_invD(3)[OF inv assms(3,4)] by (auto simp: open_conn_def write_interest_def)
qed

end
