(* ===== verification/Log_Queue.thy ===== *)
theory Log_Queue
  imports Prelude
begin

text \<open>
  The bounded blocking queue of the asynchronous logger (src/log/log_queue.h): a ring buffer with
  a mutex and a condition variable. Each member function runs under the mutex, so it is one atomic
  step; \<^verbatim>\<open>pop\<close> gives the mutex up while it waits, so it is two: up to the wait, and after the
  wake-up. The ring refines a list, and every interleaving of producers and consumers is FIFO.
\<close>

section \<open>The class\<close>

text \<open>A slot that was never assigned holds \<^const>\<open>None\<close>. The mutex and the condition variable are
  the atomicity of the steps; \<^verbatim>\<open>notify_all\<close> wakes every waiting thread, see below.\<close>

record 'a buffer_queue =
  b_array :: "'a option list"
  b_rcnt :: int
  b_wcnt :: int
  b_debug :: bool
  b_first :: int
  b_last :: int
  b_size :: int
  b_capacity :: int

definition array_get :: "'a list \<Rightarrow> int \<Rightarrow> 'a result" where
  "array_get xs i = (if 0 \<le> i \<and> i < int (length xs) then Inr (xs ! nat i) else Inl (Undefined Out_of_bounds))"

definition array_set :: "'a list \<Rightarrow> int \<Rightarrow> 'a \<Rightarrow> 'a list result" where
  "array_set xs i v = (if 0 \<le> i \<and> i < int (length xs) then Inr (xs[nat i := v]) else Inl (Undefined Out_of_bounds))"

definition queue_default :: "'a buffer_queue" where
  "queue_default = \<lparr>b_array = replicate 1000 None, b_rcnt = 0, b_wcnt = 0, b_debug = False,
     b_first = - 1, b_last = - 1, b_size = 0, b_capacity = 1000\<rparr>"

definition queue_new :: "int \<Rightarrow> bool \<Rightarrow> 'a buffer_queue result" where
  "queue_new max_size debug =
     (if max_size \<le> 0 then Inl (Exception ''max_size is illegal!'')
      else Inr \<lparr>b_array = replicate (nat max_size) None, b_rcnt = 0, b_wcnt = 0, b_debug = debug,
                b_first = - 1, b_last = - 1, b_size = 0, b_capacity = max_size\<rparr>)"

definition q_clear :: "'a buffer_queue \<Rightarrow> 'a buffer_queue" where
  "q_clear q =
     (let q = (if b_debug q then q\<lparr>b_rcnt := 0, b_wcnt := 0\<rparr> else q)
      in q\<lparr>b_first := - 1, b_last := - 1, b_size := 0\<rparr>)"

text \<open>The counters are \<^verbatim>\<open>long long\<close>; the getters return \<^verbatim>\<open>int\<close>, so they keep the low 32 bits.\<close>

definition get_rcnt :: "'a buffer_queue \<Rightarrow> int" where
  "get_rcnt q = (if b_debug q then sint (word_of_int (b_rcnt q) :: 32 word) else - 1)"

definition get_wcnt :: "'a buffer_queue \<Rightarrow> int" where
  "get_wcnt q = (if b_debug q then sint (word_of_int (b_wcnt q) :: 32 word) else - 1)"

lemma narrowed:
  "(sint (word_of_int (int n) :: 32 word) - int n) mod 2 ^ 32 = 0"
  "sint (word_of_int (int n) :: 32 word) = int n \<longleftrightarrow> int n \<le> INT_MAX"
proof -
  have s: "sint (word_of_int (int n) :: 32 word) = signed_take_bit 31 (int n)" by (simp add: sint_word_ariths signed_of_nat)
  have "take_bit 32 (signed_take_bit 31 (int n)) = take_bit 32 (int n)" by (simp add: take_bit_signed_take_bit)
  then show "(sint (word_of_int (int n) :: 32 word) - int n) mod 2 ^ 32 = 0"
    unfolding s take_bit_eq_mod by (simp only: mod_eq_dvd_iff mod_0_imp_dvd dvd_imp_mod_0)
  show "sint (word_of_int (int n) :: 32 word) = int n \<longleftrightarrow> int n \<le> INT_MAX"
    unfolding s by (simp add: signed_take_bit_int_eq_self_iff) linarith
qed

definition get_size :: "'a buffer_queue \<Rightarrow> int result" where
  "get_size q = rbind (c_assert (0 \<le> b_size q \<and> b_size q \<le> b_capacity q)) (\<lambda>_. Inr (b_size q))"

definition is_full :: "'a buffer_queue \<Rightarrow> bool" where
  "is_full q \<longleftrightarrow> b_size q = b_capacity q"

definition q_is_empty :: "'a buffer_queue \<Rightarrow> bool" where
  "q_is_empty q \<longleftrightarrow> b_size q = 0"

definition get_capacity :: "'a buffer_queue \<Rightarrow> int" where
  "get_capacity q = b_capacity q"

text \<open>\<^verbatim>\<open>front\<close> and \<^verbatim>\<open>back\<close> return false on an empty queue: \<^const>\<open>None\<close>.\<close>

definition q_front :: "'a buffer_queue \<Rightarrow> 'a option option result" where
  "q_front q =
     (if b_size q = 0 then Inr None
      else rbind (array_get (b_array q) (b_first q + 1)) (\<lambda>v. Inr (Some v)))"

definition q_back :: "'a buffer_queue \<Rightarrow> 'a option option result" where
  "q_back q =
     (if b_size q = 0 then Inr None
      else rbind (array_get (b_array q) (b_last q)) (\<lambda>v. Inr (Some v)))"

definition q_push :: "'a \<Rightarrow> 'a buffer_queue \<Rightarrow> (bool \<times> 'a buffer_queue) result" where
  "q_push item q =
     (if b_size q \<ge> b_capacity q then Inr (False, q)
      else
        let l = (b_last q + 1) mod b_capacity q in
        rbind (array_set (b_array q) l (Some item)) (\<lambda>arr.
        Inr (True, q\<lparr>b_last := l, b_array := arr, b_size := b_size q + 1,
                     b_wcnt := (if b_debug q then b_wcnt q + 1 else b_wcnt q)\<rparr>)))"

text \<open>The end of both \<^verbatim>\<open>pop\<close> functions, when the queue is not empty.\<close>

definition q_take :: "'a buffer_queue \<Rightarrow> ('a option \<times> 'a buffer_queue) result" where
  "q_take q =
     (let f = (b_first q + 1) mod b_capacity q in
      rbind (array_get (b_array q) f) (\<lambda>item.
      Inr (item, q\<lparr>b_first := f, b_size := b_size q - 1,
                   b_rcnt := (if b_debug q then b_rcnt q + 1 else b_rcnt q)\<rparr>)))"

datatype 'a pop_outcome = Pop_waits | Pop_false | Pop_true "'a option"

text \<open>\<^verbatim>\<open>pop\<close> up to the wait, and after a wake-up (by a notification or spurious).\<close>

definition pop_begin :: "'a buffer_queue \<Rightarrow> ('a pop_outcome \<times> 'a buffer_queue) result" where
  "pop_begin q =
     (if b_size q \<le> 0 then Inr (Pop_waits, q)
      else rbind (q_take q) (\<lambda>(item, q). Inr (Pop_true item, q)))"

definition pop_resume :: "'a buffer_queue \<Rightarrow> ('a pop_outcome \<times> 'a buffer_queue) result" where
  "pop_resume q =
     (if b_size q \<le> 0 then Inr (Pop_false, q)
      else rbind (q_take q) (\<lambda>(item, q). Inr (Pop_true item, q)))"

text \<open>\<^verbatim>\<open>pop\<close> with a timeout: the same beginning; the wait reports whether it timed out.\<close>

definition pop_timed_resume :: "bool \<Rightarrow> 'a buffer_queue \<Rightarrow> ('a pop_outcome \<times> 'a buffer_queue) result" where
  "pop_timed_resume timed_out q =
     (if timed_out then Inr (Pop_false, q)
      else if b_size q \<le> 0 then Inr (Pop_false, q)
      else rbind (q_take q) (\<lambda>(item, q). Inr (Pop_true item, q)))"

section \<open>The ring as a list\<close>

definition q_slot :: "'a buffer_queue \<Rightarrow> nat \<Rightarrow> nat" where
  "q_slot q i = nat ((b_first q + 1 + int i) mod b_capacity q)"

definition q_list :: "'a buffer_queue \<Rightarrow> 'a list" where
  "q_list q = map (\<lambda>i. the (b_array q ! q_slot q i)) [0..<nat (b_size q)]"

definition q_ok :: "'a buffer_queue \<Rightarrow> bool" where
  "q_ok q \<longleftrightarrow> 0 < b_capacity q \<and> int (length (b_array q)) = b_capacity q \<and>
     0 \<le> b_size q \<and> b_size q \<le> b_capacity q \<and> - 1 \<le> b_first q \<and> b_first q < b_capacity q \<and>
     - 1 \<le> b_last q \<and> b_last q < b_capacity q \<and> (0 < b_size q \<longrightarrow> 0 \<le> b_last q) \<and>
     b_last q mod b_capacity q = (b_first q + b_size q) mod b_capacity q \<and>
     (\<forall>i < nat (b_size q). b_array q ! q_slot q i \<noteq> None)"

lemma length_q_list [simp]: "length (q_list q) = nat (b_size q)"
  by (simp add: q_list_def)

lemma q_slot_less: "0 < b_capacity q \<Longrightarrow> int (length (b_array q)) = b_capacity q \<Longrightarrow> q_slot q i < length (b_array q)"
  by (simp add: q_slot_def nat_less_iff)

lemma mod_window_inj:
  fixes c f :: int
  assumes "(f + int i) mod c = (f + int j) mod c" "int i < c" "int j < c"
  shows "i = j"
proof -
  have "c dvd (f + int i) - (f + int j)" using assms(1) by (simp add: mod_eq_dvd_iff)
  then have "c dvd int i - int j" by simp
  moreover have "\<bar>int i - int j\<bar> < c" using assms(2,3) by linarith
  ultimately show ?thesis using dvd_imp_le_int[of "int i - int j" c] by fastforce
qed

lemma q_slot_inj:
  assumes "q_ok q" "q_slot q i = q_slot q j" "int i < b_capacity q" "int j < b_capacity q"
  shows "i = j"
proof -
  have "(b_first q + 1 + int i) mod b_capacity q = (b_first q + 1 + int j) mod b_capacity q"
    using assms(1,2) by (simp add: q_slot_def q_ok_def eq_nat_nat_iff)
  then show ?thesis using assms(3,4) by (rule mod_window_inj)
qed

lemma q_list_empty_iff: "q_ok q \<Longrightarrow> q_list q = [] \<longleftrightarrow> b_size q = 0"
  by (auto simp: q_list_def q_ok_def)

lemma queue_new_ok:
  "0 < n \<Longrightarrow> \<exists>q. queue_new n d = Inr q \<and> q_ok q \<and> q_list q = [] \<and> b_capacity q = n \<and> b_debug q = d \<and>
     b_rcnt q = 0 \<and> b_wcnt q = 0"
  by (simp add: queue_new_def q_ok_def q_list_def)

lemma queue_default_ok: "q_ok queue_default" "q_list queue_default = []"
  by (simp_all add: queue_default_def q_ok_def q_list_def)

lemma q_clear_ok: "q_ok q \<Longrightarrow> q_ok (q_clear q) \<and> q_list (q_clear q) = []"
  by (simp add: q_clear_def q_ok_def q_list_def Let_def)

lemma q_push_ok:
  assumes ok: "q_ok q" and room: "b_size q < b_capacity q"
  shows "\<exists>q'. q_push x q = Inr (True, q') \<and> q_ok q' \<and> q_list q' = q_list q @ [x] \<and>
     b_capacity q' = b_capacity q \<and> b_size q' = b_size q + 1 \<and> b_debug q' = b_debug q \<and> b_rcnt q' = b_rcnt q \<and>
     b_wcnt q' = (if b_debug q then b_wcnt q + 1 else b_wcnt q)"
proof -
  let ?c = "b_capacity q" and ?n = "nat (b_size q)"
  let ?l = "(b_last q + 1) mod ?c"
  let ?arr = "(b_array q)[nat ?l := Some x]"
  let ?q = "q\<lparr>b_last := ?l, b_array := ?arr, b_size := b_size q + 1,
       b_wcnt := (if b_debug q then b_wcnt q + 1 else b_wcnt q)\<rparr>"
  have c: "0 < ?c" "int (length (b_array q)) = ?c" "0 \<le> b_size q" using ok by (auto simp: q_ok_def)
  have l: "0 \<le> ?l" "?l < ?c" using c by simp_all
  have run: "q_push x q = Inr (True, ?q)" using room l c by (simp add: q_push_def array_set_def Let_def)
  have "(b_last q + 1) mod ?c = (b_first q + b_size q + 1) mod ?c"
    using ok by (metis q_ok_def mod_add_left_eq)
  then have le: "?l = (b_first q + 1 + b_size q) mod ?c" by (simp add: ac_simps)
  then have slot: "nat ?l = q_slot q ?n" using c by (simp add: q_slot_def)
  have old: "?arr ! q_slot q i = b_array q ! q_slot q i" if "i < ?n" for i
  proof -
    have b: "int i < ?c" "int ?n < ?c" using that room c by linarith+
    have "q_slot q ?n \<noteq> q_slot q i" using q_slot_inj[OF ok _ b(2) b(1)] that by (metis less_irrefl)
    then show ?thesis using slot by simp
  qed
  have new: "?arr ! q_slot q ?n = Some x"
    using slot q_slot_less[OF c(1,2)] by simp
  have slots: "q_slot ?q i = q_slot q i" for i by (simp add: q_slot_def)
  have n: "nat (b_size q + 1) = Suc ?n" using c by simp
  have "q_list ?q = map (\<lambda>i. the (?arr ! q_slot q i)) [0..<Suc ?n]"
    using n by (simp add: q_list_def slots del: upt_Suc)
  also have "\<dots> = q_list q @ [x]" using old new by (simp add: q_list_def)
  finally have "q_list ?q = q_list q @ [x]" .
  moreover have "q_ok ?q"
  proof -
    have "?arr ! q_slot q i \<noteq> None" if "i < nat (b_size q + 1)" for i
      using that old[of i] new n ok by (cases "i = ?n") (simp_all add: q_ok_def)
    then have "\<forall>i < nat (b_size ?q). b_array ?q ! q_slot ?q i \<noteq> None"
      unfolding slots by simp
    moreover have "?l mod ?c = (b_first q + (b_size q + 1)) mod ?c" using le by (simp add: ac_simps)
    ultimately show ?thesis using ok room l
      by (simp add: q_ok_def) (use pos_mod_sign[OF c(1), of "b_first q + (b_size q + 1)"] in linarith)
  qed
  ultimately show ?thesis using run by auto
qed

lemma q_push_full: "b_capacity q \<le> b_size q \<Longrightarrow> q_push x q = Inr (False, q)"
  by (simp add: q_push_def)

lemma q_take_ok:
  assumes ok: "q_ok q" and some: "0 < b_size q"
  shows "\<exists>q'. q_take q = Inr (Some (hd (q_list q)), q') \<and> q_ok q' \<and> q_list q' = tl (q_list q) \<and>
     b_capacity q' = b_capacity q \<and> b_size q' = b_size q - 1 \<and> b_debug q' = b_debug q \<and> b_wcnt q' = b_wcnt q \<and>
     b_rcnt q' = (if b_debug q then b_rcnt q + 1 else b_rcnt q)"
proof -
  let ?c = "b_capacity q" and ?f = "(b_first q + 1) mod b_capacity q"
  let ?q = "q\<lparr>b_first := ?f, b_size := b_size q - 1,
       b_rcnt := (if b_debug q then b_rcnt q + 1 else b_rcnt q)\<rparr>"
  have c: "0 < ?c" "int (length (b_array q)) = ?c" using ok by (auto simp: q_ok_def)
  obtain m where m: "nat (b_size q) = Suc m" using some by (cases "nat (b_size q)") auto
  have f: "0 \<le> ?f" "?f < ?c" "nat ?f = q_slot q 0" using c by (simp_all add: q_slot_def)
  obtain v where v: "b_array q ! q_slot q 0 = Some v" using ok m by (auto simp: q_ok_def)
  have slots: "q_slot ?q i = q_slot q (Suc i)" for i
    by (simp add: q_slot_def mod_add_left_eq[of "b_first q + 1" ?c "1 + int i", symmetric] add.assoc mod_simps)
  have lq: "q_list q = v # map (\<lambda>i. the (b_array q ! q_slot q (Suc i))) [0..<m]"
    using m v by (simp add: q_list_def map_upt_Suc del: upt_Suc)
  have run: "q_take q = Inr (Some v, ?q)"
    using c f v by (simp add: q_take_def array_get_def Let_def)
  have "q_list ?q = tl (q_list q)" using lq m slots by (simp add: q_list_def nat_diff_distrib)
  moreover have "b_array q ! q_slot q (Suc i) \<noteq> None" if "i < m" for i
    using ok that m by (auto simp: q_ok_def)
  moreover have "b_last q mod ?c = (?f + (b_size q - 1)) mod ?c"
    using ok mod_add_left_eq[of "b_first q + 1" ?c "b_size q - 1"] by (simp add: q_ok_def)
  ultimately have "q_ok ?q"
    using ok some f m by (auto simp: q_ok_def slots nat_diff_distrib) (use f(1) in linarith)
  then show ?thesis using run lq \<open>q_list ?q = tl (q_list q)\<close> by auto
qed

section \<open>The queue interface\<close>

text \<open>What the logger relies on: a bounded FIFO queue.\<close>

locale bounded_fifo =
  fixes put :: "'a \<Rightarrow> 'q \<Rightarrow> (bool \<times> 'q) result"
    and take_front :: "'q \<Rightarrow> ('a option \<times> 'q) result"
    and items :: "'q \<Rightarrow> 'a list" and cap :: "'q \<Rightarrow> nat" and ok :: "'q \<Rightarrow> bool"
  assumes put_room: "ok q \<Longrightarrow> length (items q) < cap q \<Longrightarrow>
      \<exists>q'. put x q = Inr (True, q') \<and> ok q' \<and> items q' = items q @ [x] \<and> cap q' = cap q"
    and put_full: "ok q \<Longrightarrow> length (items q) = cap q \<Longrightarrow> put x q = Inr (False, q)"
    and take_front_some: "ok q \<Longrightarrow> items q = x # xs \<Longrightarrow>
      \<exists>q'. take_front q = Inr (Some x, q') \<and> ok q' \<and> items q' = xs \<and> cap q' = cap q"
    and cap_bound: "ok q \<Longrightarrow> length (items q) \<le> cap q"
begin

lemma put_cases:
  assumes "ok q"
  shows "\<exists>q'. put x q = Inr (length (items q) < cap q, q') \<and> ok q' \<and> cap q' = cap q \<and>
     items q' = (if length (items q) < cap q then items q @ [x] else items q)"
  using put_room[OF assms, of x] put_full[OF assms, of x] cap_bound[OF assms] assms
  by (cases "length (items q) < cap q") auto

end

interpretation lq: bounded_fifo q_push q_take q_list "\<lambda>q. nat (b_capacity q)" q_ok
proof
  fix q :: "'a buffer_queue" and x
  assume ok: "q_ok q"
  then have c: "0 \<le> b_size q" "b_size q \<le> b_capacity q" by (auto simp: q_ok_def)
  show "\<exists>q'. q_push x q = Inr (True, q') \<and> q_ok q' \<and> q_list q' = q_list q @ [x] \<and>
      nat (b_capacity q') = nat (b_capacity q)" if "length (q_list q) < nat (b_capacity q)"
    using q_push_ok[OF ok, of x] that c by auto
  show "q_push x q = Inr (False, q)" if "length (q_list q) = nat (b_capacity q)"
    using q_push_full[of q x] that c by auto
  show "length (q_list q) \<le> nat (b_capacity q)" using c by simp
  show "\<exists>q'. q_take q = Inr (Some x, q') \<and> q_ok q' \<and> q_list q' = xs \<and> nat (b_capacity q') = nat (b_capacity q)"
    if "q_list q = x # xs" for xs
  proof -
    have "0 < b_size q" using that length_q_list[of q] by (cases "b_size q \<le> 0") auto
    then show ?thesis using q_take_ok[OF ok] that by auto
  qed
qed

section \<open>Producers and consumers\<close>

text \<open>
  The shared state of any number of threads: the queue, the threads asleep in \<^verbatim>\<open>pop\<close>, those
  woken that have not taken the mutex yet, and what was pushed and popped so far (ghost).
  Every push, also a failed one, and \<^verbatim>\<open>notify\<close> wake all sleepers; a sleeper may also wake
  spuriously.
\<close>

record 'a qsys =
  qs_queue :: "'a buffer_queue"
  qs_asleep :: "nat set"
  qs_woken :: "nat set"
  qs_pushed :: "'a list"
  qs_popped :: "'a list"

definition wake_all :: "'a qsys \<Rightarrow> 'a qsys" where
  "wake_all s = s\<lparr>qs_woken := qs_woken s \<union> qs_asleep s, qs_asleep := {}\<rparr>"

inductive qsys_step :: "'a qsys \<Rightarrow> 'a qsys \<Rightarrow> bool" where
  qs_push: "q_push x (qs_queue s) = Inr (ok, q) \<Longrightarrow>
     qsys_step s (wake_all (s\<lparr>qs_queue := q, qs_pushed := (if ok then qs_pushed s @ [x] else qs_pushed s)\<rparr>))"
| qs_notify: "qsys_step s (wake_all s)"
| qs_spurious: "i \<in> qs_asleep s \<Longrightarrow> qsys_step s (s\<lparr>qs_asleep := qs_asleep s - {i}, qs_woken := insert i (qs_woken s)\<rparr>)"
| qs_pop: "i \<notin> qs_asleep s \<Longrightarrow> i \<notin> qs_woken s \<Longrightarrow> pop_begin (qs_queue s) = Inr (Pop_true v, q) \<Longrightarrow>
     qsys_step s (s\<lparr>qs_queue := q, qs_popped := qs_popped s @ [the v]\<rparr>)"
| qs_wait: "i \<notin> qs_asleep s \<Longrightarrow> i \<notin> qs_woken s \<Longrightarrow> pop_begin (qs_queue s) = Inr (Pop_waits, q) \<Longrightarrow>
     qsys_step s (s\<lparr>qs_queue := q, qs_asleep := insert i (qs_asleep s)\<rparr>)"
| qs_resume_true: "i \<in> qs_woken s \<Longrightarrow> pop_resume (qs_queue s) = Inr (Pop_true v, q) \<Longrightarrow>
     qsys_step s (s\<lparr>qs_queue := q, qs_woken := qs_woken s - {i}, qs_popped := qs_popped s @ [the v]\<rparr>)"
| qs_resume_false: "i \<in> qs_woken s \<Longrightarrow> pop_resume (qs_queue s) = Inr (Pop_false, q) \<Longrightarrow>
     qsys_step s (s\<lparr>qs_queue := q, qs_woken := qs_woken s - {i}\<rparr>)"
| qs_timed_true: "i \<in> qs_woken s \<Longrightarrow> pop_timed_resume to (qs_queue s) = Inr (Pop_true v, q) \<Longrightarrow>
     qsys_step s (s\<lparr>qs_queue := q, qs_woken := qs_woken s - {i}, qs_popped := qs_popped s @ [the v]\<rparr>)"
| qs_timed_false: "i \<in> qs_asleep s \<union> qs_woken s \<Longrightarrow> pop_timed_resume to (qs_queue s) = Inr (Pop_false, q) \<Longrightarrow>
     qsys_step s (s\<lparr>qs_queue := q, qs_asleep := qs_asleep s - {i}, qs_woken := qs_woken s - {i}\<rparr>)"

definition qsys_start :: "'a qsys \<Rightarrow> bool" where
  "qsys_start s \<longleftrightarrow> (\<exists>n d. queue_new n d = Inr (qs_queue s)) \<and> qs_asleep s = {} \<and> qs_woken s = {} \<and>
     qs_pushed s = [] \<and> qs_popped s = []"

definition qsys_inv :: "'a qsys \<Rightarrow> bool" where
  "qsys_inv s \<longleftrightarrow> (let q = qs_queue s in q_ok q \<and> qs_pushed s = qs_popped s @ q_list q \<and>
     (qs_asleep s \<noteq> {} \<longrightarrow> q_list q = []) \<and>
     (b_debug q \<longrightarrow> b_wcnt q = int (length (qs_pushed s)) \<and> b_rcnt q = int (length (qs_popped s))))"

lemma pop_begin_ok:
  assumes "q_ok q"
  shows "if q_list q = [] then pop_begin q = Inr (Pop_waits, q)
    else \<exists>q'. q_take q = Inr (Some (hd (q_list q)), q') \<and> pop_begin q = Inr (Pop_true (Some (hd (q_list q))), q')"
  using q_take_ok[OF assms] q_list_empty_iff[OF assms] assms
  by (auto simp: pop_begin_def q_ok_def)

lemma pop_resume_eq:
  assumes "q_ok q"
  shows "pop_resume q = (if q_list q = [] then Inr (Pop_false, q) else pop_begin q)"
    and "pop_timed_resume to q = (if to then Inr (Pop_false, q) else pop_resume q)"
  using q_list_empty_iff[OF assms] assms
  by (auto simp: pop_begin_def pop_resume_def pop_timed_resume_def q_ok_def)

text \<open>One successful \<^verbatim>\<open>pop\<close>, from any of the three places, keeps the invariant.\<close>

lemma qsys_inv_pop:
  assumes inv: "qsys_inv s" and pop: "pop_begin (qs_queue s) = Inr (Pop_true v, q)"
  shows "qsys_inv (s\<lparr>qs_queue := q, qs_woken := w, qs_popped := qs_popped s @ [the v]\<rparr>)"
proof -
  have ok: "q_ok (qs_queue s)" using inv by (simp add: qsys_inv_def Let_def)
  have ne: "q_list (qs_queue s) \<noteq> []" using pop_begin_ok[OF ok] pop by (auto split: if_splits)
  then have sz: "0 < b_size (qs_queue s)" using q_list_empty_iff[OF ok] ok by (auto simp: q_ok_def)
  have "q_take (qs_queue s) = Inr (Some (hd (q_list (qs_queue s))), q)" "v = Some (hd (q_list (qs_queue s)))"
    using pop_begin_ok[OF ok] pop ne by auto
  then show ?thesis using q_take_ok[OF ok sz] inv ne by (auto simp: qsys_inv_def Let_def)
qed

lemma qsys_inv_push:
  assumes inv: "qsys_inv s" and p: "q_push x (qs_queue s) = Inr (ok, q)"
  shows "qsys_inv (wake_all (s\<lparr>qs_queue := q, qs_pushed := (if ok then qs_pushed s @ [x] else qs_pushed s)\<rparr>))"
proof -
  have qok: "q_ok (qs_queue s)" using inv by (simp add: qsys_inv_def Let_def)
  show ?thesis
  proof (cases "b_size (qs_queue s) < b_capacity (qs_queue s)")
    case True
    then show ?thesis using q_push_ok[OF qok True, of x] p inv by (auto simp: qsys_inv_def wake_all_def Let_def)
  next
    case False
    then show ?thesis using q_push_full[of "qs_queue s" x] p inv by (auto simp: qsys_inv_def wake_all_def Let_def)
  qed
qed

interpretation qsys: step_system qsys_start qsys_step qsys_inv
proof
  fix s :: "'a qsys" assume st: "qsys_start s"
  then obtain n d where nd: "queue_new n d = Inr (qs_queue s)" by (auto simp: qsys_start_def)
  then have "0 < n" by (auto simp: queue_new_def split: if_splits)
  then obtain q :: "'a buffer_queue" where q: "queue_new n d = Inr q" "q_ok q" "q_list q = []" "b_rcnt q = 0" "b_wcnt q = 0"
    using queue_new_ok[of n d] by blast
  moreover have "qs_queue s = q" using nd q(1) by simp
  ultimately show "qsys_inv s" using st by (simp add: qsys_inv_def qsys_start_def Let_def)
next
  fix s t :: "'a qsys" assume inv: "qsys_inv s" and "qsys_step s t"
  have ok: "q_ok (qs_queue s)" using inv by (simp add: qsys_inv_def Let_def)
  note eqs = pop_resume_eq[OF ok] pop_begin_ok[OF ok] q_list_empty_iff[OF ok]
  from \<open>qsys_step s t\<close> show "qsys_inv t"
  proof cases
    case (qs_push x ok q)
    then show ?thesis using qsys_inv_push[OF inv] by simp
  next
    case qs_notify
    then show ?thesis using inv by (simp add: qsys_inv_def wake_all_def Let_def)
  next
    case (qs_spurious i)
    then show ?thesis using inv by (auto simp: qsys_inv_def Let_def)
  next
    case (qs_pop i v q)
    then show ?thesis using qsys_inv_pop[OF inv, of v q "qs_woken s"] by simp
  next
    case (qs_wait i q)
    then show ?thesis using inv eqs by (auto simp: qsys_inv_def Let_def split: if_splits)
  next
    case (qs_resume_true i v q)
    then show ?thesis using qsys_inv_pop[OF inv, of v q "qs_woken s - {i}"] eqs by (auto split: if_splits)
  next
    case (qs_resume_false i q)
    then show ?thesis using inv eqs by (auto simp: qsys_inv_def Let_def split: if_splits)
  next
    case (qs_timed_true i to v q)
    then show ?thesis using qsys_inv_pop[OF inv, of v q "qs_woken s - {i}"] eqs by (auto split: if_splits)
  next
    case (qs_timed_false i to q)
    then show ?thesis using inv eqs by (auto simp: qsys_inv_def Let_def split: if_splits)
  qed
qed

section \<open>Properties of the queue\<close>

definition ring_example :: "nat buffer_queue" where
  "ring_example = \<lparr>b_array = [Some 7, Some 2], b_rcnt = 2, b_wcnt = 3, b_debug = True,
     b_first = 1, b_last = 0, b_size = 1, b_capacity = 2\<rparr>"

lemma ring_example_ok: "q_ok ring_example"
  by (simp add: ring_example_def q_ok_def q_slot_def)

text \<open>
  C28. The ring buffer refines a bounded list: \<^verbatim>\<open>push\<close> appends an item and returns true unless
  the queue holds its capacity, when it returns false and changes nothing; taking an item
  (the end of \<^verbatim>\<open>pop\<close>) returns the oldest one and removes it. Indices stay in the array.
\<close>

theorem queue_refines_list:
  assumes "q_ok q"
  shows "(\<exists>q'. q_push x q = Inr (length (q_list q) < nat (b_capacity q), q') \<and> q_ok q' \<and>
       q_list q' = (if length (q_list q) < nat (b_capacity q) then q_list q @ [x] else q_list q)) \<and>
     (q_list q \<noteq> [] \<longrightarrow>
       (\<exists>q'. q_take q = Inr (Some (hd (q_list q)), q') \<and> q_ok q' \<and> q_list q' = tl (q_list q))) \<and>
     q_ok (q_clear q) \<and> q_list (q_clear q) = []"
proof -
  have "\<exists>q'. q_take q = Inr (Some (hd (q_list q)), q') \<and> q_ok q' \<and> q_list q' = tl (q_list q)"
    if "q_list q \<noteq> []"
    using lq.take_front_some[OF assms, of "hd (q_list q)" "tl (q_list q)"] that by auto
  then show ?thesis using lq.put_cases[OF assms, of x] q_clear_ok[OF assms] by blast
qed

theorem queue_refines_list_witness:
  "\<exists>q'. q_push 9 ring_example = Inr (True, q') \<and> q_list q' = [7, 9]"
  using queue_refines_list[OF ring_example_ok, of 9]
  by (auto simp: ring_example_def q_list_def q_slot_def)

text \<open>
  \<^verbatim>\<open>front\<close> forgets to wrap: it reads \<^verbatim>\<open>b_array[b_first+1]\<close>. On a queue that holds something it
  returns the oldest item, except when the last item taken was in the last slot: then it reads
  one element past the end of the array.
\<close>

theorem queue_front:
  assumes "q_ok q" "q_list q \<noteq> []"
  shows "q_front q = (if b_first q = b_capacity q - 1 then Inl (Undefined Out_of_bounds)
     else Inr (Some (Some (hd (q_list q)))))"
proof (cases "b_first q = b_capacity q - 1")
  case True
  then show ?thesis using assms q_list_empty_iff[OF assms(1)]
    by (simp add: q_front_def array_get_def q_ok_def)
next
  case False
  have sz: "b_size q \<noteq> 0" using assms q_list_empty_iff by blast
  then have n: "0 < nat (b_size q)" using assms(1) by (simp add: q_ok_def)
  have b: "0 \<le> b_first q + 1" "b_first q + 1 < b_capacity q" "int (length (b_array q)) = b_capacity q"
    using assms(1) False by (auto simp: q_ok_def)
  then have slot: "q_slot q 0 = nat (b_first q + 1)" by (simp add: q_slot_def)
  have "b_array q ! q_slot q 0 \<noteq> None" using assms(1) n unfolding q_ok_def by blast
  then obtain v where "b_array q ! q_slot q 0 = Some v" by auto
  moreover have "hd (q_list q) = the (b_array q ! q_slot q 0)"
    using n by (simp add: q_list_def hd_map upt_rec)
  ultimately show ?thesis using False sz b slot by (simp add: q_front_def array_get_def)
qed

theorem queue_front_witness: "q_front ring_example = Inl (Undefined Out_of_bounds)"
proof -
  have "q_list ring_example \<noteq> []" by (simp add: q_list_def ring_example_def)
  from queue_front[OF ring_example_ok this] show ?thesis by (simp add: ring_example_def)
qed

text \<open>
  C29. Every interleaving of producers, consumers, notifications, timeouts and spurious wake-ups
  is FIFO: the items pushed are the items popped followed by the items in the queue, in order.
  The queue never exceeds its capacity, no consumer sleeps while an item is there, and the debug
  counters count exactly the successful operations. Their getters return the low 32 bits of the counts,
  as an \<^verbatim>\<open>int\<close>: the counts themselves up to 2147483647 operations, and not above.
\<close>

theorem queue_interleaving_fifo:
  assumes "reach qsys_start qsys_step s"
  shows "qs_pushed s = qs_popped s @ q_list (qs_queue s) \<and>
     b_size (qs_queue s) = int (length (qs_pushed s)) - int (length (qs_popped s)) \<and>
     0 \<le> b_size (qs_queue s) \<and> b_size (qs_queue s) \<le> b_capacity (qs_queue s) \<and>
     (qs_asleep s \<noteq> {} \<longrightarrow> q_list (qs_queue s) = []) \<and>
     (b_debug (qs_queue s) \<longrightarrow>
        b_wcnt (qs_queue s) = int (length (qs_pushed s)) \<and> b_rcnt (qs_queue s) = int (length (qs_popped s)) \<and>
        (get_wcnt (qs_queue s) - int (length (qs_pushed s))) mod 2 ^ 32 = 0 \<and>
        (get_rcnt (qs_queue s) - int (length (qs_popped s))) mod 2 ^ 32 = 0 \<and>
        (get_wcnt (qs_queue s) = int (length (qs_pushed s)) \<longleftrightarrow> int (length (qs_pushed s)) \<le> INT_MAX) \<and>
        (get_rcnt (qs_queue s) = int (length (qs_popped s)) \<longleftrightarrow> int (length (qs_popped s)) \<le> INT_MAX))"
proof -
  let ?q = "qs_queue s" and ?n = "length (qs_pushed s)" and ?m = "length (qs_popped s)"
  have inv: "qsys_inv s" by (rule qsys.reach_inv[OF assms])
  then have fifo: "qs_pushed s = qs_popped s @ q_list ?q" "qs_asleep s \<noteq> {} \<longrightarrow> q_list ?q = []"
    and cnt: "b_debug ?q \<longrightarrow> b_wcnt ?q = int ?n \<and> b_rcnt ?q = int ?m"
    by (simp_all add: qsys_inv_def Let_def)
  have size: "0 \<le> b_size ?q" "b_size ?q \<le> b_capacity ?q" using inv by (auto simp: qsys_inv_def q_ok_def Let_def)
  have "?n = ?m + nat (b_size ?q)" using arg_cong[OF fifo(1), of length] by (simp add: q_list_def)
  then have "b_size ?q = int ?n - int ?m" using size(1) by simp
  moreover have "b_debug ?q \<longrightarrow> get_wcnt ?q = sint (word_of_int (int ?n) :: 32 word) \<and> get_rcnt ?q = sint (word_of_int (int ?m) :: 32 word)"
    using cnt by (simp add: get_wcnt_def get_rcnt_def)
  ultimately show ?thesis using fifo size cnt narrowed[of ?n] narrowed[of ?m] by (intro conjI impI) (simp_all only: simp_thms)
qed

theorem queue_interleaving_fifo_witness:
  "\<exists>s :: nat qsys. reach qsys_start qsys_step s \<and> qs_popped s = [] \<and> qs_pushed s = [5] \<and> q_list (qs_queue s) = [5]"
proof -
  obtain q :: "nat buffer_queue" where q: "queue_new 2 True = Inr q" "q_ok q" "q_list q = []" "b_capacity q = 2"
    using queue_new_ok[of 2 True] by auto
  let ?s = "\<lparr>qs_queue = q, qs_asleep = {}, qs_woken = {}, qs_pushed = [], qs_popped = []\<rparr>"
  have st: "qsys_start ?s" using q(1) by (auto simp: qsys_start_def)
  obtain q' where q': "q_push 5 q = Inr (True, q')"
    using lq.put_room[OF q(2), of 5] q by auto
  have "qsys_step ?s (wake_all (?s\<lparr>qs_queue := q', qs_pushed := [5]\<rparr>))"
    using qs_push[of 5 ?s True q'] q' by simp
  then have r: "reach qsys_start qsys_step (wake_all (?s\<lparr>qs_queue := q', qs_pushed := [5]\<rparr>))"
    by (rule reach_step[OF reach_start[of qsys_start, OF st]])
  from queue_interleaving_fifo[OF r] show ?thesis
    using r by (intro exI[of _ "wake_all (?s\<lparr>qs_queue := q', qs_pushed := [5]\<rparr>)"]) (simp add: wake_all_def)
qed

end
