(* ===== verification/Cstring.thy ===== *)
theory Cstring
  imports Prelude
begin

text \<open>
  The parts of the C string library the load generator uses: NUL-terminated strings in fixed
  character arrays, searching, decimal conversion in both directions. A C string passed around
  by pointer is a \<^typ>\<open>string\<close> without NUL; an array is a list of its full size, and a copy that does
  not fit, or a read of an array with no NUL in it, faults.
\<close>

section \<open>Character arrays\<close>

abbreviation NUL :: char where "NUL \<equiv> CHR 0x00"
abbreviation CR :: char where "CR \<equiv> CHR 0x0D"
abbreviation LF :: char where "LF \<equiv> CHR 0x0A"

definition crlf :: string where "crlf = [CR, LF]"

text \<open>The string in an array: up to the first NUL.\<close>

definition c_str :: "char list \<Rightarrow> string result" where
  "c_str arr = (if NUL \<in> set arr then Inr (takeWhile (\<lambda>c. c \<noteq> NUL) arr) else Inl (Undefined Out_of_bounds))"

definition bzero :: "nat \<Rightarrow> char list" where
  "bzero n = replicate n NUL"

definition strcpy :: "char list \<Rightarrow> string \<Rightarrow> char list result" where
  "strcpy arr s = mem_write 0 (s @ [NUL]) arr"

definition strcat :: "char list \<Rightarrow> string \<Rightarrow> char list result" where
  "strcat arr s = rbind (c_str arr) (\<lambda>t. mem_write (int (length t)) (s @ [NUL]) arr)"

text \<open>\<^verbatim>\<open>strncpy\<close> writes exactly \<^verbatim>\<open>n\<close> bytes: the string, cut or padded with NULs.\<close>

definition strncpy :: "char list \<Rightarrow> string \<Rightarrow> nat \<Rightarrow> char list result" where
  "strncpy arr s n = mem_write 0 (take n s @ replicate (n - length s) NUL) arr"

definition strcats :: "char list \<Rightarrow> string list \<Rightarrow> char list result" where
  "strcats arr ss = foldl (\<lambda>r s. rbind r (\<lambda>arr. strcat arr s)) (Inr arr) ss"

text \<open>An array that holds a given string.\<close>

definition holds_str :: "char list \<Rightarrow> nat \<Rightarrow> string \<Rightarrow> bool" where
  "holds_str arr n s \<longleftrightarrow> length arr = n \<and> c_str arr = Inr s"

lemma c_str_prefix: "NUL \<notin> set s \<Longrightarrow> c_str (s @ NUL # r) = Inr s"
  by (auto simp: c_str_def takeWhile_tail takeWhile_eq_all_conv)

lemma c_str_bzero: "0 < n \<Longrightarrow> c_str (bzero n) = Inr []"
  by (cases n) (simp_all add: c_str_def bzero_def)

lemma c_str_split:
  assumes "c_str arr = Inr s"
  obtains r where "arr = s @ NUL # r" "NUL \<notin> set s"
proof -
  have n: "NUL \<in> set arr" "s = takeWhile (\<lambda>c. c \<noteq> NUL) arr"
    using assms by (auto simp: c_str_def split: if_splits)
  have "dropWhile (\<lambda>c. c \<noteq> NUL) arr \<noteq> []" using n by (simp add: dropWhile_eq_Nil_conv)
  then obtain x r where "dropWhile (\<lambda>c. c \<noteq> NUL) arr = x # r" by (cases "dropWhile (\<lambda>c. c \<noteq> NUL) arr") auto
  moreover have "x = NUL" using calculation hd_dropWhile[of "\<lambda>c. c \<noteq> NUL" arr] by fastforce
  moreover have "NUL \<notin> set s" using n set_takeWhileD[of NUL "\<lambda>c. c \<noteq> NUL" arr] by auto
  ultimately show ?thesis using that n by (metis takeWhile_dropWhile_id)
qed

lemma strcpy_ok:
  assumes "NUL \<notin> set s" "length s < length arr"
  shows "\<exists>a. strcpy arr s = Inr a \<and> holds_str a (length arr) s"
  using assms by (simp add: strcpy_def mem_write_ok splice_at_def holds_str_def c_str_prefix)

lemma strcat_ok:
  assumes "holds_str arr n t" "NUL \<notin> set s" "length t + length s < n"
  shows "\<exists>a. strcat arr s = Inr a \<and> holds_str a n (t @ s)"
proof -
  obtain r where arr: "arr = t @ NUL # r" "NUL \<notin> set t"
    using assms(1) c_str_split by (metis holds_str_def)
  have len: "length arr = n" using assms(1) by (simp add: holds_str_def)
  have "strcat arr s = Inr ((t @ s) @ NUL # drop (length t + Suc (length s)) arr)"
    using assms len arr(1) by (simp add: strcat_def holds_str_def mem_write_ok splice_at_def)
  moreover have "c_str ((t @ s) @ NUL # drop (length t + Suc (length s)) arr) = Inr (t @ s)"
    by (rule c_str_prefix) (use assms(2) arr(2) in simp)
  ultimately show ?thesis using len assms(3) by (simp add: holds_str_def)
qed

lemma strcat_overflow:
  assumes "holds_str arr n t" "n \<le> length t + length s"
  shows "strcat arr s = Inl (Undefined Out_of_bounds)"
  using assms by (simp add: strcat_def holds_str_def mem_write_def)

lemma strcats_Nil [simp]: "strcats arr [] = Inr arr"
  by (simp add: strcats_def)

lemma strcats_Cons [simp]: "strcats arr (s # ss) = rbind (strcat arr s) (\<lambda>a. strcats a ss)"
proof -
  have "foldl (\<lambda>r s. rbind r (\<lambda>arr. strcat arr s)) (Inl e) ss = Inl e" for e
    by (induction ss) simp_all
  then show ?thesis by (cases "strcat arr s") (simp_all add: strcats_def)
qed

lemma strcats_ok:
  assumes "holds_str arr n t" "\<forall>s \<in> set ss. NUL \<notin> set s" "length t + length (concat ss) < n"
  shows "\<exists>a. strcats arr ss = Inr a \<and> holds_str a n (t @ concat ss)"
  using assms
proof (induction ss arbitrary: arr t)
  case Nil
  then show ?case by simp
next
  case (Cons s ss)
  obtain a where a: "strcat arr s = Inr a" "holds_str a n (t @ s)"
    using strcat_ok[OF Cons.prems(1), of s] Cons.prems by auto
  then show ?case using Cons.IH[OF a(2)] Cons.prems by (simp add: add.assoc)
qed

lemma strncpy_ok:
  assumes "NUL \<notin> set s" "length s < n" "k = length s"
  shows "\<exists>a. strncpy (bzero n) s k = Inr a \<and> holds_str a n s"
proof -
  have "strncpy (bzero n) s k = Inr (s @ NUL # replicate (n - Suc k) NUL)"
    using assms by (simp add: strncpy_def mem_write_ok splice_at_def bzero_def Suc_diff_Suc replicate_Suc[symmetric] del: replicate_Suc)
  then show ?thesis using assms c_str_prefix[of s "replicate (n - Suc k) NUL"] by (simp add: holds_str_def)
qed

lemma strncpy_take: "n \<le> length s \<Longrightarrow> strncpy arr s n = strncpy arr (take n s) n"
  by (simp add: strncpy_def)

lemma strncpy_overflow: "n < k \<Longrightarrow> strncpy (bzero n) s k = Inl (Undefined Out_of_bounds)"
  by (simp add: strncpy_def mem_write_def bzero_def)

section \<open>Searching\<close>

text \<open>A pointer returned by a search is an offset; \<^const>\<open>None\<close> is the null pointer.\<close>

fun strchr :: "string \<Rightarrow> char \<Rightarrow> nat option" where
  "strchr [] c = None"
| "strchr (x # xs) c = (if x = c then Some 0 else map_option Suc (strchr xs c))"

fun strrchr :: "string \<Rightarrow> char \<Rightarrow> nat option" where
  "strrchr [] c = None"
| "strrchr (x # xs) c =
     (case strrchr xs c of Some i \<Rightarrow> Some (Suc i) | None \<Rightarrow> if x = c then Some 0 else None)"

fun strstr :: "string \<Rightarrow> string \<Rightarrow> nat option" where
  "strstr [] pat = (if pat = [] then Some 0 else None)"
| "strstr (x # xs) pat =
     (if take (length pat) (x # xs) = pat then Some 0 else map_option Suc (strstr xs pat))"

definition strcspn :: "string \<Rightarrow> char \<Rightarrow> nat" where
  "strcspn s c = length (takeWhile (\<lambda>x. x \<noteq> c) s)"

definition tolower :: "char \<Rightarrow> char" where
  "tolower c = (let n = of_char c :: nat in if 65 \<le> n \<and> n \<le> 90 then char_of (n + 32) else c)"

text \<open>\<^verbatim>\<open>strncasecmp(a, b, strlen(a)) == 0\<close>.\<close>

definition prefix_nocase :: "string \<Rightarrow> string \<Rightarrow> bool" where
  "prefix_nocase a b \<longleftrightarrow> map tolower (take (length a) b) = map tolower a"

lemma strchr_None_iff: "strchr s c = None \<longleftrightarrow> c \<notin> set s"
  by (induction s) auto

lemma strchr_append: "c \<notin> set s \<Longrightarrow> strchr (s @ c # r) c = Some (length s)"
  by (induction s) auto

lemma strchr_split: "strchr s c = Some i \<Longrightarrow> i < length s \<and> s ! i = c \<and> c \<notin> set (take i s)"
  by (induction s arbitrary: i) (auto split: if_splits)

lemma strcspn_append: "c \<notin> set s \<Longrightarrow> strcspn (s @ c # r) c = length s"
  by (induction s) (auto simp: strcspn_def)

lemma strrchr_None_iff: "strrchr s c = None \<longleftrightarrow> c \<notin> set s"
  by (induction s) (auto split: option.splits)

lemma strrchr_append: "c \<notin> set r \<Longrightarrow> strrchr (s @ c # r) c = Some (length s)"
proof (induction s)
  case Nil
  then have "strrchr r c = None" by (simp add: strrchr_None_iff)
  then show ?case by simp
qed simp

lemma strstr_sound: "strstr s pat = Some i \<Longrightarrow> \<exists>a b. s = a @ pat @ b \<and> length a = i"
proof (induction s arbitrary: i)
  case Nil
  then show ?case by (auto split: if_splits)
next
  case (Cons x xs)
  show ?case
  proof (cases "take (length pat) (x # xs) = pat")
    case True
    then have "x # xs = pat @ drop (length pat) (x # xs)" by (metis append_take_drop_id)
    then show ?thesis using Cons.prems True by (intro exI[of _ "[]"] exI) auto
  next
    case False
    then obtain j where j: "strstr xs pat = Some j" "i = Suc j" using Cons.prems by auto
    then obtain a b where "xs = a @ pat @ b" "length a = j" using Cons.IH by blast
    then show ?thesis using j by (intro exI[of _ "x # a"] exI[of _ b]) simp
  qed
qed

section \<open>Decimal numbers\<close>

definition is_digit :: "char \<Rightarrow> bool" where
  "is_digit c \<longleftrightarrow> (let n = of_char c :: nat in 48 \<le> n \<and> n \<le> 57)"

definition is_space :: "char \<Rightarrow> bool" where
  "is_space c \<longleftrightarrow> (let n = of_char c :: nat in n = 32 \<or> 9 \<le> n \<and> n \<le> 13)"

definition digit_value :: "char \<Rightarrow> int" where
  "digit_value c = int (of_char c) - 48"

definition digit_char :: "nat \<Rightarrow> char" where
  "digit_char d = char_of (48 + d)"

definition digits_value :: "string \<Rightarrow> int" where
  "digits_value s = foldl (\<lambda>n c. 10 * n + digit_value c) 0 s"

text \<open>
  The conversion that \<^verbatim>\<open>strtol\<close>, \<^verbatim>\<open>atoi\<close> and \<^verbatim>\<open>%d\<close> share: leading white space, a sign, digits. The
  result is the number and the rest of the input, or \<^const>\<open>None\<close> when there is no digit.
\<close>

definition scan_int :: "string \<Rightarrow> (int \<times> string) option" where
  "scan_int s =
     (let s = dropWhile is_space s;
          (neg, s) = (case s of c # cs \<Rightarrow> if c = CHR ''-'' then (True, cs)
                        else if c = CHR ''+'' then (False, cs) else (False, s) | [] \<Rightarrow> (False, []));
          ds = takeWhile is_digit s; n = digits_value ds
      in if ds = [] then None else Some (if neg then - n else n, dropWhile is_digit s))"

text \<open>\<^verbatim>\<open>atoi\<close> of a value that no \<^verbatim>\<open>int\<close> represents is undefined.\<close>

definition atoi :: "string \<Rightarrow> int result" where
  "atoi s = (case scan_int s of None \<Rightarrow> Inr 0 | Some (n, _) \<Rightarrow> cint n)"

fun digits :: "nat \<Rightarrow> string" where
  "digits n = (if n < 10 then [digit_char n] else digits (n div 10) @ [digit_char (n mod 10)])"

declare digits.simps [simp del]

text \<open>The text of \<^verbatim>\<open>%d\<close>.\<close>

definition decimal :: "int \<Rightarrow> string" where
  "decimal n = (if n < 0 then CHR ''-'' # digits (nat (- n)) else digits (nat n))"

lemma of_char_digit: "d < 10 \<Longrightarrow> (of_char (digit_char d) :: nat) = 48 + d"
  by (simp add: digit_char_def)

lemma digit_char_value: "d < 10 \<Longrightarrow> digit_value (digit_char d) = int d"
  by (simp add: digit_value_def digit_char_def)

lemma is_digit_char: "d < 10 \<Longrightarrow> is_digit (digit_char d)"
  by (simp add: is_digit_def of_char_digit Let_def)

lemma digits_are_digits: "\<forall>c \<in> set (digits n). is_digit c"
proof (induction n rule: digits.induct)
  case (1 n)
  then show ?case by (subst digits.simps) (auto simp: is_digit_char)
qed

lemma digits_nonempty: "digits n \<noteq> []"
  by (subst digits.simps) simp

lemma digits_value_snoc: "digits_value (s @ [c]) = 10 * digits_value s + digit_value c"
  by (simp add: digits_value_def)

lemma digits_value_digits: "digits_value (digits n) = int n"
proof (induction n rule: digits.induct)
  case (1 n)
  show ?case
  proof (cases "n < 10")
    case True
    then show ?thesis by (subst digits.simps) (simp add: digits_value_def digit_char_value)
  next
    case False
    then have "digits n = digits (n div 10) @ [digit_char (n mod 10)]" by (subst digits.simps) simp
    moreover have "digits_value (digits (n div 10)) = int (n div 10)" using 1 False by simp
    ultimately show ?thesis
      by (simp add: digits_value_snoc digit_char_value zdiv_int zmod_int)
  qed
qed

text \<open>A list that starts with characters of a class, then one outside it.\<close>

lemma takeWhile_boundary:
  assumes "\<forall>c \<in> set s. P c" "r = [] \<or> \<not> P (hd r)"
  shows "takeWhile P (s @ r) = s" "dropWhile P (s @ r) = r"
  using assms by (auto simp: takeWhile_append dropWhile_append split: if_splits) (cases r; auto)+

lemma digit_not_special:
  "is_digit c \<Longrightarrow> \<not> is_space c" "is_digit c \<Longrightarrow> c \<noteq> CHR ''-''" "is_digit c \<Longrightarrow> c \<noteq> CHR ''+''" "is_digit c \<Longrightarrow> c \<noteq> NUL"
  by (auto simp: is_digit_def is_space_def Let_def)

lemma scan_int_decimal:
  assumes r: "r = [] \<or> \<not> is_digit (hd r)" and w: "\<forall>c \<in> set w. is_space c"
  shows "scan_int (w @ decimal n @ r) = Some (n, r)"
proof -
  have run: "takeWhile is_digit (digits k @ r) = digits k" "dropWhile is_digit (digits k @ r) = r" for k
    using takeWhile_boundary[OF digits_are_digits r] by auto
  obtain c cs where c: "digits (nat n) = c # cs" using digits_nonempty[of "nat n"] by (cases "digits (nat n)") auto
  then have d: "is_digit c" using digits_are_digits[of "nat n"] by simp
  have "\<not> is_space (hd (decimal n @ r))" "decimal n \<noteq> []"
    using digit_not_special(1)[OF d] c digits_nonempty by (auto simp: decimal_def is_space_def)
  then have skip: "dropWhile is_space (w @ decimal n @ r) = decimal n @ r"
    using takeWhile_boundary(2)[OF w, of "decimal n @ r"] by simp
  show ?thesis
  proof (cases "n < 0")
    case True
    then show ?thesis unfolding scan_int_def skip
      using run[of "nat (- n)"] digits_nonempty by (simp add: decimal_def digits_value_digits Let_def)
  next
    case False
    then have "decimal n @ r = c # cs @ r" using c by (simp add: decimal_def)
    then show ?thesis unfolding scan_int_def skip
      using run[of "nat n"] c d digit_not_special(2,3)[OF d] False digits_value_digits[of "nat n"]
      by (simp add: Let_def)
  qed
qed

lemma scan_int_digits:
  assumes "ds \<noteq> []" "\<forall>c \<in> set ds. is_digit c" "r = [] \<or> \<not> is_digit (hd r)"
  shows "scan_int (ds @ r) = Some (digits_value ds, r)"
proof -
  obtain c cs where c: "ds = c # cs" using assms(1) by (cases ds) auto
  then have d: "is_digit c" using assms(2) by simp
  note run = takeWhile_boundary[OF assms(2,3)]
  show ?thesis unfolding scan_int_def using run c d digit_not_special[OF d] by (simp add: Let_def)
qed

lemma atoi_decimal: "INT_MIN \<le> n \<Longrightarrow> n \<le> INT_MAX \<Longrightarrow> atoi (decimal n) = Inr n"
  using scan_int_decimal[of "[]" "[]" n] by (simp add: atoi_def)

end
