(* ===== verification/Logger.thy ===== *)
theory Logger
  imports Log_Queue Cstring
begin

text \<open>
  The logger (src/log/log.h, log.cpp) and the print macros (src/log/pr.h, pr.cpp): levels, opening and
  rolling the log file, the text of a line, and the buffer it is composed in. The arguments of a
  \<^verbatim>\<open>printf\<close> format are given as the text they produce. The asynchronous writer is in the theory
  \<open>Async_Log\<close>. The lemmas show which level passes, which file a line goes to, and when the
  buffer is large enough.
\<close>

section \<open>The print macros\<close>

abbreviation (input) PR_LEVEL_ERROR :: int where "PR_LEVEL_ERROR \<equiv> 0"
abbreviation (input) PR_LEVEL_WARN :: int where "PR_LEVEL_WARN \<equiv> 1"
abbreviation (input) PR_LEVEL_INFO :: int where "PR_LEVEL_INFO \<equiv> 2"
abbreviation (input) PR_LEVEL_DEBUG :: int where "PR_LEVEL_DEBUG \<equiv> 3"

text \<open>The old level, and the new one.\<close>

definition pr_set_level :: "int \<Rightarrow> int \<Rightarrow> int \<times> int" where
  "pr_set_level level pr_level =
     (let level = (if level > PR_LEVEL_DEBUG then PR_LEVEL_DEBUG
                   else if level < PR_LEVEL_ERROR then PR_LEVEL_ERROR else level)
      in (pr_level, level))"

text \<open>\<^verbatim>\<open>%-5s\<close>: padded on the right to five characters.\<close>

definition pad_right :: "nat \<Rightarrow> string \<Rightarrow> string" where
  "pad_right n s = s @ replicate (n - length s) CHR '' ''"

definition PR :: "int \<Rightarrow> string \<Rightarrow> string \<Rightarrow> int \<Rightarrow> string \<Rightarrow> int \<Rightarrow> string" where
  "PR level val func line msg pr_level =
     (if level \<le> pr_level then ''['' @ pad_right 5 val @ '']['' @ func @ '':'' @ decimal line @ ''] '' @ msg else [])"

definition PR_DEBUG :: "string \<Rightarrow> int \<Rightarrow> string \<Rightarrow> int \<Rightarrow> string" where
  "PR_DEBUG = PR PR_LEVEL_DEBUG ''debug''"

definition PR_INFO :: "string \<Rightarrow> int \<Rightarrow> string \<Rightarrow> int \<Rightarrow> string" where
  "PR_INFO = PR PR_LEVEL_INFO ''info''"

definition PR_WARN :: "string \<Rightarrow> int \<Rightarrow> string \<Rightarrow> int \<Rightarrow> string" where
  "PR_WARN = PR PR_LEVEL_WARN ''warn''"

definition PR_ERROR :: "string \<Rightarrow> int \<Rightarrow> string \<Rightarrow> int \<Rightarrow> string" where
  "PR_ERROR = PR PR_LEVEL_ERROR ''error''"

text \<open>\<^verbatim>\<open>tid_to_string\<close> prints the identifier, whose text is given, and a line end; \<^verbatim>\<open>atoll\<close> of a value
  that no \<^verbatim>\<open>long long\<close> represents is undefined.\<close>

definition tid_to_string :: "string \<Rightarrow> string" where
  "tid_to_string tid = tid @ [LF]"

definition atoll :: "string \<Rightarrow> int result" where
  "atoll s = (case scan_int s of
     None \<Rightarrow> Inr 0
   | Some (n, _) \<Rightarrow> if - (2 ^ 63) \<le> n \<and> n < 2 ^ 63 then Inr n else Inl (Undefined Signed_overflow))"

definition tid_to_ll :: "string \<Rightarrow> int result" where
  "tid_to_ll tid = atoll (tid_to_string tid)"

section \<open>Levels\<close>

datatype log_level = LOG_LEVEL_ERROR | LOG_LEVEL_WARN | LOG_LEVEL_INFO | LOG_LEVEL_DEBUG | NUM_LOG_LEVELS

fun level_no :: "log_level \<Rightarrow> nat" where
  "level_no LOG_LEVEL_ERROR = 0"
| "level_no LOG_LEVEL_WARN = 1"
| "level_no LOG_LEVEL_INFO = 2"
| "level_no LOG_LEVEL_DEBUG = 3"
| "level_no NUM_LOG_LEVELS = 4"

lemma level_no_inj: "level_no a = level_no b \<longleftrightarrow> a = b"
  by (cases a; cases b) simp_all

text \<open>The code compares levels as the integers they stand for.\<close>

instantiation log_level :: linorder
begin

definition less_eq_log_level :: "log_level \<Rightarrow> log_level \<Rightarrow> bool" where
  "less_eq_log_level a b \<longleftrightarrow> level_no a \<le> level_no b"

definition less_log_level :: "log_level \<Rightarrow> log_level \<Rightarrow> bool" where
  "less_log_level a b \<longleftrightarrow> level_no a < level_no b"

instance
  by standard (auto simp: less_eq_log_level_def less_log_level_def level_no_inj)

end

definition LogLevelName :: "log_level \<Rightarrow> string result" where
  "LogLevelName level = array_get [''[ERROR]'', ''[WARN ]'', ''[INFO ]'', ''[DEBUG]''] (int (level_no level))"

section \<open>Time and formats\<close>

record my_time =
  year :: int
  month :: int
  day :: int
  hour :: int
  minute :: int
  second :: int

text \<open>A conversion to \<^verbatim>\<open>char\<close>, which is signed here, and the fields of \<^verbatim>\<open>struct tm\<close>.\<close>

definition to_char :: "int \<Rightarrow> int" where
  "to_char n = (n + 128) mod 256 - 128"

definition get_current_sys_time :: "int \<Rightarrow> int \<Rightarrow> int \<Rightarrow> int \<Rightarrow> int \<Rightarrow> int \<Rightarrow> my_time" where
  "get_current_sys_time tm_year tm_mon tm_mday tm_hour tm_min tm_sec =
     \<lparr>year = tm_year + 1900, month = to_char (tm_mon + 1), day = to_char tm_mday,
      hour = to_char tm_hour, minute = to_char tm_min, second = to_char tm_sec\<rparr>"

text \<open>\<^verbatim>\<open>%04d\<close> and \<^verbatim>\<open>%02d\<close>.\<close>

definition zero_pad :: "nat \<Rightarrow> int \<Rightarrow> string" where
  "zero_pad n x =
     (if x < 0 then CHR ''-'' # replicate (n - 1 - length (digits (nat (- x)))) CHR ''0'' @ digits (nat (- x))
      else replicate (n - length (digits (nat x))) CHR ''0'' @ digits (nat x))"

definition date_text :: "my_time \<Rightarrow> string" where
  "date_text t = zero_pad 4 (year t) @ ''_'' @ zero_pad 2 (month t) @ ''_'' @ zero_pad 2 (day t) @ ''_''"

definition header_line :: "my_time \<Rightarrow> string \<Rightarrow> string \<Rightarrow> string \<Rightarrow> int \<Rightarrow> string" where
  "header_line t level_name file_name func line_no =
     zero_pad 4 (year t) @ ''-'' @ zero_pad 2 (month t) @ ''-'' @ zero_pad 2 (day t) @ '' '' @
     zero_pad 2 (hour t) @ '':'' @ zero_pad 2 (minute t) @ '':'' @ zero_pad 2 (second t) @ '' '' @ level_name @
     '' ['' @ file_name @ '':'' @ func @ '':'' @ decimal line_no @ ''] ''"

text \<open>\<^verbatim>\<open>snprintf\<close> to a position of an array: at most \<^verbatim>\<open>n - 1\<close> characters and a NUL; a size of 0 writes
  nothing. The value returned is the length of the whole text.\<close>

definition snprintf :: "int \<Rightarrow> nat \<Rightarrow> string \<Rightarrow> char list \<Rightarrow> (int \<times> char list) result" where
  "snprintf off n text arr =
     rbind (if n = 0 then Inr arr else mem_write off (take (n - 1) text @ [NUL]) arr) (\<lambda>arr.
     Inr (int (length text), arr))"

section \<open>The logger\<close>

text \<open>
  An open stream is the file it writes to; \<^const>\<open>None\<close> is the null pointer. The logger is a static
  object, so its members are zero before the constructor. The contents of the files are part of the
  state.
\<close>

datatype log_file = Stdout | Log_file string

record logger =
  l_dir_name :: "char list"
  l_file_name :: "char list"
  l_split_lines :: int
  l_buf_size :: int
  l_count :: int
  l_today :: int
  l_fp :: "log_file option"
  l_buf :: "char list"
  l_inited :: bool
  l_buffer_queue :: "string buffer_queue option"
  l_is_async :: bool
  l_is_stdout :: bool
  is_thread_stop :: bool
  l_asyncw_thread :: bool
  g_log_level :: log_level
  lg_files :: "log_file \<Rightarrow> string"

definition logger_new :: "(log_file \<Rightarrow> string) \<Rightarrow> logger" where
  "logger_new files =
     \<lparr>l_dir_name = bzero 128, l_file_name = bzero 128, l_split_lines = 0, l_buf_size = 0, l_count = 0, l_today = 0,
      l_fp = None, l_buf = [], l_inited = False, l_buffer_queue = None, l_is_async = False, l_is_stdout = False,
      is_thread_stop = False, l_asyncw_thread = False, g_log_level = LOG_LEVEL_INFO, lg_files = files\<rparr>"

definition get_log_level :: "logger \<Rightarrow> log_level" where
  "get_log_level lg = g_log_level lg"

definition set_log_level :: "log_level \<Rightarrow> logger \<Rightarrow> (log_level \<times> logger) result" where
  "set_log_level level lg =
     rbind (c_assert (level \<ge> LOG_LEVEL_ERROR \<and> level \<le> LOG_LEVEL_DEBUG)) (\<lambda>_.
     Inr (g_log_level lg, lg\<lparr>g_log_level := level\<rparr>))"

text \<open>\<^verbatim>\<open>fopen\<close> for appending; whether it succeeds is given.\<close>

definition fopen_append :: "bool \<Rightarrow> string \<Rightarrow> log_file option" where
  "fopen_append ok name = (if ok then Some (Log_file name) else None)"

text \<open>The end of \<^verbatim>\<open>init\<close>, for a named file.\<close>

definition init_file :: "my_time \<Rightarrow> bool \<Rightarrow> string \<Rightarrow> logger \<Rightarrow> (bool \<times> logger) result" where
  "init_file tm fopen_ok file_name lg =
     (case strrchr file_name CHR ''/'' of
        None \<Rightarrow> Inr (False, lg)
      | Some p \<Rightarrow>
        rbind (strcpy (l_file_name lg) (drop (p + 1) file_name)) (\<lambda>fname.
        rbind (strncpy (l_dir_name lg) file_name (p + 1)) (\<lambda>dname.
        let lg = lg\<lparr>l_file_name := fname, l_dir_name := dname\<rparr> in
        rbind (c_str dname) (\<lambda>dir.
        rbind (c_str fname) (\<lambda>name.
        rbind (snprintf 0 267 (dir @ date_text tm @ name) (bzero 268)) (\<lambda>(_, full).
        rbind (c_str full) (\<lambda>log_file_fullname.
        let lg = lg\<lparr>l_fp := fopen_append fopen_ok log_file_fullname\<rparr> in
        if l_fp lg = None then Inr (False, lg) else Inr (True, lg\<lparr>l_inited := True\<rparr>))))))))"

definition init_buffers :: "int \<Rightarrow> log_level \<Rightarrow> int \<Rightarrow> int \<Rightarrow> my_time \<Rightarrow> logger \<Rightarrow> logger result" where
  "init_buffers buffer_queue_size level buffer_size split_lines tm lg =
     rbind (set_log_level level lg) (\<lambda>(_, lg).
     rbind (if buffer_queue_size \<ge> 1 then
              rbind (queue_new buffer_queue_size False) (\<lambda>q.
              Inr (lg\<lparr>l_is_async := True, l_buffer_queue := Some q, l_asyncw_thread := True\<rparr>))
            else Inr lg) (\<lambda>lg.
     if buffer_size < 0 then Inl (Exception ''std::bad_array_new_length'')
     else Inr (lg\<lparr>l_buf_size := buffer_size, l_buf := bzero (nat buffer_size), l_split_lines := split_lines,
                  l_today := day tm\<rparr>)))"

definition logger_init :: "string option \<Rightarrow> int \<Rightarrow> log_level \<Rightarrow> int \<Rightarrow> int \<Rightarrow> my_time \<Rightarrow> bool \<Rightarrow> logger \<Rightarrow> (bool \<times> logger) result" where
  "logger_init file_name buffer_queue_size level buffer_size split_lines tm fopen_ok lg =
     (if l_inited lg then Inr (False, lg)
      else
        let lg = (if file_name = None then lg\<lparr>l_is_stdout := True\<rparr> else lg) in
        rbind (if l_is_stdout lg then Inr [] else deref file_name) (\<lambda>name.
        if \<not> l_is_stdout lg \<and> length name \<ge> 128
        then Inl (Exception ''file name must be less than 128 bytes!'')
        else
          rbind (init_buffers buffer_queue_size level buffer_size split_lines tm lg) (\<lambda>lg.
          if l_is_stdout lg then Inr (True, lg\<lparr>l_inited := True, l_fp := Some Stdout\<rparr>)
          else init_file tm fopen_ok name lg)))"

section \<open>Writing a line\<close>

text \<open>The first block of \<^verbatim>\<open>write_log\<close>: count the line, and roll the file on a new day and after every
  \<^verbatim>\<open>l_split_lines\<close> lines. When the remainder is 0 the quotient is exact.\<close>

definition roll_file :: "my_time \<Rightarrow> bool \<Rightarrow> logger \<Rightarrow> logger result" where
  "roll_file tm fopen_ok lg =
     (let lg = lg\<lparr>l_count := l_count lg + 1\<rparr> in
      rbind (if l_today lg \<noteq> day tm then Inr True
             else if l_split_lines lg = 0 then Inl (Undefined Division_by_zero)
             else Inr (l_split_lines lg dvd l_count lg)) (\<lambda>roll.
      if \<not> roll then Inr lg
      else
        rbind (deref (l_fp lg)) (\<lambda>_.
        rbind (c_str (l_dir_name lg)) (\<lambda>dir.
        rbind (c_str (l_file_name lg)) (\<lambda>name.
        let prefix = take 22 (date_text tm) in
        Inr (if l_today lg \<noteq> day tm
             then lg\<lparr>l_today := day tm, l_count := 0,
                     l_fp := fopen_append fopen_ok (take 299 (dir @ prefix @ name))\<rparr>
             else lg\<lparr>l_fp := fopen_append fopen_ok
                       (take 299 (dir @ prefix @ name @ ''.'' @ decimal (l_count lg div l_split_lines lg)))\<rparr>))))))"

text \<open>The second block: the header and the text in the buffer, then a line end and a NUL. The size given
  to the second call is that of the whole buffer, not of the rest of it.\<close>

definition compose_line :: "my_time \<Rightarrow> string \<Rightarrow> string \<Rightarrow> int \<Rightarrow> log_level \<Rightarrow> string \<Rightarrow> logger \<Rightarrow> (string \<times> logger) result" where
  "compose_line tm file_name func line_no level msg lg =
     rbind (LogLevelName level) (\<lambda>level_name.
     rbind (snprintf 0 300 (header_line tm level_name file_name func line_no) (l_buf lg)) (\<lambda>(n, buf).
     rbind (snprintf n (nat (l_buf_size lg - 1)) msg buf) (\<lambda>(m, buf).
     rbind (mem_write (n + m) [LF] buf) (\<lambda>buf.
     rbind (mem_write (n + m + 1) [NUL] buf) (\<lambda>buf.
     rbind (c_str buf) (\<lambda>log_str.
     Inr (log_str, lg\<lparr>l_buf := buf\<rparr>)))))))"

definition fputs :: "string \<Rightarrow> logger \<Rightarrow> logger result" where
  "fputs s lg = rbind (deref (l_fp lg)) (\<lambda>f. Inr (lg\<lparr>lg_files := (lg_files lg)(f := lg_files lg f @ s)\<rparr>))"

text \<open>The last block; with a queue, one try of the loop around \<^verbatim>\<open>push\<close>: true when the loop ends.\<close>

definition emit_line :: "string \<Rightarrow> logger \<Rightarrow> (bool \<times> logger) result" where
  "emit_line log_str lg =
     (if l_is_async lg then
        rbind (deref (l_buffer_queue lg)) (\<lambda>q.
        rbind (q_push log_str q) (\<lambda>(pushed, q).
        Inr (pushed \<or> is_thread_stop lg, lg\<lparr>l_buffer_queue := Some q\<rparr>)))
      else rbind (fputs log_str lg) (\<lambda>lg. Inr (True, lg)))"

definition write_log :: "my_time \<Rightarrow> bool \<Rightarrow> string \<Rightarrow> string \<Rightarrow> int \<Rightarrow> log_level \<Rightarrow> string \<Rightarrow> logger \<Rightarrow> (bool \<times> logger) result" where
  "write_log tm fopen_ok file_name func line_no level msg lg =
     rbind (roll_file tm fopen_ok lg) (\<lambda>lg.
     rbind (compose_line tm file_name func line_no level msg lg) (\<lambda>(log_str, lg).
     emit_line log_str lg))"

definition is_inited :: "logger \<Rightarrow> bool" where
  [simp]: "is_inited lg = l_inited lg"

text \<open>The macros \<^verbatim>\<open>LOG_DEBUG\<close>, \<^verbatim>\<open>LOG_INFO\<close>, \<^verbatim>\<open>LOG_WARN\<close> and \<^verbatim>\<open>LOG_ERROR\<close>: without \<^verbatim>\<open>init\<close> they complain, and go on.
  \<^verbatim>\<open>flush\<close> has no effect on what the files will hold. The value is whether the complaint is printed. While
  the queue is full the macro does not return before another thread moves.\<close>

definition LOG :: "log_level \<Rightarrow> my_time \<Rightarrow> bool \<Rightarrow> string \<Rightarrow> string \<Rightarrow> int \<Rightarrow> string \<Rightarrow> logger \<Rightarrow> (bool \<times> logger) result" where
  "LOG level tm fopen_ok file_name func line_no msg lg =
     (if level \<le> get_log_level lg
      then rbind (write_log tm fopen_ok file_name func line_no level msg lg) (\<lambda>(ended, lg').
           if ended then Inr (\<not> is_inited lg, lg') else Inl Starved)
      else Inr (\<not> is_inited lg, lg))"

text \<open>The end of the destructor, after the writer thread has been joined: the file is closed, the buffer and
  the queue are freed.\<close>

definition logger_delete :: "logger \<Rightarrow> logger" where
  "logger_delete lg = lg\<lparr>l_asyncw_thread := False, l_fp := None, l_buf := [], l_buffer_queue := None\<rparr>"

section \<open>The text of a line\<close>

lemma mem_write_append:
  "off = int (length a) \<Longrightarrow> length src \<le> length r \<Longrightarrow> mem_write off src (a @ r) = Inr (a @ src @ drop (length src) r)"
  by (simp add: mem_write_def splice_at_def)

lemma mem_write_fault: "mem_write off src dst = Inl e \<Longrightarrow> e = Undefined Out_of_bounds"
  by (auto simp: mem_write_def split: if_splits)

lemma mem_write_length: "mem_write off src dst = Inr d \<Longrightarrow> length d = length dst"
  by (auto simp: result_iff)

lemma snprintf_fault: "snprintf off n text arr = Inl e \<Longrightarrow> e = Undefined Out_of_bounds"
  by (auto simp: snprintf_def result_iff split: if_splits dest: mem_write_fault)

lemma snprintf_length: "snprintf off n text arr = Inr (m, a) \<Longrightarrow> m = int (length text) \<and> length a = length arr"
  by (auto simp: snprintf_def result_iff split: if_splits)

lemma LogLevelName_ok: "level \<le> LOG_LEVEL_DEBUG \<Longrightarrow> \<exists>name. LogLevelName level = Inr name"
  by (cases level) (auto simp: LogLevelName_def array_get_def less_eq_log_level_def)

text \<open>What a line says, and when it fits.\<close>

record entry =
  en_file :: string
  en_func :: string
  en_line :: int
  en_level :: log_level
  en_msg :: string

definition level_text :: "log_level \<Rightarrow> string" where
  "level_text level = (case LogLevelName level of Inr name \<Rightarrow> name | Inl _ \<Rightarrow> [])"

definition entry_header :: "my_time \<Rightarrow> entry \<Rightarrow> string" where
  "entry_header tm e = header_line tm (level_text (en_level e)) (en_file e) (en_func e) (en_line e)"

definition entry_line :: "my_time \<Rightarrow> entry \<Rightarrow> string" where
  "entry_line tm e = entry_header tm e @ en_msg e @ [LF]"

definition entry_wf :: "my_time \<Rightarrow> entry \<Rightarrow> bool" where
  "entry_wf tm e \<longleftrightarrow> en_level e \<le> LOG_LEVEL_DEBUG \<and> length (entry_header tm e) < 300 \<and>
     NUL \<notin> set (entry_header tm e) \<and> NUL \<notin> set (en_msg e)"

definition buffer_wf :: "logger \<Rightarrow> bool" where
  "buffer_wf lg \<longleftrightarrow> 300 \<le> l_buf_size lg \<and> int (length (l_buf lg)) = l_buf_size lg"

definition compose_entry :: "my_time \<Rightarrow> entry \<Rightarrow> logger \<Rightarrow> (string \<times> logger) result" where
  "compose_entry tm e lg = compose_line tm (en_file e) (en_func e) (en_line e) (en_level e) (en_msg e) lg"

lemma compose_entry_eq:
  assumes "en_level e \<le> LOG_LEVEL_DEBUG"
  shows "compose_entry tm e lg =
     rbind (snprintf 0 300 (entry_header tm e) (l_buf lg)) (\<lambda>(n, buf).
     rbind (snprintf n (nat (l_buf_size lg - 1)) (en_msg e) buf) (\<lambda>(m, buf).
     rbind (mem_write (n + m) [LF] buf) (\<lambda>buf.
     rbind (mem_write (n + m + 1) [NUL] buf) (\<lambda>buf.
     rbind (c_str buf) (\<lambda>log_str.
     Inr (log_str, lg\<lparr>l_buf := buf\<rparr>))))))"
  using LogLevelName_ok[OF assms] by (auto simp: compose_entry_def compose_line_def entry_header_def level_text_def)

lemma compose_fits:
  assumes wf: "entry_wf tm e" "buffer_wf lg"
    and fit: "int (length (entry_header tm e)) + int (length (en_msg e)) + 2 \<le> l_buf_size lg"
  shows "\<exists>buf. compose_entry tm e lg = Inr (entry_line tm e, lg\<lparr>l_buf := buf\<rparr>) \<and> length buf = length (l_buf lg)"
proof -
  let ?h = "entry_header tm e" and ?m = "en_msg e" and ?b = "l_buf lg"
  have sz: "int (length ?b) = l_buf_size lg" "length ?h < 300" "300 \<le> length ?b"
    using wf by (simp_all add: buffer_wf_def entry_wf_def)
  have room: "length ?h + length ?m + 2 \<le> length ?b" using fit sz(1) by linarith
  define r where "r = drop (length ?h + 1) ?b"
  have r: "length r = length ?b - length ?h - 1" by (simp add: r_def)
  have "mem_write 0 (?h @ [NUL]) ([] @ ?b) = Inr ([] @ (?h @ [NUL]) @ drop (length (?h @ [NUL])) ?b)"
    by (rule mem_write_append) (use room in simp_all)
  then have 1: "snprintf 0 300 ?h ?b = Inr (int (length ?h), ?h @ (NUL # r))"
    using sz(2) by (simp add: snprintf_def r_def)
  have n: "nat (l_buf_size lg - 1) = length ?b - 1" using sz(1) by linarith
  have "take (length ?b - 2) ?m = ?m" using room by simp
  moreover have "mem_write (int (length ?h)) (?m @ [NUL]) (?h @ (NUL # r)) = Inr (?h @ (?m @ [NUL]) @ drop (length (?m @ [NUL])) (NUL # r))"
    by (rule mem_write_append) (use room r in simp_all)
  ultimately have 2: "snprintf (int (length ?h)) (nat (l_buf_size lg - 1)) ?m (?h @ (NUL # r)) =
      Inr (int (length ?m), (?h @ ?m) @ (NUL # drop (length ?m) r))"
    using sz(3) n by (simp add: snprintf_def numeral_2_eq_2)
  define q where "q = drop (length ?m) r"
  have q: "q \<noteq> []" using room r by (simp add: q_def)
  have "mem_write (int (length ?h) + int (length ?m)) [LF] ((?h @ ?m) @ (NUL # q)) = Inr ((?h @ ?m) @ [LF] @ drop (length [LF]) (NUL # q))"
    by (rule mem_write_append) simp_all
  then have 3: "mem_write (int (length ?h) + int (length ?m)) [LF] (?h @ ?m @ (NUL # q)) = Inr ((?h @ ?m @ [LF]) @ q)" by simp
  have 4: "mem_write (int (length ?h) + int (length ?m) + 1) [NUL] ((?h @ ?m @ [LF]) @ q) = Inr ((?h @ ?m @ [LF]) @ [NUL] @ drop (length [NUL]) q)"
    by (rule mem_write_append) (use q in \<open>simp_all add: Suc_le_eq\<close>)
  have 5: "c_str ((?h @ ?m @ [LF]) @ NUL # drop 1 q) = Inr (?h @ ?m @ [LF])"
    using wf by (intro c_str_prefix) (simp add: entry_wf_def)
  have "compose_entry tm e lg = Inr (?h @ ?m @ [LF], lg\<lparr>l_buf := (?h @ ?m @ [LF]) @ NUL # drop 1 q\<rparr>)"
    using wf(1) 1 2 3 4 5 by (simp add: compose_entry_eq entry_wf_def q_def)
  moreover have "length ((?h @ ?m @ [LF]) @ NUL # drop 1 q) = length ?b" using room r q by (simp add: q_def)
  ultimately show ?thesis by (auto simp: entry_line_def)
qed

lemma compose_overflows:
  assumes wf: "entry_wf tm e" "buffer_wf lg"
    and big: "l_buf_size lg < int (length (entry_header tm e)) + int (length (en_msg e)) + 2"
  shows "compose_entry tm e lg = Inl (Undefined Out_of_bounds)"
proof (cases "compose_entry tm e lg")
  case (Inl f)
  have "f = Undefined Out_of_bounds"
    using Inl wf(1) by (auto simp: compose_entry_eq entry_wf_def result_iff c_str_def split: if_splits
        dest: mem_write_fault snprintf_fault)
  then show ?thesis using Inl by simp
next
  case (Inr v)
  then obtain n buf1 m buf2 buf3 buf4 where b: "snprintf 0 300 (entry_header tm e) (l_buf lg) = Inr (n, buf1)"
      "snprintf n (nat (l_buf_size lg - 1)) (en_msg e) buf1 = Inr (m, buf2)"
      "mem_write (n + m) [LF] buf2 = Inr buf3" "mem_write (n + m + 1) [NUL] buf3 = Inr buf4"
    using wf(1) by (auto simp: compose_entry_eq entry_wf_def result_iff)
  have "n + m + 1 + 1 \<le> int (length buf3)" using b(4) by (simp add: result_iff)
  moreover have "length buf3 = length (l_buf lg)" "n = int (length (entry_header tm e))" "m = int (length (en_msg e))"
    using snprintf_length[OF b(1)] snprintf_length[OF b(2)] mem_write_length[OF b(3)] by auto
  ultimately show ?thesis using big wf(2) by (simp add: buffer_wf_def)
qed

section \<open>Which file a line goes to\<close>

definition write_entry :: "my_time \<Rightarrow> bool \<Rightarrow> entry \<Rightarrow> logger \<Rightarrow> (bool \<times> logger) result" where
  "write_entry tm fopen_ok e lg = write_log tm fopen_ok (en_file e) (en_func e) (en_line e) (en_level e) (en_msg e) lg"

fun write_entries :: "my_time \<Rightarrow> entry list \<Rightarrow> logger \<Rightarrow> logger result" where
  "write_entries tm [] lg = Inr lg"
| "write_entries tm (e # es) lg = rbind (write_entry tm True e lg) (\<lambda>(_, lg). write_entries tm es lg)"

definition split_name :: "my_time \<Rightarrow> string \<Rightarrow> string \<Rightarrow> int \<Rightarrow> log_file" where
  "split_name tm dir name k = Log_file (take 299 (dir @ take 22 (date_text tm) @ name @ ''.'' @ decimal k))"

text \<open>The file of the \<open>k\<close>-th line of the day, the first file being \<open>f\<close>.\<close>

definition file_of :: "my_time \<Rightarrow> log_file \<Rightarrow> string \<Rightarrow> string \<Rightarrow> int \<Rightarrow> int \<Rightarrow> log_file" where
  "file_of tm f dir name split k = (if k < split then f else split_name tm dir name (k div split))"

lemma div_Suc_same:
  fixes n k :: int
  assumes "0 < n" "\<not> n dvd k + 1"
  shows "(k + 1) div n = k div n"
proof -
  have eq: "k = n * (k div n) + k mod n" by simp
  have "k mod n + 1 \<noteq> n"
  proof
    assume "k mod n + 1 = n"
    then have "k + 1 = n * (k div n + 1)" using eq unfolding distrib_left by linarith
    then show False using assms(2) by (metis dvd_triv_left)
  qed
  then have "k mod n + 1 < n" using pos_mod_bound[OF assms(1), of k] by linarith
  moreover have "k + 1 = n * (k div n) + (k mod n + 1)" using eq by linarith
  ultimately show ?thesis using pos_mod_sign[OF assms(1), of k] by (intro int_div_pos_eq) auto
qed

lemma file_of_step:
  assumes "0 < split" "0 \<le> k"
  shows "file_of tm f dir name split (k + 1) =
     (if split dvd k + 1 then split_name tm dir name ((k + 1) div split) else file_of tm f dir name split k)"
proof (cases "split dvd k + 1")
  case True
  then have "split \<le> k + 1" using assms zdvd_imp_le by fastforce
  then show ?thesis using True by (simp add: file_of_def)
next
  case False
  then have "k + 1 \<noteq> split" by auto
  then show ?thesis using False div_Suc_same[OF assms(1) False] by (auto simp: file_of_def)
qed

text \<open>A logger between two lines: \<open>k\<close> lines so far today.\<close>

definition logging :: "my_time \<Rightarrow> log_file \<Rightarrow> string \<Rightarrow> string \<Rightarrow> int \<Rightarrow> int \<Rightarrow> logger \<Rightarrow> bool" where
  "logging tm f dir name split k lg \<longleftrightarrow> buffer_wf lg \<and> \<not> l_is_async lg \<and> l_today lg = day tm \<and> 0 < split \<and> 0 \<le> k \<and>
     l_split_lines lg = split \<and> l_count lg = k \<and> c_str (l_dir_name lg) = Inr dir \<and> c_str (l_file_name lg) = Inr name \<and>
     l_fp lg = Some (file_of tm f dir name split k)"

definition entry_fits :: "my_time \<Rightarrow> int \<Rightarrow> entry \<Rightarrow> bool" where
  "entry_fits tm buf_size e \<longleftrightarrow> entry_wf tm e \<and> int (length (entry_header tm e)) + int (length (en_msg e)) + 2 \<le> buf_size"

lemma roll_file_logging:
  assumes "logging tm f dir name split k lg"
  shows "roll_file tm True lg = Inr (lg\<lparr>l_count := k + 1, l_fp := Some (file_of tm f dir name split (k + 1))\<rparr>)"
  using assms file_of_step[of split k tm f dir name]
  by (cases "split dvd k + 1") (auto simp: logging_def roll_file_def fopen_append_def split_name_def Let_def)

lemma write_entry_logging:
  assumes lg: "logging tm f dir name split k lg" and e: "entry_fits tm (l_buf_size lg) e"
  defines "g \<equiv> file_of tm f dir name split (k + 1)"
  shows "\<exists>lg'. write_entry tm True e lg = Inr (True, lg') \<and> logging tm f dir name split (k + 1) lg' \<and> l_buf_size lg' = l_buf_size lg \<and>
     lg_files lg' = (lg_files lg)(g := lg_files lg g @ entry_line tm e)"
proof -
  let ?lg = "lg\<lparr>l_count := k + 1, l_fp := Some g\<rparr>"
  have wf: "buffer_wf ?lg" "entry_wf tm e" using lg e by (simp_all add: logging_def entry_fits_def buffer_wf_def)
  obtain buf where buf: "compose_entry tm e ?lg = Inr (entry_line tm e, ?lg\<lparr>l_buf := buf\<rparr>)" "length buf = length (l_buf ?lg)"
    using compose_fits[OF wf(2,1)] e by (auto simp: entry_fits_def)
  have "write_entry tm True e lg = rbind (compose_entry tm e ?lg) (\<lambda>(log_str, lg). emit_line log_str lg)"
    using roll_file_logging[OF lg] by (simp add: write_entry_def write_log_def compose_entry_def g_def)
  also have "\<dots> = Inr (True, ?lg\<lparr>l_buf := buf, lg_files := (lg_files lg)(g := lg_files lg g @ entry_line tm e)\<rparr>)"
    using buf(1) lg by (simp add: emit_line_def fputs_def logging_def)
  finally show ?thesis using lg buf(2) by (auto simp: logging_def buffer_wf_def g_def)
qed

text \<open>What the files hold after a list of lines.\<close>

fun lines_of :: "my_time \<Rightarrow> log_file \<Rightarrow> string \<Rightarrow> string \<Rightarrow> int \<Rightarrow> int \<Rightarrow> entry list \<Rightarrow> log_file \<Rightarrow> string" where
  "lines_of tm f dir name split k [] g = []"
| "lines_of tm f dir name split k (e # es) g =
     (if file_of tm f dir name split (k + 1) = g then entry_line tm e else []) @ lines_of tm f dir name split (k + 1) es g"

lemma write_entries_logging:
  assumes "logging tm f dir name split k lg" "\<forall>e \<in> set es. entry_fits tm (l_buf_size lg) e"
  shows "\<exists>lg'. write_entries tm es lg = Inr lg' \<and> logging tm f dir name split (k + int (length es)) lg' \<and>
     (\<forall>g. lg_files lg' g = lg_files lg g @ lines_of tm f dir name split k es g)"
  using assms
proof (induction es arbitrary: k lg)
  case Nil
  then show ?case by simp
next
  case (Cons e es)
  let ?g = "file_of tm f dir name split (k + 1)"
  obtain lg1 where lg1: "write_entry tm True e lg = Inr (True, lg1)" "logging tm f dir name split (k + 1) lg1"
      "l_buf_size lg1 = l_buf_size lg" "lg_files lg1 = (lg_files lg)(?g := lg_files lg ?g @ entry_line tm e)"
    using write_entry_logging[OF Cons.prems(1), of e] Cons.prems(2) by auto
  obtain lg' where "write_entries tm es lg1 = Inr lg'" "logging tm f dir name split (k + 1 + int (length es)) lg'"
      "\<forall>g. lg_files lg' g = lg_files lg1 g @ lines_of tm f dir name split (k + 1) es g"
    using Cons.IH[OF lg1(2)] Cons.prems(2) lg1(3) by auto
  then show ?case using lg1(1,4) by (auto simp: ac_simps)
qed

section \<open>Initialisation\<close>

definition name_array :: "char list \<Rightarrow> bool" where
  "name_array arr \<longleftrightarrow> length arr = 128 \<and> arr ! 127 = NUL"

text \<open>What every operation keeps of the logger: the name arrays end with a NUL, the buffer has its size,
  the level is one of the four, and with a queue there is a well-formed one.\<close>

definition logger_ok :: "logger \<Rightarrow> bool" where
  "logger_ok lg \<longleftrightarrow> name_array (l_dir_name lg) \<and> name_array (l_file_name lg) \<and> int (length (l_buf lg)) = l_buf_size lg \<and>
     g_log_level lg \<le> LOG_LEVEL_DEBUG \<and> (l_is_async lg \<longrightarrow> (\<exists>q. l_buffer_queue lg = Some q \<and> q_ok q))"

lemma name_array_bzero: "name_array (bzero 128)"
  by (simp add: name_array_def bzero_def)

lemma name_array_str: "name_array arr \<Longrightarrow> \<exists>s. c_str arr = Inr s"
  using nth_mem[of 127 arr] by (auto simp: name_array_def c_str_def)

lemma name_array_write: "name_array arr \<Longrightarrow> mem_write 0 src arr = Inr arr' \<Longrightarrow> length src \<le> 127 \<Longrightarrow> name_array arr'"
  by (auto simp: name_array_def result_iff splice_at_def nth_append)

lemma strrchr_less: "strrchr s c = Some p \<Longrightarrow> p < length s"
  by (induction s c arbitrary: p rule: strrchr.induct) (auto split: option.splits if_splits)

lemma logger_new_ok: "logger_ok (logger_new files)"
  by (simp add: logger_ok_def logger_new_def name_array_bzero less_eq_log_level_def)

lemma init_file_ok:
  assumes "init_file tm fopen_ok file_name lg = Inr (b, lg')" "logger_ok lg" "length file_name < 128"
  shows "logger_ok lg'"
proof (cases "strrchr file_name CHR ''/''")
  case None
  then show ?thesis using assms by (simp add: init_file_def)
next
  case (Some p)
  note p = strrchr_less[OF Some]
  obtain fname dname where w: "strcpy (l_file_name lg) (drop (p + 1) file_name) = Inr fname"
      "strncpy (l_dir_name lg) file_name (p + 1) = Inr dname"
      "lg' = lg\<lparr>l_file_name := fname, l_dir_name := dname, l_fp := l_fp lg', l_inited := l_inited lg'\<rparr>"
    using assms(1) Some by (auto simp: init_file_def result_iff Let_def split: if_splits)
  have "name_array fname" using w(1) assms(2,3) p
    by (auto simp: strcpy_def logger_ok_def intro: name_array_write)
  moreover have "name_array dname" using w(2) assms(2,3) p
    by (auto simp: strncpy_def logger_ok_def intro: name_array_write)
  ultimately have "logger_ok (lg\<lparr>l_file_name := fname, l_dir_name := dname, l_fp := l_fp lg', l_inited := l_inited lg'\<rparr>)"
    using assms(2) by (simp add: logger_ok_def)
  then show ?thesis using w(3) by simp
qed

lemma queue_new_q_ok: "queue_new n d = Inr q \<Longrightarrow> q_ok q"
  by (auto simp: queue_new_def q_ok_def split: if_splits)

lemma init_buffers_ok:
  assumes "init_buffers qs level bs sl tm lg = Inr lg'" "logger_ok lg"
  shows "logger_ok lg'"
  using assms
  by (auto simp: init_buffers_def set_log_level_def result_iff logger_ok_def bzero_def split: if_splits dest: queue_new_q_ok)

lemma logger_init_ok:
  assumes "logger_init file_name qs level bs sl tm fopen_ok lg = Inr (b, lg')" "logger_ok lg"
  shows "logger_ok lg'"
proof (cases "l_inited lg")
  case True
  then show ?thesis using assms by (simp add: logger_init_def)
next
  case False
  let ?lg = "if file_name = None then lg\<lparr>l_is_stdout := True\<rparr> else lg"
  have ok: "logger_ok ?lg" using assms(2) by (simp add: logger_ok_def)
  let ?rest = "\<lambda>name lg. if l_is_stdout lg then Inr (True, lg\<lparr>l_inited := True, l_fp := Some Stdout\<rparr>) else init_file tm fopen_ok name lg"
  obtain name where name: "l_is_stdout ?lg \<or> length name < 128" "rbind (init_buffers qs level bs sl tm ?lg) (?rest name) = Inr (b, lg')"
  proof (cases "l_is_stdout ?lg")
    case True
    then show ?thesis using assms(1) False that[of "[]"] by (simp add: logger_init_def Let_def)
  next
    case not: False
    then obtain x where "file_name = Some x" by (cases file_name) auto
    then show ?thesis using assms(1) False not that[of x] by (auto simp: logger_init_def Let_def split: if_splits)
  qed
  then obtain lg1 where lg1: "init_buffers qs level bs sl tm ?lg = Inr lg1" "?rest name lg1 = Inr (b, lg')"
    by (auto simp only: rbind_eq_Inr)
  have ok1: "logger_ok lg1" by (rule init_buffers_ok[OF lg1(1) ok])
  have "l_is_stdout lg1 = l_is_stdout ?lg"
    using lg1(1) by (auto simp: init_buffers_def set_log_level_def result_iff split: if_splits)
  then show ?thesis using name(1) lg1(2) ok1 init_file_ok[of tm fopen_ok name lg1 b lg']
    by (auto simp: logger_ok_def split: if_splits)
qed

lemma roll_file_ok: "roll_file tm fopen_ok lg = Inr lg' \<Longrightarrow> logger_ok lg \<Longrightarrow> logger_ok lg'"
  by (auto simp: roll_file_def result_iff logger_ok_def Let_def split: if_splits)

lemma compose_line_ok: "compose_line tm file_name func line_no level msg lg = Inr (s, lg') \<Longrightarrow> logger_ok lg \<Longrightarrow> logger_ok lg'"
  by (auto simp: compose_line_def result_iff logger_ok_def dest!: snprintf_length)

lemma emit_line_ok: "emit_line s lg = Inr (b, lg') \<Longrightarrow> logger_ok lg \<Longrightarrow> logger_ok lg'"
proof (cases "l_is_async lg")
  case True
  assume a: "emit_line s lg = Inr (b, lg')" "logger_ok lg"
  then obtain q where q: "l_buffer_queue lg = Some q" "q_ok q" using True by (auto simp: logger_ok_def)
  then obtain p q' where p: "q_push s q = Inr (p, q')" "lg' = lg\<lparr>l_buffer_queue := Some q'\<rparr>"
    using a(1) True by (auto simp: emit_line_def result_iff)
  have "q_ok q'" using q_push_ok[OF q(2), of s] q_push_full[of q s] p(1) q(2) by (cases "b_size q < b_capacity q") auto
  then show ?thesis using p(2) a(2) by (simp add: logger_ok_def)
qed (auto simp: emit_line_def fputs_def result_iff logger_ok_def)

lemma write_log_ok: "write_log tm fopen_ok file_name func line_no level msg lg = Inr (b, lg') \<Longrightarrow> logger_ok lg \<Longrightarrow> logger_ok lg'"
  using roll_file_ok compose_line_ok emit_line_ok by (fastforce simp: write_log_def result_iff)

text \<open>\<^verbatim>\<open>init\<close> of a fresh logger with a proper file name.\<close>

lemma strrchr_path: "CHR ''/'' \<notin> set name \<Longrightarrow> strrchr (dir @ CHR ''/'' # name) CHR ''/'' = Some (length dir)"
  by (rule strrchr_append)

lemma snprintf_zero:
  assumes "length text < n" "n \<le> k" "NUL \<notin> set text"
  shows "\<exists>arr. snprintf 0 n text (bzero k) = Inr (int (length text), arr) \<and> c_str arr = Inr text"
proof -
  have "mem_write 0 (text @ [NUL]) ([] @ bzero k) = Inr ([] @ (text @ [NUL]) @ drop (length (text @ [NUL])) (bzero k))"
    by (rule mem_write_append) (use assms in \<open>simp_all add: bzero_def\<close>)
  then show ?thesis using assms c_str_prefix[of "text" "drop (Suc (length text)) (bzero k)"] by (simp add: snprintf_def)
qed

lemma init_file_run:
  assumes lg: "l_dir_name lg = bzero 128" "l_file_name lg = bzero 128"
    and path: "NUL \<notin> set dir" "NUL \<notin> set name" "CHR ''/'' \<notin> set name" "length dir + length name < 127"
    and full: "length (dir @ ''/'' @ date_text tm @ name) < 267" "NUL \<notin> set (date_text tm)"
  shows "\<exists>dn fn. init_file tm ok (dir @ ''/'' @ name) lg =
       Inr (ok, lg\<lparr>l_dir_name := dn, l_file_name := fn, l_fp := fopen_append ok (dir @ ''/'' @ date_text tm @ name),
                    l_inited := (ok \<or> l_inited lg)\<rparr>) \<and>
     c_str dn = Inr (dir @ ''/'') \<and> c_str fn = Inr name"
proof -
  let ?d = "dir @ ''/''" and ?file = "dir @ ''/'' @ name"
  obtain fname where f: "strcpy (bzero 128) name = Inr fname" "holds_str fname 128 name"
    using strcpy_ok[of name "bzero 128"] path by (auto simp: bzero_def)
  have "take (length dir + 1) ?file = ?d" by simp
  then obtain dname where d: "strncpy (bzero 128) ?file (length dir + 1) = Inr dname" "holds_str dname 128 ?d"
    using strncpy_ok[of ?d 128 "length dir + 1"] strncpy_take[of "length dir + 1" ?file "bzero 128"] path by auto
  obtain arr where a: "snprintf 0 267 (?d @ date_text tm @ name) (bzero 268) = Inr (int (length (?d @ date_text tm @ name)), arr)"
      "c_str arr = Inr (?d @ date_text tm @ name)"
    using snprintf_zero[of "?d @ date_text tm @ name" 267 268] path full by auto
  show ?thesis using strrchr_path[OF path(3), of dir] f d a lg
    by (intro exI[of _ dname] exI[of _ fname], cases ok) (simp_all add: init_file_def holds_str_def fopen_append_def Let_def)
qed

lemma logger_init_run:
  assumes "level \<le> LOG_LEVEL_DEBUG" "0 \<le> bs"
    and path: "NUL \<notin> set dir" "NUL \<notin> set name" "CHR ''/'' \<notin> set name" "length dir + length name < 127"
    and full: "length (dir @ ''/'' @ date_text tm @ name) < 267" "NUL \<notin> set (date_text tm)"
  shows "\<exists>lg. logger_init (Some (dir @ ''/'' @ name)) 0 level bs split tm True (logger_new files) = Inr (True, lg) \<and>
     l_fp lg = Some (Log_file (dir @ ''/'' @ date_text tm @ name)) \<and> c_str (l_dir_name lg) = Inr (dir @ ''/'') \<and>
     c_str (l_file_name lg) = Inr name \<and> l_count lg = 0 \<and> l_today lg = day tm \<and> l_split_lines lg = split \<and>
     l_buf_size lg = bs \<and> l_buf lg = bzero (nat bs) \<and> \<not> l_is_async lg \<and> lg_files lg = files \<and> g_log_level lg = level"
proof -
  let ?lg = "(logger_new files)\<lparr>g_log_level := level, l_buf_size := bs, l_buf := bzero (nat bs), l_split_lines := split, l_today := day tm\<rparr>"
  have "init_buffers 0 level bs split tm (logger_new files) = Inr ?lg"
    using assms(1,2) by (simp add: init_buffers_def set_log_level_def less_eq_log_level_def)
  then have "logger_init (Some (dir @ ''/'' @ name)) 0 level bs split tm True (logger_new files) = init_file tm True (dir @ ''/'' @ name) ?lg"
    using path(4) by (simp add: logger_init_def logger_new_def)
  moreover obtain dn fn where "init_file tm True (dir @ ''/'' @ name) ?lg = Inr (True, ?lg\<lparr>l_dir_name := dn, l_file_name := fn,
      l_fp := fopen_append True (dir @ ''/'' @ date_text tm @ name), l_inited := (True \<or> l_inited ?lg)\<rparr>)"
      "c_str dn = Inr (dir @ ''/'')" "c_str fn = Inr name"
  proof -
    have "l_dir_name ?lg = bzero 128" "l_file_name ?lg = bzero 128" by (simp_all add: logger_new_def)
    from init_file_run[OF this path full, of True] show ?thesis by (elim exE conjE) (rule that)
  qed
  ultimately show ?thesis by (simp add: fopen_append_def logger_new_def)
qed

text \<open>On a new day the file is that of the day, and the counting starts again.\<close>

lemma write_entry_new_day:
  assumes lg: "buffer_wf lg" "\<not> l_is_async lg" "l_fp lg = Some f" "0 < l_split_lines lg" "c_str (l_dir_name lg) = Inr dir"
      "c_str (l_file_name lg) = Inr name" "l_today lg \<noteq> day tm"
    and e: "entry_fits tm (l_buf_size lg) e"
  defines "g \<equiv> Log_file (take 299 (dir @ take 22 (date_text tm) @ name))"
  shows "\<exists>lg'. write_entry tm True e lg = Inr (True, lg') \<and> logging tm g dir name (l_split_lines lg) 0 lg' \<and>
     lg_files lg' = (lg_files lg)(g := lg_files lg g @ entry_line tm e)"
proof -
  let ?lg = "lg\<lparr>l_count := 0, l_today := day tm, l_fp := Some g\<rparr>"
  have roll: "roll_file tm True lg = Inr ?lg" using lg by (simp add: roll_file_def fopen_append_def g_def Let_def)
  have wf: "buffer_wf ?lg" "entry_wf tm e" using lg e by (simp_all add: entry_fits_def buffer_wf_def)
  obtain buf where buf: "compose_entry tm e ?lg = Inr (entry_line tm e, ?lg\<lparr>l_buf := buf\<rparr>)" "length buf = length (l_buf ?lg)"
    using compose_fits[OF wf(2,1)] e by (auto simp: entry_fits_def)
  have "write_entry tm True e lg = rbind (compose_entry tm e ?lg) (\<lambda>(log_str, lg). emit_line log_str lg)"
    using roll by (simp add: write_entry_def write_log_def compose_entry_def)
  also have "\<dots> = Inr (True, ?lg\<lparr>l_buf := buf, lg_files := (lg_files lg)(g := lg_files lg g @ entry_line tm e)\<rparr>)"
    using buf(1) lg(2) by (simp add: emit_line_def fputs_def)
  finally show ?thesis using lg buf(2) by (auto simp: logging_def buffer_wf_def file_of_def)
qed

text \<open>While the lines stay below the split, they all go to the first file.\<close>

lemma lines_of_Stdout:
  "0 \<le> k \<Longrightarrow> lines_of tm Stdout dir name split k es Stdout = concat (map (entry_line tm) (take (nat (split - 1 - k)) es))"
proof (induction es arbitrary: k)
  case (Cons e es)
  show ?case
  proof (cases "k + 1 < split")
    case True
    then have "nat (split - 1 - k) = Suc (nat (split - 1 - (k + 1)))" by linarith
    then show ?thesis using Cons True by (simp add: file_of_def)
  next
    case False
    then show ?thesis using Cons by (simp add: file_of_def split_name_def)
  qed
qed simp

section \<open>Properties of the logger\<close>

definition some_time :: my_time where
  "some_time = \<lparr>year = 2024, month = 3, day = 5, hour = 12, minute = 34, second = 56\<rparr>"

definition some_entry :: entry where
  "some_entry = \<lparr>en_file = ''a.cpp'', en_func = ''f'', en_line = 7, en_level = LOG_LEVEL_INFO, en_msg = ''hi''\<rparr>"

lemma some_entry_line: "entry_line some_time some_entry = ''2024-03-05 12:34:56 [INFO ] [a.cpp:f:7] hi'' @ [LF]"
  by code_simp

lemma some_entry_header: "entry_header some_time some_entry = ''2024-03-05 12:34:56 [INFO ] [a.cpp:f:7] ''"
  by code_simp

lemma some_entry_fits: "entry_wf some_time some_entry" "entry_fits some_time 8192 some_entry"
  by (simp_all add: entry_wf_def entry_fits_def some_entry_header) (simp_all add: some_entry_def less_eq_log_level_def)

lemma some_date: "date_text some_time = ''2024_03_05_''"
  by code_simp

text \<open>
  C30. Where the lines go: after \<^verbatim>\<open>init\<close> of a fresh logger with a proper file name, synchronous, every line
  that fits is written once, in order, with its header and a line end. The \<open>k\<close>-th line of the day goes
  to the file of the day while \<open>k\<close> is below \<^verbatim>\<open>split_lines\<close>, and to the file with the suffix
  \<open>k div split_lines\<close> afterwards.
\<close>

theorem logger_files:
  assumes init: "level \<le> LOG_LEVEL_DEBUG" "300 \<le> bs" "0 < split"
    and path: "NUL \<notin> set dir" "NUL \<notin> set name" "CHR ''/'' \<notin> set name" "length dir + length name < 127"
    and full: "length (dir @ ''/'' @ date_text tm @ name) < 267" "NUL \<notin> set (date_text tm)"
    and es: "\<forall>e \<in> set es. entry_fits tm bs e"
  shows "\<exists>lg lg'. logger_init (Some (dir @ ''/'' @ name)) 0 level bs split tm True (logger_new files) = Inr (True, lg) \<and>
     write_entries tm es lg = Inr lg' \<and>
     (\<forall>g. lg_files lg' g = files g @ lines_of tm (Log_file (dir @ ''/'' @ date_text tm @ name)) (dir @ ''/'') name split 0 es g)"
proof -
  let ?f = "Log_file (dir @ ''/'' @ date_text tm @ name)"
  obtain lg where lg: "logger_init (Some (dir @ ''/'' @ name)) 0 level bs split tm True (logger_new files) = Inr (True, lg)"
      "l_fp lg = Some ?f" "c_str (l_dir_name lg) = Inr (dir @ ''/'')" "c_str (l_file_name lg) = Inr name" "l_count lg = 0"
      "l_today lg = day tm" "l_split_lines lg = split" "l_buf_size lg = bs" "l_buf lg = bzero (nat bs)" "\<not> l_is_async lg" "lg_files lg = files"
    using logger_init_run[OF init(1) _ path full, of bs split files] init(2) by auto
  then have "logging tm ?f (dir @ ''/'') name split 0 lg"
    using init by (simp add: logging_def buffer_wf_def file_of_def bzero_def)
  from write_entries_logging[OF this, of es] show ?thesis using lg(1,8,11) es by auto
qed

theorem logger_files_witness:
  "\<exists>lg lg'. logger_init (Some ''/tmp/s.log'') 0 LOG_LEVEL_INFO 8192 2 some_time True (logger_new (\<lambda>_. [])) = Inr (True, lg) \<and>
     write_entries some_time [some_entry, some_entry] lg = Inr lg' \<and>
     lg_files lg' (Log_file ''/tmp/2024_03_05_s.log'') = entry_line some_time some_entry \<and>
     lg_files lg' (Log_file ''/tmp/2024_03_05_s.log.1'') = entry_line some_time some_entry"
proof -
  have one: "decimal 1 = ''1''" by code_simp
  show ?thesis
    using logger_files[of LOG_LEVEL_INFO 8192 2 "''/tmp''" "''s.log''" some_time "[some_entry, some_entry]" "\<lambda>_. []"] some_entry_fits(2)
    by (auto simp: some_date less_eq_log_level_def file_of_def split_name_def one)
qed

text \<open>
  A logger on standard output leaves it: the file is rolled there too, so only the lines before
  the first split reach standard output; \<^verbatim>\<open>stdout\<close> is closed and the rest goes to files named by the
  date alone, in the working directory.
\<close>

theorem logger_stdout_leaves:
  assumes "level \<le> LOG_LEVEL_DEBUG" "300 \<le> bs" "0 < split" "\<forall>e \<in> set es. entry_fits tm bs e"
  shows "\<exists>lg lg'. logger_init None 0 level bs split tm True (logger_new files) = Inr (True, lg) \<and>
     write_entries tm es lg = Inr lg' \<and>
     lg_files lg' Stdout = files Stdout @ concat (map (entry_line tm) (take (nat (split - 1)) es))"
proof -
  let ?lg = "(logger_new files)\<lparr>l_is_stdout := True, g_log_level := level, l_buf_size := bs, l_buf := bzero (nat bs),
     l_split_lines := split, l_today := day tm, l_inited := True, l_fp := Some Stdout\<rparr>"
  have i: "logger_init None 0 level bs split tm True (logger_new files) = Inr (True, ?lg)"
    using assms(1,2) by (simp add: logger_init_def init_buffers_def set_log_level_def less_eq_log_level_def logger_new_def)
  have "logging tm Stdout [] [] split 0 ?lg"
    using assms(2,3) by (simp add: logging_def buffer_wf_def file_of_def bzero_def logger_new_def c_str_def)
  from write_entries_logging[OF this, of es] obtain lg' where "write_entries tm es ?lg = Inr lg'"
      "\<forall>g. lg_files lg' g = files g @ lines_of tm Stdout [] [] split 0 es g"
    using assms(4) by (auto simp: logger_new_def)
  then show ?thesis using i lines_of_Stdout[of 0 tm "[]" "[]" split es] by auto
qed

theorem logger_stdout_leaves_witness:
  "\<exists>lg lg'. logger_init None 0 LOG_LEVEL_INFO 8192 2 some_time True (logger_new (\<lambda>_. [])) = Inr (True, lg) \<and>
     write_entries some_time [some_entry, some_entry, some_entry] lg = Inr lg' \<and>
     lg_files lg' Stdout = entry_line some_time some_entry"
  using logger_stdout_leaves[of LOG_LEVEL_INFO 8192 2 "[some_entry, some_entry, some_entry]" some_time "\<lambda>_. []"] some_entry_fits(2)
  by (simp add: less_eq_log_level_def)

text \<open>
  On the first line of a new day the file of that day is opened, whatever file was in use; the
  line goes there, and counting starts at 0 with it: it is not counted.
\<close>

theorem logger_new_day:
  assumes "buffer_wf lg" "\<not> l_is_async lg" "l_fp lg = Some f" "0 < l_split_lines lg" "c_str (l_dir_name lg) = Inr dir"
      "c_str (l_file_name lg) = Inr name" "l_today lg \<noteq> day tm" "entry_fits tm (l_buf_size lg) e"
  shows "\<exists>lg'. write_entry tm True e lg = Inr (True, lg') \<and> l_count lg' = 0 \<and> l_today lg' = day tm \<and>
     l_fp lg' = Some (Log_file (take 299 (dir @ take 22 (date_text tm) @ name))) \<and>
     (\<forall>g. lg_files lg' g = lg_files lg g @ (if l_fp lg' = Some g then entry_line tm e else []))"
  using write_entry_new_day[OF assms] assms(4) by (auto simp: logging_def file_of_def)

definition day_logger :: logger where
  "day_logger = (logger_new (\<lambda>_. []))\<lparr>l_buf_size := 8192, l_buf := bzero 8192, l_split_lines := 10, l_count := 4, l_today := 4,
     l_fp := Some Stdout, l_inited := True\<rparr>"

theorem logger_new_day_witness:
  "\<exists>lg'. write_entry some_time True some_entry day_logger = Inr (True, lg') \<and> l_count lg' = 0 \<and>
     lg_files lg' (Log_file ''2024_03_05_'') = entry_line some_time some_entry"
proof -
  have "c_str (bzero 128) = Inr []" by (rule c_str_bzero) simp
  then have "c_str (l_dir_name day_logger) = Inr []" "c_str (l_file_name day_logger) = Inr []" "buffer_wf day_logger" "\<not> l_is_async day_logger"
    "l_fp day_logger = Some Stdout" "0 < l_split_lines day_logger" "l_today day_logger \<noteq> day some_time" "l_buf_size day_logger = 8192"
    "lg_files day_logger = (\<lambda>_. [])"
    by (simp_all add: day_logger_def logger_new_def buffer_wf_def bzero_def some_time_def)
  then show ?thesis using logger_new_day[of day_logger Stdout "[]" "[]" some_time some_entry] some_entry_fits(2)
    by (auto simp: some_date)
qed

text \<open>
  C31. The buffer of a line: with at least 300 bytes and a header of less than 300 characters, composing
  a line stays in the buffer and gives the header, the text and a line end exactly when header and text
  leave two bytes free; a longer text is written past the end of the buffer.
\<close>

theorem logger_line_bounds:
  assumes "entry_wf tm e" "buffer_wf lg"
  shows "if int (length (entry_header tm e)) + int (length (en_msg e)) + 2 \<le> l_buf_size lg
     then \<exists>buf. compose_entry tm e lg = Inr (entry_header tm e @ en_msg e @ [LF], lg\<lparr>l_buf := buf\<rparr>) \<and> length buf = length (l_buf lg)
     else compose_entry tm e lg = Inl (Undefined Out_of_bounds)"
  using compose_fits[OF assms] compose_overflows[OF assms] by (auto simp: entry_line_def not_le)

theorem logger_line_bounds_witness:
  "compose_entry some_time (some_entry\<lparr>en_msg := replicate 8200 CHR ''x''\<rparr>) day_logger = Inl (Undefined Out_of_bounds)"
proof -
  have "entry_header some_time (some_entry\<lparr>en_msg := m\<rparr>) = entry_header some_time some_entry" for m by (simp add: entry_header_def)
  then have "entry_wf some_time (some_entry\<lparr>en_msg := replicate 8200 CHR ''x''\<rparr>)" using some_entry_fits(1) by (simp add: entry_wf_def)
  moreover have "buffer_wf day_logger" "l_buf_size day_logger = 8192" by (simp_all add: day_logger_def buffer_wf_def bzero_def)
  ultimately show ?thesis using logger_line_bounds[of some_time "some_entry\<lparr>en_msg := replicate 8200 CHR ''x''\<rparr>" day_logger] by simp
qed

text \<open>
  C32. The logger stays well formed: a new one is, and \<^verbatim>\<open>init\<close> and \<^verbatim>\<open>write_log\<close>, whatever their arguments and
  whether files open or not, leave it so when they return.
\<close>

theorem logger_well_formed:
  "logger_ok (logger_new files) \<and>
   (logger_ok lg \<longrightarrow> logger_init file_name qs level bs split tm fopen_ok lg = Inr (b, lg1) \<longrightarrow> logger_ok lg1) \<and>
   (logger_ok lg \<longrightarrow> write_log tm fopen_ok file func line_no level msg lg = Inr (b, lg2) \<longrightarrow> logger_ok lg2)"
  by (intro conjI impI) (rule logger_new_ok, erule (1) logger_init_ok, erule (1) write_log_ok)

theorem logger_well_formed_witness:
  "\<exists>lg1. logger_init None 3 LOG_LEVEL_WARN 400 10 some_time True (logger_new (\<lambda>_. [])) = Inr (True, lg1) \<and> logger_ok lg1"
proof -
  obtain lg1 where i: "logger_init None 3 LOG_LEVEL_WARN 400 10 some_time True (logger_new (\<lambda>_. [])) = Inr (True, lg1)"
    by (simp add: logger_init_def init_buffers_def set_log_level_def less_eq_log_level_def logger_new_def queue_new_def)
  then show ?thesis using logger_well_formed[of "\<lambda>_. []" "logger_new (\<lambda>_. [])" None 3 LOG_LEVEL_WARN 400 10 some_time True True lg1] by blast
qed

text \<open>
  The macros do not guard: used before \<^verbatim>\<open>init\<close> at a level that passes, they complain and then call
  \<^verbatim>\<open>write_log\<close>, which rolls the file of the day and closes the null pointer.
\<close>

theorem log_before_init:
  assumes "level \<le> LOG_LEVEL_INFO" "day tm \<noteq> 0"
  shows "LOG level tm fopen_ok file func line_no msg (logger_new files) = Inl (Undefined Bad_pointer)"
  using assms by (simp add: LOG_def get_log_level_def write_log_def roll_file_def logger_new_def)

theorem log_before_init_witness:
  "LOG LOG_LEVEL_ERROR some_time True ''a.cpp'' ''f'' 7 ''hi'' (logger_new (\<lambda>_. [])) = Inl (Undefined Bad_pointer)"
  by (rule log_before_init) (simp_all add: less_eq_log_level_def some_time_def)

text \<open>
  \<^verbatim>\<open>pr_set_level\<close> is the clamp to the four levels: it returns the old level, and the new one is the
  argument cut to the range from 0 to 3.
\<close>

theorem pr_set_level_clamps: "pr_set_level level pr_level = (pr_level, max 0 (min 3 level))"
  by (simp add: pr_set_level_def Let_def)

text \<open>
  A thread identifier that prints as a decimal number comes back from \<^verbatim>\<open>tid_to_ll\<close> as that number.
\<close>

theorem tid_roundtrip:
  assumes "- (2 ^ 63) \<le> n" "n < 2 ^ 63"
  shows "tid_to_ll (decimal n) = Inr n"
proof -
  have "\<not> is_digit LF" by (simp add: is_digit_def)
  then have "scan_int (decimal n @ [LF]) = Some (n, [LF])" using scan_int_decimal[of "[LF]" "[]" n] by simp
  then show ?thesis using assms by (simp add: tid_to_ll_def tid_to_string_def atoll_def)
qed

theorem tid_roundtrip_witness: "tid_to_ll (decimal 140737351) = Inr 140737351"
  by (rule tid_roundtrip) simp_all

end
