(* ===== verification/Async_Log.thy ===== *)
theory Async_Log
  imports Log_Queue
begin

text \<open>
  The asynchronous writer of the logger (src/log/log.h, \<^verbatim>\<open>async_write\<close>; src/log/log.cpp, the end of \<^verbatim>\<open>write_log\<close>
  and the destructor): logging threads push lines into the bounded queue, one thread pops and writes
  them, and the destructor stops that thread. The interleavings are a step relation; the lemmas show
  that lines are written in order, each at most once, and how the thread can end too early or not
  at all.
\<close>

section \<open>The threads\<close>

text \<open>The writer: before \<^verbatim>\<open>pop\<close>; asleep in it; woken; with a line, before the test of \<^verbatim>\<open>is_thread_stop\<close>;
  out of the loop.\<close>

datatype writer = W_pop | W_wait | W_woken | W_test string | W_ended

datatype log_destructor = D_none | D_stored | D_joining

record async_log =
  al_queue :: "string buffer_queue"
  al_is_thread_stop :: bool
  al_writer :: writer
  al_destructor :: log_destructor
  al_pushed :: "string list"    \<comment> \<open>ghost: the lines pushed\<close>
  al_written :: "string list"   \<comment> \<open>the lines given to \<^verbatim>\<open>fputs\<close>\<close>
  al_dropped :: "string list"   \<comment> \<open>ghost: lines popped and not written\<close>

text \<open>The part of \<^verbatim>\<open>init\<close> that makes the queue and starts the thread.\<close>

definition async_new :: "int \<Rightarrow> async_log result" where
  "async_new buffer_queue_size =
     rbind (queue_new buffer_queue_size False) (\<lambda>q.
     Inr \<lparr>al_queue = q, al_is_thread_stop = False, al_writer = W_pop, al_destructor = D_none,
          al_pushed = [], al_written = [], al_dropped = []\<rparr>)"

definition writer_wake :: "async_log \<Rightarrow> async_log" where
  "writer_wake s = (if al_writer s = W_wait then s\<lparr>al_writer := W_woken\<rparr> else s)"

text \<open>One turn of the loop around \<^verbatim>\<open>push\<close> in \<^verbatim>\<open>write_log\<close>; every \<^verbatim>\<open>push\<close> notifies.\<close>

definition producer_push :: "string \<Rightarrow> async_log \<Rightarrow> async_log result" where
  "producer_push line s =
     rbind (q_push line (al_queue s)) (\<lambda>(ok, q).
     Inr (writer_wake (s\<lparr>al_queue := q, al_pushed := (if ok then al_pushed s @ [line] else al_pushed s)\<rparr>)))"

text \<open>The result of \<^verbatim>\<open>pop\<close>: false ends the loop.\<close>

definition writer_popped :: "string pop_outcome \<Rightarrow> async_log \<Rightarrow> async_log result" where
  "writer_popped r s =
     (case r of
        Pop_waits \<Rightarrow> Inr (s\<lparr>al_writer := W_wait\<rparr>)
      | Pop_false \<Rightarrow> Inr (s\<lparr>al_writer := W_ended\<rparr>)
      | Pop_true v \<Rightarrow> rbind (read_var v) (\<lambda>line. Inr (s\<lparr>al_writer := W_test line\<rparr>)))"

definition writer_pop :: "async_log \<Rightarrow> async_log result" where
  "writer_pop s = rbind (pop_begin (al_queue s)) (\<lambda>(r, q). writer_popped r (s\<lparr>al_queue := q\<rparr>))"

definition writer_resume :: "async_log \<Rightarrow> async_log result" where
  "writer_resume s = rbind (pop_resume (al_queue s)) (\<lambda>(r, q). writer_popped r (s\<lparr>al_queue := q\<rparr>))"

definition writer_write :: "string \<Rightarrow> async_log \<Rightarrow> async_log" where
  "writer_write line s =
     (if al_is_thread_stop s then s\<lparr>al_writer := W_ended, al_dropped := al_dropped s @ [line]\<rparr>
      else s\<lparr>al_writer := W_pop, al_written := al_written s @ [line]\<rparr>)"

definition logger_stop :: "async_log \<Rightarrow> async_log" where
  "logger_stop s = s\<lparr>al_is_thread_stop := True, al_destructor := D_stored\<rparr>"

definition logger_notify :: "async_log \<Rightarrow> async_log" where
  "logger_notify s = writer_wake (s\<lparr>al_destructor := D_joining\<rparr>)"

inductive al_step :: "async_log \<Rightarrow> async_log \<Rightarrow> bool" where
  al_push: "producer_push line s = Inr t \<Longrightarrow> al_step s t"
| al_pop: "al_writer s = W_pop \<Longrightarrow> writer_pop s = Inr t \<Longrightarrow> al_step s t"
| al_spurious: "al_writer s = W_wait \<Longrightarrow> al_step s (writer_wake s)"
| al_resume: "al_writer s = W_woken \<Longrightarrow> writer_resume s = Inr t \<Longrightarrow> al_step s t"
| al_write: "al_writer s = W_test line \<Longrightarrow> al_step s (writer_write line s)"
| al_stop: "al_destructor s = D_none \<Longrightarrow> al_step s (logger_stop s)"
| al_notify: "al_destructor s = D_stored \<Longrightarrow> al_step s (logger_notify s)"

definition al_start :: "async_log \<Rightarrow> bool" where
  "al_start s \<longleftrightarrow> (\<exists>n. async_new n = Inr s)"

section \<open>The invariant\<close>

definition held :: "async_log \<Rightarrow> string list" where
  "held s = (case al_writer s of W_test line \<Rightarrow> [line] | _ \<Rightarrow> [])"

definition al_inv :: "async_log \<Rightarrow> bool" where
  "al_inv s \<longleftrightarrow> q_ok (al_queue s) \<and> al_pushed s = al_written s @ held s @ al_dropped s @ q_list (al_queue s) \<and>
     (al_writer s = W_wait \<longrightarrow> q_list (al_queue s) = []) \<and>
     (al_dropped s \<noteq> [] \<longrightarrow> al_writer s = W_ended \<and> al_is_thread_stop s) \<and> (al_destructor s \<noteq> D_none \<longrightarrow> al_is_thread_stop s)"

lemma held_simps [simp]:
  "al_writer s = W_test line \<Longrightarrow> held s = [line]" "al_writer s = W_pop \<Longrightarrow> held s = []" "al_writer s = W_wait \<Longrightarrow> held s = []"
  "al_writer s = W_woken \<Longrightarrow> held s = []" "al_writer s = W_ended \<Longrightarrow> held s = []"
  by (simp_all add: held_def)

lemma held_updates [simp]:
  "held (s\<lparr>al_queue := q\<rparr>) = held s" "held (s\<lparr>al_pushed := l\<rparr>) = held s" "held (s\<lparr>al_destructor := d\<rparr>) = held s"
  "held (s\<lparr>al_is_thread_stop := b\<rparr>) = held s"
  by (simp_all add: held_def)

lemma writer_wake_fields [simp]:
  "al_queue (writer_wake s) = al_queue s" "al_pushed (writer_wake s) = al_pushed s" "al_written (writer_wake s) = al_written s"
  "al_dropped (writer_wake s) = al_dropped s" "al_is_thread_stop (writer_wake s) = al_is_thread_stop s"
  "al_destructor (writer_wake s) = al_destructor s" "al_writer (writer_wake s) \<noteq> W_wait" "held (writer_wake s) = held s"
  "al_writer (writer_wake s) = W_ended \<longleftrightarrow> al_writer s = W_ended"
  by (auto simp: writer_wake_def held_def)

text \<open>The queue after a \<^verbatim>\<open>pop\<close> that gave a line.\<close>

lemma pop_begin_inv:
  assumes "q_ok q" "pop_begin q = Inr (r, q')"
  shows "(r = Pop_waits \<and> q' = q \<and> q_list q = []) \<or> (\<exists>x. r = Pop_true (Some x) \<and> q_ok q' \<and> q_list q = x # q_list q')"
proof (cases "q_list q = []")
  case True
  then show ?thesis using pop_begin_ok[OF assms(1)] assms(2) by auto
next
  case False
  then have "0 < b_size q" using q_list_empty_iff[OF assms(1)] assms(1) by (auto simp: q_ok_def)
  from q_take_ok[OF assms(1) this] obtain q1 where q1: "q_take q = Inr (Some (hd (q_list q)), q1)" "q_ok q1" "q_list q1 = tl (q_list q)"
    by blast
  then have "r = Pop_true (Some (hd (q_list q)))" "q' = q1"
    using pop_begin_ok[OF assms(1)] assms(2) False by auto
  then show ?thesis using q1 False by (cases "q_list q") auto
qed

lemma pop_resume_inv:
  assumes "q_ok q" "pop_resume q = Inr (r, q')"
  shows "(r = Pop_false \<and> q' = q \<and> q_list q = []) \<or> (\<exists>x. r = Pop_true (Some x) \<and> q_ok q' \<and> q_list q = x # q_list q')"
  using assms pop_resume_eq(1)[OF assms(1)] pop_begin_inv[OF assms(1), of r q'] by (auto split: if_splits)

interpretation al: step_system al_start al_step al_inv
proof
  fix s assume "al_start s"
  then obtain n where "async_new n = Inr s" by (auto simp: al_start_def)
  then show "al_inv s" using queue_new_ok[of n False] by (auto simp: async_new_def al_inv_def held_def queue_new_def result_iff split: if_splits)
next
  fix s t assume inv: "al_inv s" and "al_step s t"
  then have ok: "q_ok (al_queue s)" by (simp add: al_inv_def)
  from \<open>al_step s t\<close> show "al_inv t"
  proof cases
    case (al_push line)
    then obtain b q where q: "q_push line (al_queue s) = Inr (b, q)"
        "t = writer_wake (s\<lparr>al_queue := q, al_pushed := (if b then al_pushed s @ [line] else al_pushed s)\<rparr>)"
      by (auto simp: producer_push_def result_iff)
    have "q_ok q \<and> q_list q = (if b then q_list (al_queue s) @ [line] else q_list (al_queue s))"
      using q_push_ok[OF ok, of line] q_push_full[of "al_queue s" line] q(1) ok by (cases "b_size (al_queue s) < b_capacity (al_queue s)") auto
    then show ?thesis using inv q(2) by (auto simp: al_inv_def)
  next
    case al_pop
    then obtain r q where "pop_begin (al_queue s) = Inr (r, q)" "writer_popped r (s\<lparr>al_queue := q\<rparr>) = Inr t"
      by (auto simp: writer_pop_def result_iff)
    then show ?thesis using inv al_pop(1) pop_begin_inv[OF ok, of r q] by (auto simp: al_inv_def writer_popped_def result_iff)
  next
    case al_resume
    then obtain r q where "pop_resume (al_queue s) = Inr (r, q)" "writer_popped r (s\<lparr>al_queue := q\<rparr>) = Inr t"
      by (auto simp: writer_resume_def result_iff)
    then show ?thesis using inv al_resume(1) pop_resume_inv[OF ok, of r q] by (auto simp: al_inv_def writer_popped_def result_iff)
  next
    case (al_write line)
    then show ?thesis using inv by (auto simp: al_inv_def writer_write_def)
  qed (use inv in \<open>auto simp: al_inv_def logger_stop_def logger_notify_def\<close>)
qed

lemma al_ended_step: "al_step s t \<Longrightarrow> al_writer s = W_ended \<Longrightarrow> al_writer t = W_ended \<and> al_written t = al_written s"
  by (induction rule: al_step.induct)
    (auto simp: producer_push_def result_iff logger_stop_def logger_notify_def)

lemma al_ended_steps: "al_step\<^sup>*\<^sup>* s t \<Longrightarrow> al_writer s = W_ended \<Longrightarrow> al_writer t = W_ended \<and> al_written t = al_written s"
  by (induction rule: rtranclp_induct) (auto dest: al_ended_step)

section \<open>Properties of the asynchronous writer\<close>

text \<open>A logger with room for two lines, and the states of some short runs.\<close>

abbreviation "reach_al \<equiv> reach al_start al_step"

definition al_zero :: async_log where
  "al_zero = projr (async_new 2)"

definition al_sleeping :: async_log where
  "al_sleeping = projr (writer_pop al_zero)"

definition al_early_end :: async_log where
  "al_early_end = projr (writer_resume (writer_wake al_sleeping))"

lemma al_zero_new: "async_new 2 = Inr al_zero"
  by (simp add: al_zero_def async_new_def queue_new_def)

lemma al_zero_fields: "al_writer al_zero = W_pop" "al_destructor al_zero = D_none" "\<not> al_is_thread_stop al_zero" "al_written al_zero = []"
  "al_pushed al_zero = []" "al_queue al_zero = projr (queue_new 2 False)" "al_dropped al_zero = []"
  by (simp_all add: al_zero_def async_new_def queue_new_def)

lemma reach_al_zero: "reach_al al_zero"
  using al_zero_new by (intro reach_start) (auto simp: al_start_def)

lemma al_sleeping_eq: "writer_pop al_zero = Inr al_sleeping" "al_sleeping = al_zero\<lparr>al_writer := W_wait\<rparr>"
  by (simp_all add: al_sleeping_def writer_pop_def pop_begin_def al_zero_fields queue_new_def writer_popped_def)

lemma reach_al_sleeping: "reach_al al_sleeping"
  by (rule reach_step[OF reach_al_zero al_pop]) (simp_all add: al_zero_fields al_sleeping_eq)

lemma al_early_end_eq: "writer_resume (writer_wake al_sleeping) = Inr al_early_end" "al_early_end = al_zero\<lparr>al_writer := W_ended\<rparr>"
  by (simp_all add: al_early_end_def writer_resume_def writer_wake_def pop_resume_def al_sleeping_eq(2) al_zero_fields queue_new_def writer_popped_def)

lemma reach_al_early_end: "reach_al al_early_end"
proof -
  have w: "reach_al (writer_wake al_sleeping)" by (rule reach_step[OF reach_al_sleeping al_spurious]) (simp add: al_sleeping_eq(2))
  show ?thesis by (rule reach_step[OF w al_resume[OF _ al_early_end_eq(1)]]) (simp add: writer_wake_def al_sleeping_eq(2))
qed

text \<open>
  C33. The asynchronous writer writes the lines in the order they were pushed, each at most once: in every
  interleaving the lines pushed are those written, the one in the writer's hands, the one dropped at
  the end, and those queued, in that order. And the writer never sleeps while a line is queued.
\<close>

theorem async_writer_fifo:
  assumes "reach al_start al_step s"
  shows "al_pushed s = al_written s @ held s @ al_dropped s @ q_list (al_queue s) \<and>
     (al_writer s \<noteq> W_wait \<or> q_list (al_queue s) = []) \<and> (al_dropped s = [] \<or> al_is_thread_stop s)"
  using al.reach_inv[OF assms] by (auto simp: al_inv_def)

theorem async_writer_fifo_witness: "al_pushed al_sleeping = [] \<and> al_writer al_sleeping = W_wait \<and> q_list (al_queue al_sleeping) = []"
  using async_writer_fifo[OF reach_al_sleeping] by (auto simp: al_sleeping_eq(2) al_zero_fields)

text \<open>
  The writer thread can end while the logger is in use: a spurious wake-up makes \<^verbatim>\<open>pop\<close> return
  false, and the loop ends although \<^verbatim>\<open>is_thread_stop\<close> is not set. From then on nothing is written any
  more, whatever is pushed.
\<close>

theorem async_writer_ends_early:
  "\<exists>s. reach al_start al_step s \<and> al_writer s = W_ended \<and> \<not> al_is_thread_stop s \<and>
     (\<nexists>t. al_step\<^sup>*\<^sup>* s t \<and> al_written t \<noteq> al_written s)"
proof -
  have "al_writer al_early_end = W_ended" "\<not> al_is_thread_stop al_early_end"
    by (simp_all add: al_early_end_eq(2) al_zero_fields)
  then show ?thesis using reach_al_early_end al_ended_steps by blast
qed

text \<open>
  The destructor can wait forever, and lines can be lost: it stores the flag and notifies without the
  mutex, so a writer that was not yet asleep goes to sleep after the notification, with nothing left to
  wake it; and a writer that is not asleep ends at the flag without writing the line it holds or
  those queued.
\<close>

theorem async_stop_hangs_or_drops:
  "(\<exists>s. reach al_start al_step s \<and> al_destructor s = D_joining \<and> al_writer s = W_wait) \<and>
   (\<exists>s. reach al_start al_step s \<and> al_destructor s = D_joining \<and> al_writer s = W_ended \<and> al_written s \<noteq> al_pushed s)"
proof
  let ?a = "logger_notify (logger_stop al_zero)"
  have stop: "reach_al (logger_stop al_zero)" by (rule reach_step[OF reach_al_zero al_stop]) (simp add: al_zero_fields)
  have a: "reach_al ?a" by (rule reach_step[OF stop al_notify]) (simp add: logger_stop_def)
  have e: "?a = al_zero\<lparr>al_is_thread_stop := True, al_destructor := D_joining\<rparr>"
    by (simp add: logger_notify_def logger_stop_def writer_wake_def al_zero_fields)
  then have p: "writer_pop ?a = Inr (?a\<lparr>al_writer := W_wait\<rparr>)"
    by (simp add: writer_pop_def pop_begin_def al_zero_fields queue_new_def writer_popped_def)
  have "reach_al (?a\<lparr>al_writer := W_wait\<rparr>)" by (rule reach_step[OF a al_pop[OF _ p]]) (simp add: e al_zero_fields)
  then show "\<exists>s. reach_al s \<and> al_destructor s = D_joining \<and> al_writer s = W_wait"
    by (intro exI[of _ "?a\<lparr>al_writer := W_wait\<rparr>"]) (simp add: e)
  have q: "q_ok (al_queue ?a)" "b_size (al_queue ?a) < b_capacity (al_queue ?a)"
    by (auto simp: e al_zero_fields queue_new_def q_ok_def)
  obtain q where qq: "q_push ''x'' (al_queue ?a) = Inr (True, q)" "q_ok q" "q_list q = q_list (al_queue ?a) @ [''x'']"
    using q_push_ok[OF q, of "''x''"] by (elim exE conjE) (rule that)
  have ql: "q_list (al_queue ?a) = []" by (simp add: e al_zero_fields queue_new_def q_list_def)
  let ?b = "?a\<lparr>al_queue := q, al_pushed := [''x'']\<rparr>"
  have "producer_push ''x'' ?a = Inr ?b" using qq(1) by (simp add: producer_push_def e writer_wake_def al_zero_fields)
  then have b: "reach_al ?b" by (rule reach_step[OF a al_push])
  obtain q' where "pop_begin q = Inr (Pop_true (Some ''x''), q')"
    using pop_begin_ok[OF qq(2)] qq(3) ql by auto
  then have "writer_pop ?b = Inr (?b\<lparr>al_queue := q', al_writer := W_test ''x''\<rparr>)" by (simp add: writer_pop_def writer_popped_def)
  then have c: "reach_al (?b\<lparr>al_queue := q', al_writer := W_test ''x''\<rparr>)"
    by (intro reach_step[OF b al_pop]) (simp_all add: e al_zero_fields)
  have "reach_al (writer_write ''x'' (?b\<lparr>al_queue := q', al_writer := W_test ''x''\<rparr>))"
    by (rule reach_step[OF c al_write]) simp
  then show "\<exists>s. reach_al s \<and> al_destructor s = D_joining \<and> al_writer s = W_ended \<and> al_written s \<noteq> al_pushed s"
    by (intro exI[of _ "writer_write ''x'' (?b\<lparr>al_queue := q', al_writer := W_test ''x''\<rparr>)"])
      (simp add: writer_write_def e al_zero_fields)
qed

end
