(* ===== verification/Webbench.thy ===== *)
theory Webbench
  imports Cstring
begin

text \<open>
  The load generator's command line and HTTP request (src/webbench-1.5/webbench.c): the globals,
  the option table and the option loop of \<^verbatim>\<open>main\<close>, and \<^verbatim>\<open>build_request\<close>, which assembles the
  request text in a fixed array. The lemmas give the exact request, the rejected URLs and the
  URLs that overflow the host and port arrays.
\<close>

section \<open>Globals\<close>

record wb =
  w_timerexpired :: int
  w_speed :: int
  w_failed :: int
  w_bytes :: int
  w_http10 :: int
  w_method :: int
  w_clients :: int
  w_force :: int
  w_force_reload :: int
  w_proxyport :: int
  w_proxyhost :: "string option"
  w_benchtime :: int
  w_host :: "char list"
  w_request :: "char list"

abbreviation (input) METHOD_GET :: int where "METHOD_GET \<equiv> 0"
abbreviation (input) METHOD_HEAD :: int where "METHOD_HEAD \<equiv> 1"
abbreviation (input) METHOD_OPTIONS :: int where "METHOD_OPTIONS \<equiv> 2"
abbreviation (input) METHOD_TRACE :: int where "METHOD_TRACE \<equiv> 3"
abbreviation (input) MAXHOSTNAMELEN :: nat where "MAXHOSTNAMELEN \<equiv> 64"
abbreviation (input) REQUEST_SIZE :: nat where "REQUEST_SIZE \<equiv> 2048"

definition wb_start :: wb where
  "wb_start = \<lparr>w_timerexpired = 0, w_speed = 0, w_failed = 0, w_bytes = 0, w_http10 = 1,
     w_method = METHOD_GET, w_clients = 1, w_force = 0, w_force_reload = 0, w_proxyport = 80,
     w_proxyhost = None, w_benchtime = 30, w_host = bzero MAXHOSTNAMELEN, w_request = bzero REQUEST_SIZE\<rparr>"

definition alarm_handler :: "wb \<Rightarrow> wb" where
  "alarm_handler g = g\<lparr>w_timerexpired := 1\<rparr>"

section \<open>Options\<close>

text \<open>
  \<^verbatim>\<open>getopt_long\<close> splits the arguments into options; a token is one option as it finds it on the
  command line, with its argument. What it answers is decided by the two tables of the source:
  \<^verbatim>\<open>'?'\<close> for an unknown option or a missing or unwanted argument, 0 when it set a flag, and else the
  option's character.
\<close>

datatype opt_token = Short char "string option" | Long string "string option"

datatype opt_action = Set_force | Set_reload | Set_method int | Return char

definition long_options :: "(string \<times> bool \<times> opt_action) list" where
  "long_options =
    [(''force'', False, Set_force),
     (''reload'', False, Set_reload),
     (''time'', True, Return CHR ''t''),
     (''help'', False, Return CHR ''?''),
     (''http09'', False, Return CHR ''9''),
     (''http10'', False, Return CHR ''1''),
     (''http11'', False, Return CHR ''2''),
     (''get'', False, Set_method METHOD_GET),
     (''head'', False, Set_method METHOD_HEAD),
     (''options'', False, Set_method METHOD_OPTIONS),
     (''trace'', False, Set_method METHOD_TRACE),
     (''version'', False, Return CHR ''V''),
     (''proxy'', True, Return CHR ''p''),
     (''clients'', True, Return CHR ''c'')]"

definition short_options :: "(char \<times> bool) list" where
  "short_options =
    [(CHR ''9'', False), (CHR ''1'', False), (CHR ''2'', False), (CHR ''V'', False), (CHR ''f'', False),
     (CHR ''r'', False), (CHR ''t'', True), (CHR ''p'', True), (CHR ''c'', True), (CHR ''?'', False),
     (CHR ''h'', False)]"

fun opt_action_run :: "opt_action \<Rightarrow> wb \<Rightarrow> char option \<times> wb" where
  "opt_action_run Set_force g = (None, g\<lparr>w_force := 1\<rparr>)"
| "opt_action_run Set_reload g = (None, g\<lparr>w_force_reload := 1\<rparr>)"
| "opt_action_run (Set_method m) g = (None, g\<lparr>w_method := m\<rparr>)"
| "opt_action_run (Return c) g = (Some c, g)"

fun getopt_long :: "opt_token \<Rightarrow> wb \<Rightarrow> char option \<times> string \<times> wb" where
  "getopt_long (Long name arg) g =
     (case map_of long_options name of
        None \<Rightarrow> (Some CHR ''?'', [], g)
      | Some (has_arg, act) \<Rightarrow>
        (if has_arg \<noteq> (arg \<noteq> None) then (Some CHR ''?'', [], g)
         else (case opt_action_run act g of (r, g) \<Rightarrow> (r, (case arg of None \<Rightarrow> [] | Some a \<Rightarrow> a), g))))"
| "getopt_long (Short c arg) g =
     (case map_of short_options c of
        None \<Rightarrow> (Some CHR ''?'', [], g)
      | Some has_arg \<Rightarrow>
        (if has_arg \<noteq> (arg \<noteq> None) then (Some CHR ''?'', [], g)
         else (Some c, (case arg of None \<Rightarrow> [] | Some a \<Rightarrow> a), g)))"

text \<open>Case \<^verbatim>\<open>'p'\<close>: the host is cut at the last colon.\<close>

definition proxy_option :: "string \<Rightarrow> wb \<Rightarrow> wb result" where
  "proxy_option optarg g =
     (case strrchr optarg CHR '':'' of
        None \<Rightarrow> Inr (g\<lparr>w_proxyhost := Some optarg\<rparr>)
      | Some tmp \<Rightarrow>
        (if tmp = 0 then Inl (Exit 2)
         else if tmp = length optarg - 1 then Inl (Exit 2)
         else rbind (atoi (drop (tmp + 1) optarg)) (\<lambda>port.
           Inr (g\<lparr>w_proxyhost := Some (take tmp optarg), w_proxyport := port\<rparr>))))"

definition main_option :: "char option \<Rightarrow> string \<Rightarrow> wb \<Rightarrow> wb result" where
  "main_option opt optarg g =
     (case opt of
        None \<Rightarrow> Inr g
      | Some c \<Rightarrow>
        if c = CHR ''f'' then Inr (g\<lparr>w_force := 1\<rparr>)
        else if c = CHR ''r'' then Inr (g\<lparr>w_force_reload := 1\<rparr>)
        else if c = CHR ''9'' then Inr (g\<lparr>w_http10 := 0\<rparr>)
        else if c = CHR ''1'' then Inr (g\<lparr>w_http10 := 1\<rparr>)
        else if c = CHR ''2'' then Inr (g\<lparr>w_http10 := 2\<rparr>)
        else if c = CHR ''V'' then Inl (Exit 0)
        else if c = CHR ''t'' then rbind (atoi optarg) (\<lambda>n. Inr (g\<lparr>w_benchtime := n\<rparr>))
        else if c = CHR ''p'' then proxy_option optarg g
        else if c = CHR '':'' \<or> c = CHR ''h'' \<or> c = CHR ''?'' then Inl (Exit 2)
        else if c = CHR ''c'' then rbind (atoi optarg) (\<lambda>n. Inr (g\<lparr>w_clients := n\<rparr>))
        else Inr g)"

fun main_loop :: "opt_token list \<Rightarrow> wb \<Rightarrow> wb result" where
  "main_loop [] g = Inr g"
| "main_loop (t # ts) g =
     (case getopt_long t g of (opt, optarg, g) \<Rightarrow>
      rbind (main_option opt optarg g) (\<lambda>g. main_loop ts g))"

section \<open>The request\<close>

definition adjust_version :: "wb \<Rightarrow> wb" where
  "adjust_version g =
     (let g = (if w_force_reload g \<noteq> 0 \<and> w_proxyhost g \<noteq> None \<and> w_http10 g < 1 then g\<lparr>w_http10 := 1\<rparr> else g);
          g = (if w_method g = METHOD_HEAD \<and> w_http10 g < 1 then g\<lparr>w_http10 := 1\<rparr> else g);
          g = (if w_method g = METHOD_OPTIONS \<and> w_http10 g < 2 then g\<lparr>w_http10 := 2\<rparr> else g)
      in (if w_method g = METHOD_TRACE \<and> w_http10 g < 2 then g\<lparr>w_http10 := 2\<rparr> else g))"

definition method_name :: "int \<Rightarrow> string" where
  "method_name m =
     (if m = METHOD_HEAD then ''HEAD'' else if m = METHOD_OPTIONS then ''OPTIONS''
      else if m = METHOD_TRACE then ''TRACE'' else ''GET'')"

text \<open>The host, and the port when the first colon stands before the first slash; \<^verbatim>\<open>s\<close> is \<^verbatim>\<open>url+i\<close>,
  and it has a slash.\<close>

definition parse_host :: "string \<Rightarrow> wb \<Rightarrow> wb result" where
  "parse_host s g =
     (case (strchr s CHR '':'', strchr s CHR ''/'') of
        (Some colon, Some slash) \<Rightarrow>
          (if colon < slash then
             rbind (strncpy (w_host g) s colon) (\<lambda>h.
             rbind (strncpy (bzero 10) (drop (colon + 1) s) (slash - colon - 1)) (\<lambda>tmp.
             rbind (rbind (c_str tmp) atoi) (\<lambda>port.
             Inr (g\<lparr>w_host := h, w_proxyport := (if port = 0 then 80 else port)\<rparr>))))
           else rbind (strncpy (w_host g) s (strcspn s CHR ''/'')) (\<lambda>h. Inr (g\<lparr>w_host := h\<rparr>)))
      | _ \<Rightarrow> rbind (strncpy (w_host g) s (strcspn s CHR ''/'')) (\<lambda>h. Inr (g\<lparr>w_host := h\<rparr>)))"

definition request_target :: "string \<Rightarrow> string \<Rightarrow> wb \<Rightarrow> char list \<Rightarrow> (wb \<times> char list) result" where
  "request_target url s g r =
     (if w_proxyhost g = None then
        rbind (parse_host s g) (\<lambda>g.
        rbind (strcat r (drop (strcspn s CHR ''/'') s)) (\<lambda>r. Inr (g, r)))
      else rbind (strcat r url) (\<lambda>r. Inr (g, r)))"

definition cat_if :: "bool \<Rightarrow> string \<Rightarrow> char list \<Rightarrow> char list result" where
  "cat_if b s arr = (if b then strcat arr s else Inr arr)"

definition append_headers :: "wb \<Rightarrow> char list \<Rightarrow> char list result" where
  "append_headers g r =
     rbind (if w_http10 g = 1 then strcat r '' HTTP/1.0''
            else if w_http10 g = 2 then strcat r '' HTTP/1.1'' else Inr r) (\<lambda>r.
     rbind (strcat r crlf) (\<lambda>r.
     rbind (cat_if (0 < w_http10 g) (''User-Agent: WebBench 1.5'' @ crlf) r) (\<lambda>r.
     rbind (if w_proxyhost g = None \<and> 0 < w_http10 g then
              rbind (strcat r ''Host: '') (\<lambda>r.
              rbind (c_str (w_host g)) (\<lambda>h.
              rbind (strcat r h) (\<lambda>r. strcat r crlf)))
            else Inr r) (\<lambda>r.
     rbind (cat_if (w_force_reload g \<noteq> 0 \<and> w_proxyhost g \<noteq> None) (''Pragma: no-cache'' @ crlf) r) (\<lambda>r.
     rbind (cat_if (1 < w_http10 g) (''Connection: close'' @ crlf) r) (\<lambda>r.
     cat_if (0 < w_http10 g) crlf r))))))"

definition build_request :: "string \<Rightarrow> wb \<Rightarrow> wb result" where
  "build_request url g =
     (let g = adjust_version (g\<lparr>w_host := bzero MAXHOSTNAMELEN, w_request := bzero REQUEST_SIZE\<rparr>) in
      rbind (strcpy (w_request g) (method_name (w_method g))) (\<lambda>r.
      rbind (strcat r '' '') (\<lambda>r.
      case strstr url ''://'' of
        None \<Rightarrow> Inl (Exit 2)
      | Some p \<Rightarrow>
        if length url > 1500 then Inl (Exit 2)
        else if w_proxyhost g = None \<and> \<not> prefix_nocase ''http://'' url then Inl (Exit 2)
        else
          let s = drop (p + 3) url in
          if strchr s CHR ''/'' = None then Inl (Exit 2)
          else
            rbind (request_target url s g r) (\<lambda>(g, r).
            rbind (append_headers g r) (\<lambda>r.
            Inr (g\<lparr>w_request := r\<rparr>))))))"

definition main_defaults :: "wb \<Rightarrow> wb" where
  "main_defaults g =
     (let g = (if w_clients g = 0 then g\<lparr>w_clients := 1\<rparr> else g)
      in if w_benchtime g = 0 then g\<lparr>w_benchtime := 60\<rparr> else g)"

text \<open>\<^verbatim>\<open>main\<close> up to the call of \<^verbatim>\<open>bench\<close>: the options, the operands that are left (\<^verbatim>\<open>argv[optind]\<close> is the
  first), and the request.\<close>

definition main_setup :: "opt_token list \<Rightarrow> string list \<Rightarrow> wb result" where
  "main_setup opts operands =
     (if opts = [] \<and> operands = [] then Inl (Exit 2)
      else
        rbind (main_loop opts wb_start) (\<lambda>g.
        case operands of
          [] \<Rightarrow> Inl (Exit 2)
        | url # _ \<Rightarrow> build_request url (main_defaults g)))"

text \<open>The line \<^verbatim>\<open>main\<close> prints before the benchmark starts.\<close>

definition bench_info :: "string \<Rightarrow> wb \<Rightarrow> string" where
  "bench_info url g =
     [LF] @ ''Benchmarking: '' @ method_name (w_method g) @ '' '' @ url @
     (if w_http10 g = 0 then '' (using HTTP/0.9)'' else if w_http10 g = 2 then '' (using HTTP/1.1)'' else []) @
     [LF] @ (if w_clients g = 1 then ''1 client'' else decimal (w_clients g) @ '' clients'') @
     '', running '' @ decimal (w_benchtime g) @ '' sec'' @
     (if w_force g \<noteq> 0 then '', early socket close'' else []) @
     (case w_proxyhost g of None \<Rightarrow> []
      | Some h \<Rightarrow> '', via proxy server '' @ h @ '':'' @ decimal (w_proxyport g)) @
     (if w_force_reload g \<noteq> 0 then '', forcing reload'' else []) @ ''.'' @ [LF]"

section \<open>The request text\<close>

text \<open>What the lines after the request target must be, for an HTTP version and a host.\<close>

definition header_text :: "wb \<Rightarrow> string \<Rightarrow> string" where
  "header_text g h =
     (if w_http10 g = 1 then '' HTTP/1.0'' else if w_http10 g = 2 then '' HTTP/1.1'' else []) @ crlf @
     (if 0 < w_http10 g then ''User-Agent: WebBench 1.5'' @ crlf else []) @
     (if w_proxyhost g = None \<and> 0 < w_http10 g then ''Host: '' @ h @ crlf else []) @
     (if w_force_reload g \<noteq> 0 \<and> w_proxyhost g \<noteq> None then ''Pragma: no-cache'' @ crlf else []) @
     (if 1 < w_http10 g then ''Connection: close'' @ crlf else []) @
     (if 0 < w_http10 g then crlf else [])"

lemma cat_if_ok:
  assumes "holds_str arr n t" "NUL \<notin> set s" "length t + length s < n"
  shows "\<exists>a. cat_if b s arr = Inr a \<and> holds_str a n (t @ (if b then s else []))"
  using strcat_ok[OF assms] assms(1) by (simp add: cat_if_def)

lemma crlf_simps [simp]: "NUL \<notin> set crlf" "length crlf = 2"
  by (simp_all add: crlf_def)

lemma version_ok:
  assumes "holds_str r n t" "length t + 9 < n"
  shows "\<exists>a. (if v = (1 :: int) then strcat r '' HTTP/1.0'' else if v = 2 then strcat r '' HTTP/1.1'' else Inr r) = Inr a \<and>
     holds_str a n (t @ (if v = 1 then '' HTTP/1.0'' else if v = 2 then '' HTTP/1.1'' else []))"
  using strcat_ok[OF assms(1), of "'' HTTP/1.0''"] strcat_ok[OF assms(1), of "'' HTTP/1.1''"] assms
  by (cases "v = 1"; cases "v = 2") auto

lemma host_line_ok:
  assumes r: "holds_str r n t" "length t + length h + 10 < n"
    and h: "holds_str (w_host g) k h \<or> w_proxyhost g \<noteq> None"
  shows "\<exists>a. (if w_proxyhost g = None \<and> 0 < w_http10 g then
       rbind (strcat r ''Host: '') (\<lambda>r. rbind (c_str (w_host g)) (\<lambda>h. rbind (strcat r h) (\<lambda>r. strcat r crlf)))
       else Inr r) = Inr a \<and>
     holds_str a n (t @ (if w_proxyhost g = None \<and> 0 < w_http10 g then ''Host: '' @ h @ crlf else []))"
proof (cases "w_proxyhost g = None \<and> 0 < w_http10 g")
  case True
  then have hs: "c_str (w_host g) = Inr h" using h by (simp add: holds_str_def)
  then have hn: "NUL \<notin> set h" using c_str_split by blast
  obtain a where a: "strcat r ''Host: '' = Inr a" "holds_str a n (t @ ''Host: '')"
    using strcat_ok[OF r(1), of "''Host: ''"] r(2) by auto
  obtain b where b: "strcat a h = Inr b" "holds_str b n ((t @ ''Host: '') @ h)"
    using strcat_ok[OF a(2) hn] r(2) by auto
  obtain c where "strcat b crlf = Inr c" "holds_str c n (((t @ ''Host: '') @ h) @ crlf)"
    using strcat_ok[OF b(2), of crlf] r(2) by auto
  then show ?thesis using True a(1) b(1) hs by simp
next
  case False
  then show ?thesis using r(1) by auto
qed

lemma append_headers_ok:
  assumes r: "holds_str r REQUEST_SIZE t" "length t \<le> 1600"
    and h: "holds_str (w_host g) MAXHOSTNAMELEN h \<or> w_proxyhost g \<noteq> None" and hl: "length h < 64"
  shows "\<exists>r'. append_headers g r = Inr r' \<and> holds_str r' REQUEST_SIZE (t @ header_text g h)"
proof -
  define t1 where "t1 = t @ (if w_http10 g = 1 then '' HTTP/1.0'' else if w_http10 g = 2 then '' HTTP/1.1'' else [])"
  define t2 where "t2 = t1 @ crlf"
  define t3 where "t3 = t2 @ (if 0 < w_http10 g then ''User-Agent: WebBench 1.5'' @ crlf else [])"
  define t4 where "t4 = t3 @ (if w_proxyhost g = None \<and> 0 < w_http10 g then ''Host: '' @ h @ crlf else [])"
  define t5 where "t5 = t4 @ (if w_force_reload g \<noteq> 0 \<and> w_proxyhost g \<noteq> None then ''Pragma: no-cache'' @ crlf else [])"
  define t6 where "t6 = t5 @ (if 1 < w_http10 g then ''Connection: close'' @ crlf else [])"
  have l: "length t1 \<le> 1609" "length t2 \<le> 1611" "length t3 \<le> 1637" "length t4 \<le> 1708" "length t5 \<le> 1726" "length t6 \<le> 1745"
    using r(2) hl by (simp_all add: t1_def t2_def t3_def t4_def t5_def t6_def)
  obtain r1 where r1: "(if w_http10 g = 1 then strcat r '' HTTP/1.0''
      else if w_http10 g = 2 then strcat r '' HTTP/1.1'' else Inr r) = Inr r1" "holds_str r1 REQUEST_SIZE t1"
    using version_ok[OF r(1)] r(2) unfolding t1_def by auto
  obtain r2 where r2: "strcat r1 crlf = Inr r2" "holds_str r2 REQUEST_SIZE t2"
    using strcat_ok[OF r1(2), of crlf] l by (auto simp: t2_def)
  obtain r3 where r3: "cat_if (0 < w_http10 g) (''User-Agent: WebBench 1.5'' @ crlf) r2 = Inr r3" "holds_str r3 REQUEST_SIZE t3"
    using cat_if_ok[OF r2(2), of "''User-Agent: WebBench 1.5'' @ crlf" "0 < w_http10 g"] l by (auto simp: t3_def)
  have hl4: "length t3 + length h + 10 < REQUEST_SIZE" using l hl by simp
  obtain r4 where r4: "(if w_proxyhost g = None \<and> 0 < w_http10 g then
      rbind (strcat r3 ''Host: '') (\<lambda>r. rbind (c_str (w_host g)) (\<lambda>h. rbind (strcat r h) (\<lambda>r. strcat r crlf)))
      else Inr r3) = Inr r4" "holds_str r4 REQUEST_SIZE t4"
    using host_line_ok[OF r3(2) hl4 h] unfolding t4_def by blast
  obtain r5 where r5: "cat_if (w_force_reload g \<noteq> 0 \<and> w_proxyhost g \<noteq> None) (''Pragma: no-cache'' @ crlf) r4 = Inr r5"
      "holds_str r5 REQUEST_SIZE t5"
    using cat_if_ok[OF r4(2), of "''Pragma: no-cache'' @ crlf" "w_force_reload g \<noteq> 0 \<and> w_proxyhost g \<noteq> None"] l
    by (auto simp: t5_def)
  obtain r6 where r6: "cat_if (1 < w_http10 g) (''Connection: close'' @ crlf) r5 = Inr r6" "holds_str r6 REQUEST_SIZE t6"
    using cat_if_ok[OF r5(2), of "''Connection: close'' @ crlf" "1 < w_http10 g"] l by (auto simp: t6_def)
  have "append_headers g r = cat_if (0 < w_http10 g) crlf r6"
    unfolding append_headers_def by (simp only: r1(1) r2(1) r3(1) r4(1) r5(1) r6(1) rbind_simps)
  moreover have "t @ header_text g h = t6 @ (if 0 < w_http10 g then crlf else [])"
    by (simp add: header_text_def t1_def t2_def t3_def t4_def t5_def t6_def)
  ultimately show ?thesis using cat_if_ok[OF r6(2), of crlf "0 < w_http10 g"] l by auto
qed

lemma method_name_simps: "NUL \<notin> set (method_name m)" "length (method_name m) \<le> 7"
  by (auto simp: method_name_def)

lemma adjust_version_frame [simp]:
  "w_proxyhost (adjust_version g) = w_proxyhost g" "w_method (adjust_version g) = w_method g"
  "w_host (adjust_version g) = w_host g" "w_request (adjust_version g) = w_request g"
  "w_proxyport (adjust_version g) = w_proxyport g" "w_clients (adjust_version g) = w_clients g"
  "w_benchtime (adjust_version g) = w_benchtime g" "w_force_reload (adjust_version g) = w_force_reload g"
  by (simp_all add: adjust_version_def Let_def)

lemma adjust_version_arrays [simp]:
  "adjust_version (g\<lparr>w_host := a, w_request := b\<rparr>) = (adjust_version g)\<lparr>w_host := a, w_request := b\<rparr>"
  by (simp add: adjust_version_def Let_def)

lemma header_text_arrays [simp]: "header_text (g\<lparr>w_host := a, w_request := b\<rparr>) h = header_text g h"
  by (simp add: header_text_def)

text \<open>The method and the space are always written.\<close>

lemma request_start:
  "\<exists>r r'. strcpy (bzero REQUEST_SIZE) (method_name m) = Inr r' \<and> strcat r' '' '' = Inr r \<and>
     holds_str r REQUEST_SIZE (method_name m @ '' '')"
proof -
  obtain a where a: "strcpy (bzero REQUEST_SIZE) (method_name m) = Inr a" "holds_str a REQUEST_SIZE (method_name m)"
    using strcpy_ok[of "method_name m" "bzero REQUEST_SIZE"] method_name_simps[of m] by (auto simp: bzero_def)
  then show ?thesis using strcat_ok[OF a(2), of "'' ''"] method_name_simps(2)[of m] by auto
qed

section \<open>Parsing the URL\<close>

definition port_text :: "string option \<Rightarrow> string" where
  "port_text pt = (case pt of None \<Rightarrow> [] | Some ds \<Rightarrow> CHR '':'' # ds)"

text \<open>An HTTP URL with a host, perhaps a port, and a path.\<close>

definition direct_url :: "string \<Rightarrow> string option \<Rightarrow> string \<Rightarrow> string" where
  "direct_url h pt path = ''http://'' @ h @ port_text pt @ CHR ''/'' # path"

definition url_port :: "string option \<Rightarrow> int \<Rightarrow> int \<Rightarrow> bool" where
  "url_port pt old port \<longleftrightarrow>
     (case pt of None \<Rightarrow> port = old
      | Some ds \<Rightarrow> (\<exists>v. atoi ds = Inr v \<and> port = (if v = 0 then 80 else v)))"

definition url_fits :: "string \<Rightarrow> string option \<Rightarrow> bool" where
  "url_fits h pt \<longleftrightarrow> length h < MAXHOSTNAMELEN \<and>
     (case pt of None \<Rightarrow> True | Some ds \<Rightarrow> length ds < 10 \<and> NUL \<notin> set ds \<and> (\<exists>v. atoi ds = Inr v)) \<and>
     NUL \<notin> set h"

definition url_wf :: "string \<Rightarrow> string option \<Rightarrow> bool" where
  "url_wf h pt \<longleftrightarrow> CHR '':'' \<notin> set h \<and> CHR ''/'' \<notin> set h \<and>
     (case pt of None \<Rightarrow> True | Some ds \<Rightarrow> CHR ''/'' \<notin> set ds)"

lemma direct_url_split:
  "strstr (direct_url h pt path) ''://'' = Some 4" "drop 7 (direct_url h pt path) = h @ port_text pt @ CHR ''/'' # path"
  "prefix_nocase ''http://'' (direct_url h pt path)"
  by (simp_all add: direct_url_def prefix_nocase_def)

lemma strchr_first:
  assumes "url_wf h pt"
  shows "strchr (h @ port_text pt @ CHR ''/'' # path) CHR ''/'' = Some (length h + length (port_text pt))"
    "strcspn (h @ port_text pt @ CHR ''/'' # path) CHR ''/'' = length h + length (port_text pt)"
proof -
  have "CHR ''/'' \<notin> set (h @ port_text pt)"
    using assms by (auto simp: url_wf_def port_text_def split: option.splits)
  from strchr_append[OF this] strcspn_append[OF this]
  show "strchr (h @ port_text pt @ CHR ''/'' # path) CHR ''/'' = Some (length h + length (port_text pt))"
    "strcspn (h @ port_text pt @ CHR ''/'' # path) CHR ''/'' = length h + length (port_text pt)"
    by simp_all
qed

text \<open>With a port the first branch is taken; without one the first colon, if any, is in the path.\<close>

lemma parse_host_port:
  assumes "url_wf h (Some ds)"
  shows "parse_host (h @ port_text (Some ds) @ CHR ''/'' # path) g =
     rbind (strncpy (w_host g) (h @ port_text (Some ds) @ CHR ''/'' # path) (length h)) (\<lambda>a.
     rbind (strncpy (bzero 10) (ds @ CHR ''/'' # path) (length ds)) (\<lambda>tmp.
     rbind (rbind (c_str tmp) atoi) (\<lambda>port.
     Inr (g\<lparr>w_host := a, w_proxyport := (if port = 0 then 80 else port)\<rparr>))))"
proof -
  let ?s = "h @ port_text (Some ds) @ CHR ''/'' # path"
  have c: "strchr ?s CHR '':'' = Some (length h)"
    using strchr_append[of "CHR '':''" h "ds @ CHR ''/'' # path"] assms by (simp add: url_wf_def port_text_def)
  have d: "drop (length h + 1) ?s = ds @ CHR ''/'' # path" by (simp add: port_text_def)
  show ?thesis using c d strchr_first(1)[OF assms, of path] by (simp add: parse_host_def port_text_def)
qed

lemma parse_host_plain:
  assumes "url_wf h None"
  shows "parse_host (h @ CHR ''/'' # path) g =
     rbind (strncpy (w_host g) (h @ CHR ''/'' # path) (length h)) (\<lambda>a. Inr (g\<lparr>w_host := a\<rparr>))"
proof -
  let ?s = "h @ CHR ''/'' # path"
  have sl: "strchr ?s CHR ''/'' = Some (length h)" "strcspn ?s CHR ''/'' = length h"
    using strchr_first[OF assms, of path] by (simp_all add: port_text_def)
  show ?thesis
  proof (cases "strchr ?s CHR '':''")
    case None
    then show ?thesis using sl by (simp add: parse_host_def)
  next
    case (Some colon)
    have "\<not> colon < length h"
    proof
      assume "colon < length h"
      then have "?s ! colon = h ! colon" by (simp add: nth_append)
      then show False using strchr_split[OF Some] assms \<open>colon < length h\<close>
        by (auto simp: url_wf_def dest: nth_mem)
    qed
    then show ?thesis using sl Some by (simp add: parse_host_def)
  qed
qed

lemma parse_host_ok:
  assumes wf: "url_wf h pt" and fits: "url_fits h pt" and g: "w_host g = bzero MAXHOSTNAMELEN"
  shows "\<exists>a p. parse_host (h @ port_text pt @ CHR ''/'' # path) g = Inr (g\<lparr>w_host := a, w_proxyport := p\<rparr>) \<and>
     holds_str a MAXHOSTNAMELEN h \<and> url_port pt (w_proxyport g) p"
proof -
  let ?s = "h @ port_text pt @ CHR ''/'' # path"
  have "strncpy (w_host g) ?s (length h) = strncpy (bzero MAXHOSTNAMELEN) h (length h)"
    using strncpy_take[of "length h" ?s "w_host g"] g by simp
  then obtain a where a: "strncpy (w_host g) ?s (length h) = Inr a" "holds_str a MAXHOSTNAMELEN h"
    using strncpy_ok[of h MAXHOSTNAMELEN "length h"] fits by (auto simp: url_fits_def)
  show ?thesis
  proof (cases pt)
    case None
    then have "parse_host ?s g = Inr (g\<lparr>w_host := a, w_proxyport := w_proxyport g\<rparr>)"
      using parse_host_plain[of h path g] wf a(1) by (simp add: port_text_def)
    then show ?thesis using a(2) None by (auto simp: url_port_def)
  next
    case (Some ds)
    then obtain v where v: "atoi ds = Inr v" "length ds < 10" "NUL \<notin> set ds" using fits by (auto simp: url_fits_def)
    have "strncpy (bzero 10) (ds @ CHR ''/'' # path) (length ds) = strncpy (bzero 10) ds (length ds)"
      using strncpy_take[of "length ds" "ds @ CHR ''/'' # path" "bzero 10"] by simp
    then obtain tmp where tmp: "strncpy (bzero 10) (ds @ CHR ''/'' # path) (length ds) = Inr tmp" "c_str tmp = Inr ds"
      using strncpy_ok[of ds 10 "length ds"] v by (auto simp: holds_str_def)
    show ?thesis
      using parse_host_port[of h ds path g] wf Some a tmp v(1)
      by (intro exI[of _ a] exI[of _ "if v = 0 then 80 else v"]) (simp add: url_port_def)
  qed
qed

lemma parse_host_overflow:
  assumes wf: "url_wf h pt" and g: "w_host g = bzero MAXHOSTNAMELEN"
    and big: "MAXHOSTNAMELEN < length h \<or> (\<exists>ds. pt = Some ds \<and> 10 < length ds)"
  shows "parse_host (h @ port_text pt @ CHR ''/'' # path) g = Inl (Undefined Out_of_bounds)"
proof (cases pt)
  case None
  then show ?thesis
    using parse_host_plain[of h path g] wf big g strncpy_overflow[of MAXHOSTNAMELEN "length h"] by (simp add: port_text_def)
next
  case (Some ds)
  have "rbind (strncpy (bzero MAXHOSTNAMELEN) s (length h)) (\<lambda>_. Inl (Undefined Out_of_bounds)) =
      (Inl (Undefined Out_of_bounds) :: 'b result)" for s
    by (simp add: strncpy_def mem_write_def)
  then show ?thesis
    using parse_host_port[of h ds path g] wf Some big g strncpy_overflow[of MAXHOSTNAMELEN "length h"]
      strncpy_overflow[of 10 "length ds"] by auto
qed

text \<open>None of the copies ends the program by itself.\<close>

lemma no_exit:
  "strcat a s \<noteq> Inl (Exit c)" "strncpy a s n \<noteq> Inl (Exit c)" "atoi s \<noteq> Inl (Exit c)"
  "parse_host s g \<noteq> Inl (Exit c)" "append_headers g r \<noteq> Inl (Exit c)"
proof -
  show s: "strcat a s \<noteq> Inl (Exit c)" for a s
    by (simp add: strcat_def c_str_def mem_write_def)
  show n: "strncpy a s n \<noteq> Inl (Exit c)" for a s n by (simp add: strncpy_def mem_write_def)
  show i: "atoi s \<noteq> Inl (Exit c)" for s by (simp add: atoi_def cint_def split: option.split)
  have cs: "c_str a \<noteq> Inl (Exit c)" for a by (simp add: c_str_def)
  show "parse_host s g \<noteq> Inl (Exit c)"
    using n i cs by (auto simp: parse_host_def result_iff split: option.splits)
  show "append_headers g r \<noteq> Inl (Exit c)"
    using s cs by (auto simp: append_headers_def cat_if_def result_iff split: if_splits)
qed

lemma build_request_direct_ok:
  assumes noproxy: "w_proxyhost g = None" and wf: "url_wf h pt" and fits: "url_fits h pt"
    and len: "length (direct_url h pt path) \<le> 1500" and nul: "NUL \<notin> set path"
  shows "\<exists>g'. build_request (direct_url h pt path) g = Inr g' \<and> w_http10 g' = w_http10 (adjust_version g) \<and>
     holds_str (w_host g') MAXHOSTNAMELEN h \<and> url_port pt (w_proxyport g) (w_proxyport g') \<and>
     holds_str (w_request g') REQUEST_SIZE
       (method_name (w_method g) @ '' /'' @ path @ header_text (adjust_version g) h)"
proof -
  let ?url = "direct_url h pt path" and ?s = "h @ port_text pt @ CHR ''/'' # path"
  let ?g = "adjust_version (g\<lparr>w_host := bzero MAXHOSTNAMELEN, w_request := bzero REQUEST_SIZE\<rparr>)"
  obtain r r0 where r: "strcpy (bzero REQUEST_SIZE) (method_name (w_method g)) = Inr r0" "strcat r0 '' '' = Inr r"
      "holds_str r REQUEST_SIZE (method_name (w_method g) @ '' '')"
    using request_start by blast
  obtain a p where ph: "parse_host ?s ?g = Inr (?g\<lparr>w_host := a, w_proxyport := p\<rparr>)"
      "holds_str a MAXHOSTNAMELEN h" "url_port pt (w_proxyport g) p"
    using parse_host_ok[OF wf fits, of ?g path] by auto
  have tgt: "drop (strcspn ?s CHR ''/'') ?s = CHR ''/'' # path" using strchr_first(2)[OF wf] by simp
  have plen: "length path \<le> 1492" using len by (simp add: direct_url_def)
  obtain r2 where r2: "strcat r (CHR ''/'' # path) = Inr r2"
      "holds_str r2 REQUEST_SIZE ((method_name (w_method g) @ '' '') @ CHR ''/'' # path)"
    using strcat_ok[OF r(3), of "CHR ''/'' # path"] nul plen method_name_simps(2)[of "w_method g"] by auto
  let ?g' = "?g\<lparr>w_host := a, w_proxyport := p\<rparr>"
  have hl: "length h < 64" using fits by (simp add: url_fits_def)
  obtain r3 where r3: "append_headers ?g' r2 = Inr r3"
      "holds_str r3 REQUEST_SIZE (((method_name (w_method g) @ '' '') @ CHR ''/'' # path) @ header_text ?g' h)"
    using append_headers_ok[OF r2(2) _ _ hl, of ?g'] plen method_name_simps(2)[of "w_method g"] ph(2) by auto
  have ht: "header_text ?g' h = header_text (adjust_version g) h" "w_http10 ?g' = w_http10 (adjust_version g)"
    by (simp_all add: header_text_def)
  have "build_request ?url g = Inr (?g'\<lparr>w_request := r3\<rparr>)"
    using r(1,2) r2(1) r3(1) ph(1) tgt len noproxy direct_url_split[of h pt path] strchr_first(1)[OF wf, of path]
    by (simp add: build_request_def request_target_def Let_def)
  then show ?thesis using r3(2) ph(2,3) ht by simp
qed

section \<open>What the options can set\<close>

definition wb_ranges :: "wb \<Rightarrow> bool" where
  "wb_ranges g \<longleftrightarrow> w_method g \<in> {0, 1, 2, 3} \<and> w_http10 g \<in> {0, 1, 2} \<and>
     w_clients g \<in> {INT_MIN..INT_MAX} \<and> w_benchtime g \<in> {INT_MIN..INT_MAX}"

lemma atoi_range: "atoi s = Inr n \<Longrightarrow> n \<in> {INT_MIN..INT_MAX}"
  by (auto simp: atoi_def result_iff split: option.splits)

lemma getopt_long_ranges: "getopt_long t g = (opt, optarg, g') \<Longrightarrow> wb_ranges g \<Longrightarrow> wb_ranges g'"
proof (induction t g rule: getopt_long.induct)
  case (1 name arg g)
  have m: "m \<in> {0, 1, 2, 3}" if "map_of long_options name = Some (b, Set_method m)" for b m
    using map_of_SomeD[OF that] by (auto simp: long_options_def)
  have "wb_ranges (snd (opt_action_run act g))" if "map_of long_options name = Some (b, act)" for b act
    using m that 1(2) by (cases act) (auto simp: wb_ranges_def)
  then show ?case using 1 by (auto split: option.splits if_splits prod.splits)
next
  case (2 c arg g)
  then show ?case by (auto split: option.splits if_splits)
qed

lemma wb_ranges_updates [simp]:
  "wb_ranges (g\<lparr>w_force := n\<rparr>) = wb_ranges g" "wb_ranges (g\<lparr>w_force_reload := n\<rparr>) = wb_ranges g"
  "wb_ranges (g\<lparr>w_proxyhost := h\<rparr>) = wb_ranges g" "wb_ranges (g\<lparr>w_proxyhost := h, w_proxyport := n\<rparr>) = wb_ranges g"
  "v \<in> {0, 1, 2} \<Longrightarrow> wb_ranges g \<Longrightarrow> wb_ranges (g\<lparr>w_http10 := v\<rparr>)"
  "n \<in> {INT_MIN..INT_MAX} \<Longrightarrow> wb_ranges g \<Longrightarrow> wb_ranges (g\<lparr>w_clients := n\<rparr>)"
  "n \<in> {INT_MIN..INT_MAX} \<Longrightarrow> wb_ranges g \<Longrightarrow> wb_ranges (g\<lparr>w_benchtime := n\<rparr>)"
  by (simp_all add: wb_ranges_def)

lemma proxy_option_ranges: "proxy_option optarg g = Inr g' \<Longrightarrow> wb_ranges g \<Longrightarrow> wb_ranges g'"
  by (auto simp: proxy_option_def result_iff split: option.splits if_splits)

lemma post_atoi: "(\<And>n. n \<in> {INT_MIN..INT_MAX} \<Longrightarrow> P (f n)) \<Longrightarrow> post P (rbind (atoi s) (\<lambda>n. Inr (f n)))"
  using atoi_range[of s] by (auto simp: post_def result_iff)

lemma main_option_post: "wb_ranges g \<Longrightarrow> post wb_ranges (main_option (Some c) optarg g)"
  unfolding main_option_def option.case
  by (intro post_intros post_atoi) (auto simp: post_def dest: proxy_option_ranges)

lemma main_option_ranges: "main_option opt optarg g = Inr g' \<Longrightarrow> wb_ranges g \<Longrightarrow> wb_ranges g'"
  using main_option_post[THEN post_elim] by (cases opt) (auto simp: main_option_def)

lemma main_loop_ranges: "main_loop ts g = Inr g' \<Longrightarrow> wb_ranges g \<Longrightarrow> wb_ranges g'"
proof (induction ts arbitrary: g)
  case (Cons t ts)
  obtain opt optarg g1 where go: "getopt_long t g = (opt, optarg, g1)" by (cases "getopt_long t g") auto
  then obtain g2 where "main_option opt optarg g1 = Inr g2" "main_loop ts g2 = Inr g'"
    using Cons.prems(1) by (auto simp: result_iff)
  then show ?case using Cons.IH main_option_ranges getopt_long_ranges[OF go Cons.prems(2)] by blast
qed simp

lemma parse_host_frame:
  "parse_host s g = Inr g' \<Longrightarrow> \<exists>h p. g' = g\<lparr>w_host := h, w_proxyport := p\<rparr>"
  by (auto simp: parse_host_def result_iff split: option.splits if_splits)
    (metis wb.surjective wb.update_convs(10))+

lemma request_target_frame:
  "request_target url s g r = Inr (g', r') \<Longrightarrow> \<exists>h p. g' = g\<lparr>w_host := h, w_proxyport := p\<rparr>"
  by (auto simp: request_target_def result_iff dest: parse_host_frame split: if_splits)
    (metis wb.surjective wb.update_convs(10,13))+

text \<open>Besides the HTTP version, the request sets the host, the port and the request text only.\<close>

lemma build_request_frame:
  assumes "build_request url g = Inr g'"
  shows "\<exists>h p r. g' = (adjust_version g)\<lparr>w_host := h, w_proxyport := p, w_request := r\<rparr>"
proof -
  let ?g = "(adjust_version g)\<lparr>w_host := bzero MAXHOSTNAMELEN, w_request := bzero REQUEST_SIZE\<rparr>"
  obtain url' s r0 g1 r1 r where "request_target url' s ?g r0 = Inr (g1, r1)" "g' = g1\<lparr>w_request := r\<rparr>"
    using assms
    by (cases "strstr url ''://''") (auto simp: build_request_def Let_def result_iff split: if_splits)
  moreover from this obtain h p where "g1 = ?g\<lparr>w_host := h, w_proxyport := p\<rparr>"
    using request_target_frame by blast
  ultimately show ?thesis by (intro exI[of _ h] exI[of _ p] exI[of _ r]) simp
qed

lemma adjust_version_range:
  "w_http10 g \<in> {0, 1, 2} \<Longrightarrow> w_http10 (adjust_version g) \<in> {0, 1, 2}"
  "w_method g = METHOD_HEAD \<Longrightarrow> 1 \<le> w_http10 (adjust_version g)"
  "w_method g \<in> {METHOD_OPTIONS, METHOD_TRACE} \<Longrightarrow> w_http10 g \<in> {0, 1, 2} \<Longrightarrow> w_http10 (adjust_version g) = 2"
  by (auto simp: adjust_version_def Let_def)

section \<open>Properties of the request\<close>

text \<open>
  C34. For a URL \<^verbatim>\<open>http://host[:port]/path\<close> of at most 1500 characters and no proxy,
  \<^verbatim>\<open>build_request\<close> sets the host, the port (80 for port 0) and a request that asks for
  \<^verbatim>\<open>/path\<close> with the method and the HTTP version the method needs, then the headers of that
  version; the text always fits the array of 2048 bytes.
\<close>

theorem build_request_direct:
  assumes noproxy: "w_proxyhost g = None" and wf: "url_wf h pt" and fits: "url_fits h pt"
    and len: "length (direct_url h pt path) \<le> 1500" and nul: "NUL \<notin> set path"
  shows "\<exists>g'. build_request (direct_url h pt path) g = Inr g' \<and> w_http10 g' = w_http10 (adjust_version g) \<and>
     holds_str (w_host g') MAXHOSTNAMELEN h \<and> url_port pt (w_proxyport g) (w_proxyport g') \<and>
     holds_str (w_request g') REQUEST_SIZE
       (method_name (w_method g) @ '' /'' @ path @ header_text (adjust_version g) h)"
  by (rule build_request_direct_ok[OF assms])

theorem build_request_direct_witness:
  "\<exists>g'. build_request ''http://a:81/x'' wb_start = Inr g' \<and> w_proxyport g' = 81 \<and>
     c_str (w_request g') = Inr (''GET /x HTTP/1.0'' @ crlf @ ''User-Agent: WebBench 1.5'' @ crlf @ ''Host: a'' @ crlf @ crlf)"
proof -
  have "atoi ''81'' = Inr 81" by code_simp
  moreover have "url_wf ''a'' (Some ''81'')" by (simp add: url_wf_def)
  ultimately show ?thesis
    using build_request_direct[of wb_start "''a''" "Some ''81''" "''x''"]
    by (auto simp: wb_start_def url_fits_def direct_url_def port_text_def url_port_def holds_str_def
        adjust_version_def header_text_def method_name_def)
qed

text \<open>
  With a proxy the request asks for the whole URL, whatever its scheme, and has no
  \<^verbatim>\<open>Host\<close> line; a reload adds \<^verbatim>\<open>Pragma: no-cache\<close>. The proxy's host and port are kept.
\<close>

theorem build_request_proxy:
  assumes px: "w_proxyhost g = Some ph" and p: "strstr url ''://'' = Some p" and sl: "CHR ''/'' \<in> set (drop (p + 3) url)"
    and len: "length url \<le> 1500" and nul: "NUL \<notin> set url"
  shows "\<exists>g'. build_request url g = Inr g' \<and> w_proxyhost g' = Some ph \<and> w_proxyport g' = w_proxyport g \<and>
     holds_str (w_request g') REQUEST_SIZE
       (method_name (w_method g) @ '' '' @ url @ header_text (adjust_version g) [])"
proof -
  let ?g = "adjust_version (g\<lparr>w_host := bzero MAXHOSTNAMELEN, w_request := bzero REQUEST_SIZE\<rparr>)"
  obtain r r0 where r: "strcpy (bzero REQUEST_SIZE) (method_name (w_method g)) = Inr r0" "strcat r0 '' '' = Inr r"
      "holds_str r REQUEST_SIZE (method_name (w_method g) @ '' '')"
    using request_start by blast
  obtain r2 where r2: "strcat r url = Inr r2" "holds_str r2 REQUEST_SIZE ((method_name (w_method g) @ '' '') @ url)"
    using strcat_ok[OF r(3), of url] nul len method_name_simps(2)[of "w_method g"] by auto
  obtain r3 where r3: "append_headers ?g r2 = Inr r3"
      "holds_str r3 REQUEST_SIZE (((method_name (w_method g) @ '' '') @ url) @ header_text ?g [])"
    using append_headers_ok[OF r2(2), of ?g "[]"] len px method_name_simps(2)[of "w_method g"] by auto
  have "strchr (drop (p + 3) url) CHR ''/'' \<noteq> None" using sl by (simp only: strchr_None_iff not_not)
  then have "build_request url g = Inr (?g\<lparr>w_request := r3\<rparr>)"
    using r(1,2) r2(1) r3(1) p len px by (auto simp: build_request_def request_target_def Let_def)
  then show ?thesis using r3(2) px by simp
qed

theorem build_request_proxy_witness:
  "\<exists>g'. build_request ''ftp://a/'' (wb_start\<lparr>w_proxyhost := Some ''p'', w_http10 := 0\<rparr>) = Inr g' \<and>
     c_str (w_request g') = Inr (''GET ftp://a/'' @ crlf)"
  using build_request_proxy[of "wb_start\<lparr>w_proxyhost := Some ''p'', w_http10 := 0\<rparr>" "''p''" "''ftp://a/''" 3]
  by (auto simp: wb_start_def holds_str_def header_text_def adjust_version_def method_name_def)

text \<open>
  C37. \<^verbatim>\<open>build_request\<close> exits, with the documented code 2 for a bad parameter, exactly for a URL
  without \<^verbatim>\<open>://\<close>, of more than 1500 characters, with another scheme than \<^verbatim>\<open>http\<close> when there is no
  proxy, or without a slash after the host.
\<close>

theorem build_request_rejects:
  "build_request url g = Inl (Exit c) \<longleftrightarrow> c = 2 \<and>
     (case strstr url ''://'' of None \<Rightarrow> True
      | Some p \<Rightarrow> length url > 1500 \<or> w_proxyhost g = None \<and> \<not> prefix_nocase ''http://'' url \<or>
          CHR ''/'' \<notin> set (drop (p + 3) url))"
proof -
  obtain r r0 where r: "strcpy (bzero REQUEST_SIZE) (method_name (w_method g)) = Inr r0" "strcat r0 '' '' = Inr r"
    using request_start by blast
  show ?thesis
    using r no_exit(4) no_exit(5) no_exit(1)
    by (auto simp: build_request_def request_target_def Let_def result_iff strchr_None_iff split: option.splits if_splits)
qed

theorem build_request_rejects_witness: "build_request ''ftp://a/'' wb_start = Inl (Exit 2)"
proof -
  have "strstr ''ftp://a/'' ''://'' = Some 3" by simp
  moreover have "\<not> prefix_nocase ''http://'' ''ftp://a/''" by code_simp
  ultimately show ?thesis using build_request_rejects[of "''ftp://a/''" wb_start 2] by (simp add: wb_start_def)
qed

text \<open>
  A host of more than 64 characters, or a port field of more than 10, makes \<^verbatim>\<open>strncpy\<close> write past
  the global array \<^verbatim>\<open>host[64]\<close> or the local array \<^verbatim>\<open>tmp[10]\<close>: nothing bounds the copies.
\<close>

theorem build_request_overflow:
  assumes "w_proxyhost g = None" "url_wf h pt" "length (direct_url h pt path) \<le> 1500"
    and "MAXHOSTNAMELEN < length h \<or> (\<exists>ds. pt = Some ds \<and> 10 < length ds)"
  shows "build_request (direct_url h pt path) g = Inl (Undefined Out_of_bounds)"
proof -
  let ?s = "h @ port_text pt @ CHR ''/'' # path"
  let ?g = "adjust_version (g\<lparr>w_host := bzero MAXHOSTNAMELEN, w_request := bzero REQUEST_SIZE\<rparr>)"
  obtain r r0 where r: "strcpy (bzero REQUEST_SIZE) (method_name (w_method g)) = Inr r0" "strcat r0 '' '' = Inr r"
    using request_start by blast
  have "parse_host ?s ?g = Inl (Undefined Out_of_bounds)"
    by (rule parse_host_overflow[OF assms(2) _ assms(4)]) simp
  then show ?thesis
    using r assms(1,3) direct_url_split[of h pt path] strchr_first(1)[OF assms(2), of path]
    by (simp add: build_request_def request_target_def Let_def)
qed

theorem build_request_overflow_witness:
  "build_request (direct_url (replicate 65 CHR ''a'') None []) wb_start = Inl (Undefined Out_of_bounds)"
  by (rule build_request_overflow) (simp_all add: wb_start_def url_wf_def direct_url_def port_text_def)

section \<open>Properties of the options\<close>

text \<open>
  The proxy option is split at its last colon: a missing host or port ends the program with
  code 2; otherwise the text before the colon is the host and the number after it the port.
\<close>

theorem proxy_option_split:
  assumes "CHR '':'' \<notin> set p" "atoi p = Inr n"
  shows "proxy_option (h @ CHR '':'' # p) g =
     (if h = [] \<or> p = [] then Inl (Exit 2)
      else Inr (g\<lparr>w_proxyhost := Some h, w_proxyport := n\<rparr>))"
  using strrchr_append[OF assms(1), of h] assms(2) by (simp add: proxy_option_def)

theorem proxy_option_split_witness:
  "proxy_option ''h:81'' wb_start = Inr (wb_start\<lparr>w_proxyhost := Some ''h'', w_proxyport := 81\<rparr>)"
proof -
  have "atoi ''81'' = Inr 81" by code_simp
  with proxy_option_split[of "''81''" 81 "''h''" wb_start] show ?thesis by simp
qed

text \<open>
  Whatever the command line, when the set-up succeeds the method and the HTTP version are
  among the known ones, the version is one the method exists in, and the number of clients and
  the run time are not 0 (they may be negative).
\<close>

theorem main_setup_ranges:
  assumes "main_setup opts operands = Inr g"
  shows "wb_ranges g \<and> w_clients g \<noteq> 0 \<and> w_benchtime g \<noteq> 0 \<and>
     (w_method g = METHOD_HEAD \<longrightarrow> 1 \<le> w_http10 g) \<and>
     (w_method g \<in> {METHOD_OPTIONS, METHOD_TRACE} \<longrightarrow> w_http10 g = 2)"
proof -
  obtain g0 url where g0: "main_loop opts wb_start = Inr g0" "build_request url (main_defaults g0) = Inr g"
    using assms by (cases operands) (auto simp: main_setup_def result_iff split: if_splits)
  have "wb_ranges g0" using main_loop_ranges[OF g0(1)] by (simp add: wb_ranges_def wb_start_def)
  then have d: "wb_ranges (main_defaults g0)" "w_clients (main_defaults g0) \<noteq> 0" "w_benchtime (main_defaults g0) \<noteq> 0"
    by (auto simp: main_defaults_def wb_ranges_def Let_def)
  obtain h p r where "g = (adjust_version (main_defaults g0))\<lparr>w_host := h, w_proxyport := p, w_request := r\<rparr>"
    using build_request_frame[OF g0(2)] by blast
  then show ?thesis using d adjust_version_range[of "main_defaults g0"] by (simp add: wb_ranges_def)
qed

theorem main_setup_ranges_witness:
  "\<exists>g. main_setup [Long ''trace'' None, Short CHR ''c'' (Some ''0'')] [''http://a/''] = Inr g \<and> w_clients g \<noteq> 0 \<and> w_http10 g = 2"
proof -
  let ?opts = "[Long ''trace'' None, Short CHR ''c'' (Some ''0'')]" and ?g = "wb_start\<lparr>w_method := METHOD_TRACE, w_clients := 0\<rparr>"
  have "atoi ''0'' = Inr 0" by code_simp
  then have "main_loop ?opts wb_start = Inr ?g"
    by (simp add: long_options_def short_options_def main_option_def)
  moreover obtain g where g: "build_request ''http://a/'' (main_defaults ?g) = Inr g"
    using build_request_direct_ok[of "main_defaults ?g" "''a''" None "[]"]
    by (auto simp: wb_start_def main_defaults_def url_wf_def url_fits_def direct_url_def port_text_def)
  ultimately have run: "main_setup ?opts [''http://a/''] = Inr g" by (simp add: main_setup_def)
  moreover obtain h p r where "g = (adjust_version (main_defaults ?g))\<lparr>w_host := h, w_proxyport := p, w_request := r\<rparr>"
    using build_request_frame[OF g] by blast
  then have "w_method g = METHOD_TRACE" by (simp add: main_defaults_def wb_start_def)
  ultimately show ?thesis using main_setup_ranges[OF run] by simp
qed

end
