(* ===== verification/Bench.thy ===== *)
theory Bench
  imports Webbench
begin

unbundle bit_operations_syntax

text \<open>
  The measuring part of the load generator (src/webbench-1.5/webbench.c and socket.c): connecting,
  the client loop \<^verbatim>\<open>benchcore\<close>, and \<^verbatim>\<open>bench\<close>, which forks the clients and adds up what they report
  through a pipe. Answers of the kernel and of the resolver are arguments.
\<close>

section \<open>Connecting\<close>

record sockaddr_in =
  sin_family :: int
  sin_port :: "16 word"
  sin_addr :: "32 word"
  sin_zero :: "64 word"

abbreviation (input) AF_INET :: int where "AF_INET \<equiv> 2"
abbreviation (input) INADDR_NONE :: "32 word" where "INADDR_NONE \<equiv> 0xFFFFFFFF"

text \<open>The resolver: \<^verbatim>\<open>inet_addr\<close> and \<^verbatim>\<open>gethostbyname\<close>.\<close>

record resolver =
  inet_addr :: "string \<Rightarrow> 32 word"
  gethostbyname :: "string \<Rightarrow> 32 word option"

definition htons :: "16 word \<Rightarrow> 16 word" where
  "htons w = push_bit 8 w OR drop_bit 8 w"

text \<open>
  \<^verbatim>\<open>inaddr\<close> is an \<^verbatim>\<open>unsigned long\<close>: on a 64-bit little-endian machine the \<^verbatim>\<open>memcpy\<close> of its 8 bytes fills
  the 4 bytes of \<^verbatim>\<open>sin_addr\<close> and the first 4 of \<^verbatim>\<open>sin_zero\<close>.
\<close>

definition copy_ulong :: "64 word \<Rightarrow> sockaddr_in \<Rightarrow> sockaddr_in" where
  "copy_ulong w ad = ad\<lparr>sin_addr := ucast w, sin_zero := (sin_zero ad AND NOT (mask 32)) OR drop_bit 32 w\<rparr>"

definition Socket_addr :: "resolver \<Rightarrow> string \<Rightarrow> int \<Rightarrow> sockaddr_in option" where
  "Socket_addr rv host clientPort =
     (let ad = \<lparr>sin_family = AF_INET, sin_port = 0, sin_addr = 0, sin_zero = 0\<rparr>;
          inaddr = ucast (inet_addr rv host) :: 64 word
      in map_option (\<lambda>ad. ad\<lparr>sin_port := htons (word_of_int clientPort)\<rparr>)
        (if inaddr \<noteq> ucast INADDR_NONE then Some (copy_ulong inaddr ad)
         else (case gethostbyname rv host of None \<Rightarrow> None
               | Some h \<Rightarrow> Some (ad\<lparr>sin_addr := h\<rparr>))))"

text \<open>\<^verbatim>\<open>Socket\<close>: the answers of \<^verbatim>\<open>socket\<close> and \<^verbatim>\<open>connect\<close>, and the open descriptors before and after.\<close>

definition Socket :: "resolver \<Rightarrow> int \<Rightarrow> (sockaddr_in \<Rightarrow> int) \<Rightarrow> string \<Rightarrow> int \<Rightarrow> int set \<Rightarrow> int \<times> int set" where
  "Socket rv socket connect host clientPort fds =
     (case Socket_addr rv host clientPort of
        None \<Rightarrow> (- 1, fds)
      | Some ad \<Rightarrow>
        (let sock = socket in
         if sock < 0 then (sock, fds)
         else let fds = insert sock fds in
           if connect ad < 0 then (- 1, fds) else (sock, fds)))"

section \<open>One client\<close>

text \<open>
  One turn of the client loop, as the kernel answers it. The alarm signal can arrive at any time,
  but \<^verbatim>\<open>timerexpired\<close> is read only at the top of the two loops, so it is enough to say whether it has
  come by then: before the first read, during each read, and by the end of the turn.
\<close>

record attempt =
  at_socket :: int
  at_connect :: "sockaddr_in \<Rightarrow> int"
  at_write :: int
  at_shutdown :: int
  at_alarm_sent :: bool
  at_reads :: "(int \<times> bool) list"
  at_close :: int
  at_alarm_end :: bool

definition ring :: "bool \<Rightarrow> wb \<Rightarrow> wb" where
  "ring b g = (if b then alarm_handler g else g)"

definition inc_failed :: "wb \<Rightarrow> wb result" where
  "inc_failed g = rbind (cint (w_failed g + 1)) (\<lambda>n. Inr (g\<lparr>w_failed := n\<rparr>))"

definition inc_speed :: "wb \<Rightarrow> wb result" where
  "inc_speed g = rbind (cint (w_speed g + 1)) (\<lambda>n. Inr (g\<lparr>w_speed := n\<rparr>))"

text \<open>The inner loop: true when it leaves by \<^verbatim>\<open>goto nexttry\<close>.\<close>

fun read_loop :: "(int \<times> bool) list \<Rightarrow> wb \<Rightarrow> (bool \<times> wb) result" where
  "read_loop [] g = (if w_timerexpired g \<noteq> 0 then Inr (False, g) else Inl Starved)"
| "read_loop ((i, al) # rs) g =
     (if w_timerexpired g \<noteq> 0 then Inr (False, g)
      else
        let g = ring al g in
        if i < 0 then rbind (inc_failed g) (\<lambda>g. Inr (True, g))
        else if i = 0 then Inr (False, g)
        else rbind (cint (w_bytes g + i)) (\<lambda>n. read_loop rs (g\<lparr>w_bytes := n\<rparr>)))"

text \<open>The body of the outer loop after the check of \<^verbatim>\<open>timerexpired\<close>; \<^verbatim>\<open>close\<close> frees the descriptor whatever
  it returns.\<close>

definition attempt_run :: "resolver \<Rightarrow> string \<Rightarrow> int \<Rightarrow> int \<Rightarrow> attempt \<Rightarrow> wb \<times> int set \<Rightarrow> (wb \<times> int set) result" where
  "attempt_run rv host port rlen a = (\<lambda>(g, fds).
     case Socket rv (at_socket a) (at_connect a) host port fds of (s, fds) \<Rightarrow>
     if s < 0 then rbind (inc_failed g) (\<lambda>g. Inr (g, fds))
     else if rlen \<noteq> at_write a then rbind (inc_failed g) (\<lambda>g. Inr (g, fds - {s}))
     else if w_http10 g = 0 \<and> at_shutdown a \<noteq> 0 then rbind (inc_failed g) (\<lambda>g. Inr (g, fds - {s}))
     else
       rbind (if w_force g = 0 then read_loop (at_reads a) (ring (at_alarm_sent a) g) else Inr (False, g)) (\<lambda>(nexttry, g).
       if nexttry then Inr (g, fds - {s})
       else if at_close a \<noteq> 0 then rbind (inc_failed g) (\<lambda>g. Inr (g, fds - {s}))
       else rbind (inc_speed g) (\<lambda>g. Inr (g, fds - {s}))))"

fun benchcore_loop :: "resolver \<Rightarrow> string \<Rightarrow> int \<Rightarrow> int \<Rightarrow> attempt list \<Rightarrow> wb \<times> int set \<Rightarrow> (wb \<times> int set) result" where
  "benchcore_loop rv host port rlen [] (g, fds) =
     (if w_timerexpired g \<noteq> 0
      then Inr (if 0 < w_failed g then g\<lparr>w_failed := w_failed g - 1\<rparr> else g, fds) else Inl Starved)"
| "benchcore_loop rv host port rlen (a # as) (g, fds) =
     (if w_timerexpired g \<noteq> 0
      then Inr (if 0 < w_failed g then g\<lparr>w_failed := w_failed g - 1\<rparr> else g, fds)
      else rbind (attempt_run rv host port rlen a (g, fds)) (\<lambda>(g, fds).
           benchcore_loop rv host port rlen as (ring (at_alarm_end a) g, fds)))"

definition benchcore :: "resolver \<Rightarrow> bool \<Rightarrow> string \<Rightarrow> int \<Rightarrow> string \<Rightarrow> attempt list \<Rightarrow> wb \<times> int set \<Rightarrow> (wb \<times> int set) result" where
  "benchcore rv sigaction_ok host port req attempts st =
     (if \<not> sigaction_ok then Inl (Exit 3)
      else benchcore_loop rv host port (int (length req)) attempts st)"

section \<open>The parent\<close>

text \<open>The line a child writes, and the parent's \<^verbatim>\<open>fscanf(f, "%d %d %d", &i, &j, &k)\<close>: a variable that is not
  converted keeps its value, an indeterminate one is \<^const>\<open>None\<close>.\<close>

definition report :: "int \<times> int \<times> int \<Rightarrow> string" where
  "report = (\<lambda>(s, f, b). decimal s @ '' '' @ decimal f @ '' '' @ decimal b @ [LF])"

definition fscanf3 :: "string \<Rightarrow> int option \<Rightarrow> int option \<Rightarrow> int option \<Rightarrow>
    nat \<times> int option \<times> int option \<times> int option \<times> string" where
  "fscanf3 s i j k =
     (case scan_int s of None \<Rightarrow> (0, i, j, k, s)
      | Some (i, s) \<Rightarrow>
        (case scan_int s of None \<Rightarrow> (1, Some i, j, k, s)
         | Some (j, s) \<Rightarrow>
           (case scan_int s of None \<Rightarrow> (2, Some i, Some j, k, s)
            | Some (k, s) \<Rightarrow> (3, Some i, Some j, Some k, s))))"

lemma scan_int_shorter: "scan_int s = Some (n, r) \<Longrightarrow> length r < length s"
proof -
  have d: "takeWhile is_digit u \<noteq> [] \<Longrightarrow> length (dropWhile is_digit u) < length u" for u
    by (metis length_append length_greater_0_conv less_add_same_cancel2 takeWhile_dropWhile_id)
  have w: "length (dropWhile is_space s) \<le> length s" by (rule length_dropWhile_le)
  assume "scan_int s = Some (n, r)"
  then show ?thesis
    using w d[of "tl (dropWhile is_space s)"] length_dropWhile_le[of is_digit "tl (dropWhile is_space s)"]
    by (cases "dropWhile is_space s") (auto simp: scan_int_def Let_def split: if_splits)
qed

lemma fscanf3_shorter: "fscanf3 s i j k = (n, i', j', k', r) \<Longrightarrow> \<not> n < 2 \<Longrightarrow> length r < length s"
  by (auto simp: fscanf3_def dest!: scan_int_shorter split: option.splits)

text \<open>The parent's loop over the reports; every turn consumes input, so it ends.\<close>

function collect :: "string \<Rightarrow> int option \<Rightarrow> int option \<Rightarrow> int option \<Rightarrow> wb \<Rightarrow> (int option \<times> wb) result" where
  "collect text i j k g =
     (case fscanf3 text i j k of (pid, i, j, k, text') \<Rightarrow>
      if pid < 2 then Inr (i, g)
      else
        rbind (read_var i) (\<lambda>iv. rbind (cint (w_speed g + iv)) (\<lambda>sp.
        rbind (read_var j) (\<lambda>jv. rbind (cint (w_failed g + jv)) (\<lambda>fl.
        rbind (read_var k) (\<lambda>kv. rbind (cint (w_bytes g + kv)) (\<lambda>by.
        let g = g\<lparr>w_speed := sp, w_failed := fl, w_bytes := by, w_clients := w_clients g - 1\<rparr> in
        if w_clients g = 0 then Inr (i, g)
        else collect text' i j k g)))))))"
  by pat_completeness auto
termination
  by (relation "measure (\<lambda>(text, _). length text)") (auto dest: fscanf3_shorter[OF sym])

declare collect.simps [simp del]

text \<open>The loop that forks: the counter and the last answer of \<^verbatim>\<open>fork\<close>.\<close>

fun fork_loop :: "int \<Rightarrow> int \<Rightarrow> int \<Rightarrow> int list \<Rightarrow> (int \<times> int) result" where
  "fork_loop i clients pid fs =
     (if i < clients then
        (case fs of [] \<Rightarrow> Inl Starved
         | p # fs \<Rightarrow> if p \<le> 0 then Inr (i, p) else fork_loop (i + 1) clients p fs)
      else Inr (i, pid))"

declare fork_loop.simps [simp del]

text \<open>What the kernel answers in the process that runs \<^verbatim>\<open>bench\<close>. \<^verbatim>\<open>be_text\<close> is everything that comes
  out of the pipe; the result is the return value, the globals and what is written to the pipe.\<close>

record bench_env =
  be_resolver :: resolver
  be_socket :: int
  be_connect :: "sockaddr_in \<Rightarrow> int"
  be_pipe :: int
  be_forks :: "int list"
  be_fdopen :: bool
  be_sigaction :: bool
  be_attempts :: "attempt list"
  be_text :: string

definition bench :: "bench_env \<Rightarrow> wb \<Rightarrow> (int option \<times> wb \<times> string) result" where
  "bench e g =
     rbind (case w_proxyhost g of None \<Rightarrow> c_str (w_host g) | Some h \<Rightarrow> Inr h) (\<lambda>h.
     case Socket (be_resolver e) (be_socket e) (be_connect e) h (w_proxyport g) {} of (i, fds) \<Rightarrow>
     if i < 0 then Inr (Some 1, g, [])
     else let fds = fds - {i} in
     if be_pipe e \<noteq> 0 then Inr (Some 3, g, [])
     else
       rbind (fork_loop 0 (w_clients g) 0 (be_forks e)) (\<lambda>(i, pid).
       if pid < 0 then Inr (Some 3, g, [])
       else if pid = 0 then
         rbind (c_str (w_request g)) (\<lambda>req.
         rbind (benchcore (be_resolver e) (be_sigaction e) h (w_proxyport g) req (be_attempts e) (g, fds)) (\<lambda>(g, fds).
         if \<not> be_fdopen e then Inr (Some 3, g, [])
         else Inr (Some 0, g, report (w_speed g, w_failed g, w_bytes g))))
       else if \<not> be_fdopen e then Inr (Some 3, g, [])
       else rbind (collect (be_text e) (Some i) None None (g\<lparr>w_speed := 0, w_failed := 0, w_bytes := 0\<rparr>)) (\<lambda>(i, g).
            Inr (i, g, []))))"

definition webbench_main :: "opt_token list \<Rightarrow> string list \<Rightarrow> bench_env \<Rightarrow> (int option \<times> wb \<times> string) result" where
  "webbench_main opts operands e = rbind (main_setup opts operands) (\<lambda>g. bench e g)"

section \<open>Counting attempts\<close>

text \<open>One attempt is counted exactly once, as a page or as a failure, and bytes are only added.\<close>

definition counted :: "wb \<Rightarrow> wb \<Rightarrow> bool" where
  "counted g g' \<longleftrightarrow> w_bytes g \<le> w_bytes g' \<and>
     (w_speed g' = w_speed g + 1 \<and> w_failed g' = w_failed g \<or> w_speed g' = w_speed g \<and> w_failed g' = w_failed g + 1)"

lemma inc_failed_counted: "w_speed g = w_speed h \<Longrightarrow> w_failed g = w_failed h \<Longrightarrow> w_bytes h \<le> w_bytes g \<Longrightarrow>
    post (counted h) (inc_failed g)"
  by (auto simp: post_def inc_failed_def counted_def result_iff)

lemma inc_speed_counted: "w_speed g = w_speed h \<Longrightarrow> w_failed g = w_failed h \<Longrightarrow> w_bytes h \<le> w_bytes g \<Longrightarrow>
    post (counted h) (inc_speed g)"
  by (auto simp: post_def inc_speed_def counted_def result_iff)

lemma ring_frame [simp]:
  "w_speed (ring b g) = w_speed g" "w_failed (ring b g) = w_failed g" "w_bytes (ring b g) = w_bytes g"
  "w_http10 (ring b g) = w_http10 g" "w_force (ring b g) = w_force g"
  by (simp_all add: ring_def alarm_handler_def)

lemma read_loop_counted:
  "read_loop rs g = Inr (nexttry, g') \<Longrightarrow> w_bytes g \<le> w_bytes g' \<and> w_speed g' = w_speed g \<and>
     w_failed g' = (if nexttry then w_failed g + 1 else w_failed g)"
proof (induction rs g rule: read_loop.induct)
  case (1 g)
  then show ?case by (auto split: if_splits)
next
  case (2 i al rs g)
  show ?case
  proof (cases "w_timerexpired g \<noteq> 0 \<or> i \<le> 0")
    case True
    then show ?thesis using 2(2) by (auto simp: Let_def inc_failed_def result_iff split: if_splits)
  next
    case False
    then show ?thesis using 2(1)[OF _ refl] 2(2) by (fastforce simp: Let_def result_iff)
  qed
qed

lemma attempt_run_counted: "post (\<lambda>(g', fds'). counted g g') (attempt_run rv host port rlen a (g, fds))"
proof -
  obtain s fds1 where s: "Socket rv (at_socket a) (at_connect a) host port fds = (s, fds1)" by fastforce
  have f: "post (\<lambda>(g', fds'). counted g g') (rbind (inc_failed g1) (\<lambda>g. Inr (g, F)))"
    "post (\<lambda>(g', fds'). counted g g') (rbind (inc_speed g1) (\<lambda>g. Inr (g, F)))"
    if "w_speed g1 = w_speed g" "w_failed g1 = w_failed g" "w_bytes g \<le> w_bytes g1" for g1 F
    using inc_failed_counted[OF that] inc_speed_counted[OF that] by (auto simp: post_def result_iff)
  have r: "post (\<lambda>(nexttry, g1). w_bytes g \<le> w_bytes g1 \<and> w_speed g1 = w_speed g \<and>
      w_failed g1 = (if nexttry then w_failed g + 1 else w_failed g))
      (if w_force g = 0 then read_loop (at_reads a) (ring (at_alarm_sent a) g) else Inr (False, g))"
    using read_loop_counted[of "at_reads a" "ring (at_alarm_sent a) g"] by (auto simp: post_def)
  have cI: "counted g g1" if "w_bytes g \<le> w_bytes g1" "w_speed g1 = w_speed g" "w_failed g1 = w_failed g + 1" for g1
    using that by (simp add: counted_def)
  show ?thesis unfolding attempt_run_def s prod.case
    by (intro post_if f post_rbind[OF r])
      (auto intro!: post_if f post_Inr cI simp del: if_split split: prod.split)
qed

lemma benchcore_loop_counted:
  assumes "benchcore_loop rv host port rlen as (g, fds) = Inr (g', fds')"
  shows "\<exists>k fl. k \<le> length as \<and> w_speed g' + fl = w_speed g + w_failed g + int k \<and> w_speed g \<le> w_speed g' \<and>
     w_failed g \<le> fl \<and> w_bytes g \<le> w_bytes g' \<and> w_failed g' = (if 0 < fl then fl - 1 else fl)"
  using assms
proof (induction as arbitrary: g fds)
  case Nil
  then show ?case by (intro exI[of _ 0] exI[of _ "w_failed g"]) (auto split: if_splits)
next
  case (Cons a as)
  show ?case
  proof (cases "w_timerexpired g \<noteq> 0")
    case True
    then show ?thesis using Cons.prems by (intro exI[of _ 0] exI[of _ "w_failed g"]) auto
  next
    case False
    then obtain g1 fds1 where a: "attempt_run rv host port rlen a (g, fds) = Inr (g1, fds1)"
        "benchcore_loop rv host port rlen as (ring (at_alarm_end a) g1, fds1) = Inr (g', fds')"
      using Cons.prems by (auto simp: result_iff)
    obtain k fl where k: "k \<le> length as" "w_speed g' + fl = w_speed g1 + w_failed g1 + int k" "w_speed g1 \<le> w_speed g'"
        "w_failed g1 \<le> fl" "w_bytes g1 \<le> w_bytes g'" "w_failed g' = (if 0 < fl then fl - 1 else fl)"
      using Cons.IH[OF a(2)] by auto
    have "counted g g1" using post_elim[OF attempt_run_counted a(1)] by simp
    then show ?thesis using k by (intro exI[of _ "Suc k"] exI[of _ fl]) (auto simp: counted_def)
  qed
qed

section \<open>The client loop ends after the alarm\<close>

definition reads_end :: "(int \<times> bool) list \<Rightarrow> bool" where
  "reads_end rs \<longleftrightarrow> (\<exists>(i, al) \<in> set rs. i \<le> 0 \<or> al)"

definition read_total :: "(int \<times> bool) list \<Rightarrow> int" where
  "read_total rs = sum_list (map (\<lambda>(i, _). max i 0) rs)"

lemma read_total_nonneg: "0 \<le> read_total rs"
  by (auto simp: read_total_def intro!: sum_list_nonneg)

text \<open>The counters are natural numbers with room for \<open>n\<close> more attempts and \<open>b\<close> more bytes.\<close>

definition room :: "wb \<Rightarrow> int \<Rightarrow> int \<Rightarrow> bool" where
  "room g n b \<longleftrightarrow> 0 \<le> w_speed g \<and> 0 \<le> w_failed g \<and> 0 \<le> w_bytes g \<and>
     w_speed g + n \<le> INT_MAX \<and> w_failed g + n \<le> INT_MAX \<and> w_bytes g + b \<le> INT_MAX"

lemma read_loop_expired: "w_timerexpired g \<noteq> 0 \<Longrightarrow> read_loop rs g = Inr (False, g)"
  by (cases rs) auto

lemma inc_room:
  assumes "room g n b" "1 \<le> n"
  shows "\<exists>g'. inc_failed g = Inr g' \<and> room g' (n - 1) b" "\<exists>g'. inc_speed g = Inr g' \<and> room g' (n - 1) b"
  using assms by (auto simp: inc_failed_def inc_speed_def room_def)

lemma room_weaken: "room g n b \<Longrightarrow> m \<le> n \<Longrightarrow> c \<le> b \<Longrightarrow> room g m c"
  by (auto simp: room_def)

lemma room_ring [simp]: "room (ring al g) n b = room g n b"
  by (simp add: room_def)

lemma read_loop_returns:
  assumes "reads_end rs \<or> w_timerexpired g \<noteq> 0" "room g n (read_total rs + b)" "1 \<le> n" "0 \<le> b"
  shows "\<exists>nexttry g'. read_loop rs g = Inr (nexttry, g') \<and> room g' (if nexttry then n - 1 else n) b"
  using assms
proof (induction rs arbitrary: g)
  case Nil
  then show ?case by (auto simp: reads_end_def read_total_def)
next
  case (Cons r rs)
  obtain i al where r: "r = (i, al)" by (cases r)
  have t: "read_total (r # rs) = max i 0 + read_total rs" by (simp add: read_total_def r)
  have nn: "0 \<le> read_total rs" by (rule read_total_nonneg)
  show ?case
  proof (cases "w_timerexpired g \<noteq> 0 \<or> i \<le> 0")
    case True
    have rm: "room (ring al g) n b" using Cons.prems(2) t nn by (auto elim: room_weaken)
    show ?thesis
      using True read_loop_expired[of g "r # rs"] rm inc_room(1)[OF rm Cons.prems(3)]
      by (cases "w_timerexpired g \<noteq> 0") (auto simp: r Let_def)
  next
    case False
    let ?g = "(ring al g)\<lparr>w_bytes := w_bytes g + i\<rparr>"
    have "INT_MIN \<le> w_bytes g + i" "w_bytes g + i \<le> INT_MAX" using Cons.prems(2,4) False t nn by (auto simp: room_def)
    then have run: "read_loop (r # rs) g = read_loop rs ?g" using False by (simp add: r Let_def)
    have "reads_end rs \<or> w_timerexpired ?g \<noteq> 0"
      using Cons.prems(1) False by (auto simp: reads_end_def r ring_def alarm_handler_def)
    moreover have "room ?g n (read_total rs + b)" using Cons.prems(2) False t nn by (auto simp: room_def)
    ultimately show ?thesis unfolding run using Cons.IH Cons.prems(3,4) by blast
  qed
qed

lemma attempt_run_returns:
  assumes "reads_end (at_reads a)" "room g n (read_total (at_reads a) + b)" "1 \<le> n" "0 \<le> b"
  shows "\<exists>g' fds'. attempt_run rv host port rlen a (g, fds) = Inr (g', fds') \<and> room g' (n - 1) b"
proof -
  obtain s fds1 where s: "Socket rv (at_socket a) (at_connect a) host port fds = (s, fds1)" by fastforce
  have rm: "room g n b" using assms(2) read_total_nonneg[of "at_reads a"] by (auto elim: room_weaken)
  have "\<exists>nt g'. (if w_force g = 0 then read_loop (at_reads a) (ring (at_alarm_sent a) g) else Inr (False, g)) = Inr (nt, g') \<and>
      room g' (if nt then n - 1 else n) b"
    using read_loop_returns[of "at_reads a" "ring (at_alarm_sent a) g" n b] assms rm by auto
  then obtain nt g1 where rl: "(if w_force g = 0 then read_loop (at_reads a) (ring (at_alarm_sent a) g) else Inr (False, g)) = Inr (nt, g1)"
      "room g1 (if nt then n - 1 else n) b" by blast
  obtain g2 where g2: "inc_failed g = Inr g2" "room g2 (n - 1) b" using inc_room(1)[OF rm assms(3)] by blast
  have "\<not> nt \<Longrightarrow> (\<exists>g'. inc_failed g1 = Inr g' \<and> room g' (n - 1) b) \<and> (\<exists>g'. inc_speed g1 = Inr g' \<and> room g' (n - 1) b)"
    using inc_room[of g1 n b] rl(2) assms(3) by simp
  then show ?thesis using rl g2 by (cases nt) (auto simp: attempt_run_def s)
qed

lemma benchcore_loop_returns:
  assumes "\<forall>a \<in> set as. reads_end (at_reads a)" "(\<exists>a \<in> set as. at_alarm_end a) \<or> w_timerexpired g \<noteq> 0"
    and "room g (int (length as)) (sum_list (map (\<lambda>a. read_total (at_reads a)) as))"
  shows "\<exists>g' fds'. benchcore_loop rv host port rlen as (g, fds) = Inr (g', fds')"
  using assms
proof (induction as arbitrary: g fds)
  case (Cons a as)
  show ?case
  proof (cases "w_timerexpired g \<noteq> 0")
    case False
    let ?b = "sum_list (map (\<lambda>a. read_total (at_reads a)) as)"
    have "0 \<le> ?b" by (auto intro!: sum_list_nonneg simp: read_total_nonneg)
    then obtain g1 fds1 where a: "attempt_run rv host port rlen a (g, fds) = Inr (g1, fds1)" "room g1 (int (length as)) ?b"
      using attempt_run_returns[of a g "int (length (a # as))" ?b rv host port rlen fds] Cons.prems(1,3) by auto
    have "(\<exists>a \<in> set as. at_alarm_end a) \<or> w_timerexpired (ring (at_alarm_end a) g1) \<noteq> 0"
      using Cons.prems(2) False by (auto simp: ring_def alarm_handler_def)
    then show ?thesis using Cons.IH[of "ring (at_alarm_end a) g1" fds1] a Cons.prems(1) False by simp
  qed simp
qed simp

section \<open>Reports\<close>

lemma scan_int_report:
  "\<forall>c \<in> set w. is_space c \<Longrightarrow> scan_int (w @ decimal n @ CHR '' '' # r) = Some (n, CHR '' '' # r)"
  "\<forall>c \<in> set w. is_space c \<Longrightarrow> scan_int (w @ decimal n @ LF # r) = Some (n, LF # r)"
  by (rule scan_int_decimal; simp add: is_digit_def)+

lemma fscanf3_report:
  assumes "\<forall>c \<in> set w. is_space c"
  shows "fscanf3 (w @ report (s, f, b) @ r) i j k = (3, Some s, Some f, Some b, LF # r)"
  using scan_int_report(1)[OF assms, of s "decimal f @ CHR '' '' # decimal b @ LF # r"]
    scan_int_report(1)[of "'' ''" f "decimal b @ LF # r"] scan_int_report(2)[of "'' ''" b r]
  by (simp add: fscanf3_def report_def is_space_def)

definition sum_of :: "(int \<times> int \<times> int \<Rightarrow> int) \<Rightarrow> (int \<times> int \<times> int) list \<Rightarrow> int" where
  "sum_of p rs = sum_list (map p rs)"

lemma sum_of_simps [simp]: "sum_of p [] = 0" "sum_of p (r # rs) = p r + sum_of p rs"
  by (simp_all add: sum_of_def)

definition reports_ok :: "wb \<Rightarrow> (int \<times> int \<times> int) list \<Rightarrow> bool" where
  "reports_ok g rs \<longleftrightarrow> 0 \<le> w_speed g \<and> 0 \<le> w_failed g \<and> 0 \<le> w_bytes g \<and>
     (\<forall>(s, f, b) \<in> set rs. 0 \<le> s \<and> 0 \<le> f \<and> 0 \<le> b) \<and>
     w_speed g + sum_of fst rs \<le> INT_MAX \<and> w_failed g + sum_of (fst \<circ> snd) rs \<le> INT_MAX \<and>
     w_bytes g + sum_of (snd \<circ> snd) rs \<le> INT_MAX"

lemma sum_of_nonneg:
  "\<forall>(s, f, b) \<in> set rs. 0 \<le> s \<and> 0 \<le> f \<and> 0 \<le> b \<Longrightarrow> 0 \<le> sum_of fst rs \<and> 0 \<le> sum_of (fst \<circ> snd) rs \<and> 0 \<le> sum_of (snd \<circ> snd) rs"
  by (induction rs) auto

lemma collect_reports:
  assumes "rs \<noteq> []" "w_clients g = int (length rs)" "\<forall>c \<in> set w. is_space c" "reports_ok g rs"
  shows "collect (w @ concat (map report rs) @ rest) i j k g =
     Inr (Some (fst (last rs)), g\<lparr>w_speed := w_speed g + sum_of fst rs, w_failed := w_failed g + sum_of (fst \<circ> snd) rs,
        w_bytes := w_bytes g + sum_of (snd \<circ> snd) rs, w_clients := 0\<rparr>)"
  using assms
proof (induction rs arbitrary: w i j k g)
  case (Cons r rs)
  obtain s f b where r: "r = (s, f, b)" by (cases r)
  let ?g = "g\<lparr>w_speed := w_speed g + s, w_failed := w_failed g + f, w_bytes := w_bytes g + b, w_clients := w_clients g - 1\<rparr>"
  have nn: "0 \<le> sum_of fst rs \<and> 0 \<le> sum_of (fst \<circ> snd) rs \<and> 0 \<le> sum_of (snd \<circ> snd) rs" "0 \<le> s" "0 \<le> f" "0 \<le> b"
    using sum_of_nonneg[of rs] Cons.prems(4) by (auto simp: reports_ok_def r)
  have c: "cint (w_speed g + s) = Inr (w_speed g + s)" "cint (w_failed g + f) = Inr (w_failed g + f)"
      "cint (w_bytes g + b) = Inr (w_bytes g + b)"
    using Cons.prems(4) nn by (auto simp: reports_ok_def r)
  have step: "collect (w @ concat (map report (r # rs)) @ rest) i j k g =
      (if w_clients ?g = 0 then Inr (Some s, ?g) else collect (LF # concat (map report rs) @ rest) (Some s) (Some f) (Some b) ?g)"
    using fscanf3_report[OF Cons.prems(3), of s f b "concat (map report rs) @ rest" i j k]
    by (subst collect.simps) (simp add: r c read_var_def Let_def)
  show ?case
  proof (cases "rs = []")
    case True
    then show ?thesis using step Cons.prems(2) by (simp add: r)
  next
    case False
    have "reports_ok ?g rs" using Cons.prems(4) nn by (auto simp: reports_ok_def r)
    then show ?thesis
      using step Cons.IH[OF False, of ?g "[LF]" "Some s" "Some f" "Some b"] Cons.prems(2) False
      by (simp add: r is_space_def add.assoc)
  qed
qed simp

lemma fork_loop_parent:
  "\<forall>p \<in> set fs. 0 < p \<Longrightarrow> clients = i + int (length fs) \<Longrightarrow>
   \<exists>pid. fork_loop i clients pid0 fs = Inr (clients, pid) \<and> (fs \<noteq> [] \<longrightarrow> 0 < pid) \<and> (fs = [] \<longrightarrow> pid = pid0)"
proof (induction fs arbitrary: i pid0)
  case Nil
  then show ?case by (simp add: fork_loop.simps)
next
  case (Cons p fs)
  have "fork_loop i clients pid0 (p # fs) = fork_loop (i + 1) clients p fs"
    using Cons.prems by (subst fork_loop.simps) simp
  then show ?case using Cons.IH[of "i + 1" p] Cons.prems by fastforce
qed

section \<open>Properties of the load generator\<close>

text \<open>
  \<^verbatim>\<open>Socket\<close> connects to the address the resolver gives for the host, an address literal first, and
  to the port modulo 65536: the 8-byte copy of the address into the 4-byte field spills zeros only.
\<close>

theorem Socket_endpoint:
  "Socket_addr rv host p =
     map_option (\<lambda>a. \<lparr>sin_family = AF_INET, sin_port = htons (word_of_int p), sin_addr = a, sin_zero = 0\<rparr>)
       (if inet_addr rv host \<noteq> INADDR_NONE then Some (inet_addr rv host) else gethostbyname rv host) \<and>
   htons (htons (word_of_int p)) = word_of_int p"
proof -
  have d: "drop_bit 32 (ucast (w :: 32 word) :: 64 word) = 0" for w
    by (rule bit_word_eqI) (auto simp: bit_drop_bit_eq bit_ucast_iff dest: bit_imp_le_length)
  have u: "(ucast (ucast w :: 64 word) :: 32 word) = w" for w
    by (rule bit_word_eqI) (auto simp: bit_ucast_iff)
  have n: "(ucast (w :: 32 word) :: 64 word) = 0xFFFFFFFF \<longleftrightarrow> w = 0xFFFFFFFF" for w
  proof
    assume "(ucast w :: 64 word) = 0xFFFFFFFF"
    then have "(ucast (ucast w :: 64 word) :: 32 word) = 0xFFFFFFFF" by simp
    then show "w = 0xFFFFFFFF" unfolding u .
  qed simp
  have h: "htons (htons w) = w" for w :: "16 word"
    by (rule bit_word_eqI) (auto simp: htons_def bit_or_iff bit_push_bit_iff bit_drop_bit_eq)
  show ?thesis using h by (auto simp: Socket_addr_def copy_ulong_def d n u Let_def split: option.split)
qed

text \<open>
  Each turn of the client loop closes the descriptor it opened, except after a failed
  \<^verbatim>\<open>connect\<close>: \<^verbatim>\<open>Socket\<close> then returns \<open>-1\<close> and the new descriptor stays open, one more per refused
  connection.
\<close>

theorem attempt_leaks_socket:
  assumes "attempt_run rv host port rlen a (g, fds) = Inr (g', fds')" "at_socket a \<notin> fds"
  shows "fds' = (if 0 \<le> at_socket a \<and> (\<exists>ad. Socket_addr rv host port = Some ad \<and> at_connect a ad < 0)
     then insert (at_socket a) fds else fds)"
proof -
  consider (unresolved) "Socket_addr rv host port = None" | (none) "at_socket a < 0"
    | (some) ad where "Socket_addr rv host port = Some ad" "0 \<le> at_socket a" by fastforce
  then show ?thesis
  proof cases
    case unresolved
    then show ?thesis using assms(1) by (auto simp: attempt_run_def Socket_def result_iff)
  next
    case none
    then show ?thesis using assms(1)
      by (auto simp: attempt_run_def Socket_def result_iff Let_def split: option.splits)
  next
    case some
    have k: "insert (at_socket a) fds - {at_socket a} = fds" using assms(2) by blast
    show ?thesis using assms(1) some k
      by (auto simp: attempt_run_def Socket_def result_iff Let_def split: if_splits)
  qed
qed

definition local_resolver :: resolver where
  "local_resolver = \<lparr>inet_addr = (\<lambda>_. 0x0100007F), gethostbyname = (\<lambda>_. None)\<rparr>"

definition refused :: attempt where
  "refused = \<lparr>at_socket = 5, at_connect = (\<lambda>_. - 1), at_write = 0, at_shutdown = 0, at_alarm_sent = False,
     at_reads = [(0, False)], at_close = 0, at_alarm_end = False\<rparr>"

definition served :: attempt where
  "served = \<lparr>at_socket = 5, at_connect = (\<lambda>_. 0), at_write = 4, at_shutdown = 0, at_alarm_sent = False,
     at_reads = [(100, False), (0, False)], at_close = 0, at_alarm_end = True\<rparr>"

lemma local_addr: "\<exists>ad. Socket_addr local_resolver h p = Some ad"
  by (simp add: Socket_addr_def local_resolver_def Let_def)

lemma refused_run: "attempt_run local_resolver h p 4 refused (wb_start, {}) = Inr (wb_start\<lparr>w_failed := 1\<rparr>, {5})"
  using local_addr[of h p] by (auto simp: attempt_run_def Socket_def refused_def Let_def inc_failed_def wb_start_def)

theorem attempt_leaks_socket_witness:
  "\<exists>fds'. attempt_run local_resolver [] 80 4 refused (wb_start, {}) = Inr (wb_start\<lparr>w_failed := 1\<rparr>, fds') \<and> 5 \<in> fds'"
proof -
  have "\<exists>ad. Socket_addr local_resolver [] 80 = Some ad \<and> at_connect refused ad < 0"
    using local_addr[of "[]" 80] by (simp add: refused_def)
  then show ?thesis
    using attempt_leaks_socket[OF refused_run[of "[]" 80]] refused_run[of "[]" 80] by (simp add: refused_def)
qed

text \<open>
  A client's totals: every turn of the loop is counted once, as a page or as a failure, and no
  count goes down, but when the alarm ends the loop one failure is taken back whenever there is
  one, whether the alarm caused it or not.
\<close>

theorem benchcore_accounting:
  assumes "benchcore rv ok host port req attempts (g, fds) = Inr (g', fds')" "w_failed g = 0" "w_speed g = 0"
  shows "\<exists>turns failures. turns \<le> length attempts \<and> 0 \<le> failures \<and> 0 \<le> w_speed g' \<and>
     w_speed g' + failures = int turns \<and> w_failed g' = (if 0 < failures then failures - 1 else 0) \<and> w_bytes g \<le> w_bytes g'"
  using assms benchcore_loop_counted[of rv host port "int (length req)" attempts g fds g' fds']
  by (auto simp: benchcore_def split: if_splits) fastforce+

theorem benchcore_accounting_witness:
  "\<exists>g' fds'. benchcore local_resolver True [] 80 ''abcd'' [refused, served] (wb_start, {}) = Inr (g', fds') \<and>
     w_speed g' = 1 \<and> w_failed g' = 0 \<and> w_bytes g' = 100"
proof -
  obtain ad where ad: "Socket_addr local_resolver [] 80 = Some ad" using local_addr by blast
  have "attempt_run local_resolver [] 80 4 served (wb_start\<lparr>w_failed := 1\<rparr>, {5}) =
      Inr (wb_start\<lparr>w_failed := 1, w_bytes := 100, w_speed := 1\<rparr>, {})"
    by (simp add: attempt_run_def Socket_def ad served_def Let_def inc_speed_def wb_start_def ring_def)
  then have run: "benchcore local_resolver True [] 80 ''abcd'' [refused, served] (wb_start, {}) =
      Inr (wb_start\<lparr>w_failed := 0, w_bytes := 100, w_speed := 1, w_timerexpired := 1\<rparr>, {})"
    using refused_run[of "[]" 80]
    by (simp add: benchcore_def wb_start_def refused_def[THEN arg_cong, of at_alarm_end]
        served_def[THEN arg_cong, of at_alarm_end] ring_def alarm_handler_def)
  from benchcore_accounting[OF this] show ?thesis using run by (simp add: wb_start_def)
qed

text \<open>
  C35. The client loop ends: if in every turn the server's answer ends (or the alarm comes while it
  is read) and the alarm comes in one of the turns, then \<^verbatim>\<open>benchcore\<close> returns, with no overflow, when
  turns and bytes fit the 32-bit counters.
\<close>

theorem benchcore_returns:
  assumes "\<forall>a \<in> set attempts. reads_end (at_reads a)" "\<exists>a \<in> set attempts. at_alarm_end a"
    and "room g (int (length attempts)) (sum_list (map (\<lambda>a. read_total (at_reads a)) attempts))"
  shows "\<exists>g' fds'. benchcore rv True host port req attempts (g, fds) = Inr (g', fds')"
  using benchcore_loop_returns[of attempts g rv host port "int (length req)" fds] assms by (simp add: benchcore_def)

theorem benchcore_returns_witness:
  "\<exists>g' fds'. benchcore local_resolver True [] 80 [] [refused, served] (wb_start, {}) = Inr (g', fds')"
  by (rule benchcore_returns)
    (auto simp: refused_def served_def reads_end_def read_total_def room_def wb_start_def)

text \<open>
  C36. The parent adds up the clients' reports: when each of the \<open>n\<close> clients writes its line to the
  pipe, in any order, the parent reads exactly these lines and its totals are the sums. But its
  exit code is the number of pages of the last client it read, and not 0 as documented.
\<close>

theorem bench_totals:
  assumes host: "(case w_proxyhost g of None \<Rightarrow> c_str (w_host g) | Some h \<Rightarrow> Inr h) = Inr h"
    and up: "Socket (be_resolver e) (be_socket e) (be_connect e) h (w_proxyport g) {} = (s, fds)" "0 \<le> s"
    and env: "be_pipe e = 0" "be_fdopen e" "\<forall>p \<in> set (be_forks e). 0 < p" "w_clients g = int (length (be_forks e))"
    and reports: "rs \<noteq> []" "length rs = length (be_forks e)" "be_text e = concat (map report rs)"
      "reports_ok (g\<lparr>w_speed := 0, w_failed := 0, w_bytes := 0\<rparr>) rs"
  shows "bench e g = Inr (Some (fst (last rs)),
     g\<lparr>w_speed := sum_of fst rs, w_failed := sum_of (fst \<circ> snd) rs, w_bytes := sum_of (snd \<circ> snd) rs, w_clients := 0\<rparr>, [])"
proof -
  let ?g = "g\<lparr>w_speed := 0, w_failed := 0, w_bytes := 0\<rparr>"
  have "be_forks e \<noteq> []" using reports(1,2) by (cases "be_forks e") auto
  then obtain pid where pid: "fork_loop 0 (w_clients g) 0 (be_forks e) = Inr (w_clients g, pid)" "0 < pid"
    using fork_loop_parent[OF env(3), of "w_clients g" 0 0] env(4) by auto
  have "collect (be_text e) (Some (w_clients g)) None None ?g =
      Inr (Some (fst (last rs)), ?g\<lparr>w_speed := sum_of fst rs, w_failed := sum_of (fst \<circ> snd) rs,
        w_bytes := sum_of (snd \<circ> snd) rs, w_clients := 0\<rparr>)"
    using collect_reports[OF reports(1), of ?g "[]" "[]"] reports env(4) by simp
  then show ?thesis using host up env pid by (simp add: bench_def Let_def)
qed

definition two_clients :: bench_env where
  "two_clients = \<lparr>be_resolver = local_resolver, be_socket = 3, be_connect = (\<lambda>_. 0), be_pipe = 0, be_forks = [101, 102],
     be_fdopen = True, be_sigaction = True, be_attempts = [], be_text = concat (map report [(7, 0, 70), (5, 1, 50)])\<rparr>"

theorem bench_totals_witness:
  "\<exists>g'. bench two_clients (wb_start\<lparr>w_clients := 2\<rparr>) = Inr (Some 5, g', []) \<and> w_speed g' = 12 \<and> w_failed g' = 1 \<and> w_bytes g' = 120"
proof -
  obtain ad where ad: "Socket_addr local_resolver [] 80 = Some ad" using local_addr by blast
  have "c_str (bzero 64) = Inr []" by (simp add: c_str_bzero)
  moreover have "Socket local_resolver 3 (\<lambda>_. 0) [] 80 {} = (3, {3})" by (simp add: Socket_def ad)
  ultimately show ?thesis
    using bench_totals[of "wb_start\<lparr>w_clients := 2\<rparr>" "[]" two_clients 3 "{3}" "[(7, 0, 70), (5, 1, 50)]"]
    by (simp add: two_clients_def wb_start_def reports_ok_def)
qed

text \<open>
  A negative number of clients, which \<^verbatim>\<open>-c\<close> accepts, forks nobody: the process itself takes the
  child's part, runs the client loop, writes its report into the pipe that nobody reads and exits
  with 0 without printing a result.
\<close>

theorem bench_negative_clients:
  assumes host: "(case w_proxyhost g of None \<Rightarrow> c_str (w_host g) | Some h \<Rightarrow> Inr h) = Inr h" "c_str (w_request g) = Inr req"
    and up: "Socket (be_resolver e) (be_socket e) (be_connect e) h (w_proxyport g) {} = (s, fds)" "0 \<le> s"
    and env: "be_pipe e = 0" "be_fdopen e" "w_clients g < 0"
    and core: "benchcore (be_resolver e) (be_sigaction e) h (w_proxyport g) req (be_attempts e) (g, fds - {s}) = Inr (g', fds')"
  shows "bench e g = Inr (Some 0, g', report (w_speed g', w_failed g', w_bytes g'))"
proof -
  have "fork_loop 0 (w_clients g) 0 (be_forks e) = Inr (0, 0)" using env(3) by (subst fork_loop.simps) simp
  then show ?thesis using host up env core by (simp add: bench_def Let_def)
qed

theorem bench_negative_clients_witness:
  "\<exists>g' r. bench (two_clients\<lparr>be_attempts := [refused, served]\<rparr>) (wb_start\<lparr>w_clients := - 1\<rparr>) = Inr (Some 0, g', r)"
proof -
  let ?g = "wb_start\<lparr>w_clients := - 1\<rparr>" and ?e = "two_clients\<lparr>be_attempts := [refused, served]\<rparr>"
  obtain ad where ad: "Socket_addr local_resolver [] 80 = Some ad" using local_addr by blast
  have c: "c_str (bzero 64) = Inr []" "c_str (bzero 2048) = Inr []" by (simp_all add: c_str_bzero)
  have s: "Socket local_resolver 3 (\<lambda>_. 0) [] 80 {} = (3, {3})" by (simp add: Socket_def ad)
  obtain g' fds' where "benchcore_loop local_resolver [] 80 0 [refused, served] (?g, {}) = Inr (g', fds')"
    using benchcore_loop_returns[of "[refused, served]" ?g local_resolver "[]" 80 0 "{}"]
    by (auto simp: refused_def served_def reads_end_def read_total_def room_def wb_start_def)
  then show ?thesis
    using bench_negative_clients[of ?g "[]" "[]" ?e 3 "{3}" g' fds'] c s
    by (simp add: two_clients_def wb_start_def benchcore_def)
qed

end
