(* ===== verification/Spec2Isabelle.thy ===== *)
theory Spec2Isabelle
  imports Reactor Logger Async_Log Bench
begin

text \<open>
  \<^bold>\<open>A verification of the high-performance concurrent server and its load generator.\<close>

  \<^bold>\<open>The program.\<close> A reactor-style TCP server in C++ (src/memory, src/log, src/timer, src/threadpool,
  src/net) and the forking HTTP load generator webbench in C (src/webbench-1.5). An acceptor takes
  connections in the thread of its event loop and deals them to worker event loops, which run in a
  thread pool. Each loop polls descriptors through an epoll wrapper and runs the callbacks of its
  connections; a connection keeps an input and an output buffer, each a chunk of a shared memory pool.
  A timer closes idle connections. Everything logs, directly or through a bounded queue and a writer
  thread.

  \<^bold>\<open>The theories.\<close>
  \<^item> \<open>Prelude\<close>: outcomes of C and C++ code (a value, or a fault: failed assertion, exit, exception,
    undefined behaviour), 32-bit integers, bounded arrays, and step systems with their reachable
    states, the interface of every concurrent component (locale \<open>step_system\<close>).
  \<^item> \<open>Chunk\<close>, \<open>Mem_Pool\<close> (memory/chunk.*, mem_pool.*): chunks in an explicit heap that can run out, at the object (a
    null pointer) or at its array (an exception); the free lists and the counters of the pool. The
    contract of a pool is a locale, interpreted on the model; the buffers are proved from it. Lemmas: constructor, allocation, release, their round trip, every history.
  \<^item> \<open>Data_Buf\<close> (memory/data_buf.*): the buffers over the pool. Lemmas: what each operation does to the bytes
    held; the output buffer refines a byte queue; a heap overflow in \<^verbatim>\<open>read_from_fd\<close>.
  \<^item> \<open>Epoll\<close> (net/epoll.*): registration, removal, polling and dispatch; the laws of \<^verbatim>\<open>epoll_ctl\<close> are the
    locale \<open>epoll_kernel\<close>, extended by \<open>roomy_kernel\<close> (additions and changes are not refused for lack of
    resources). Lemmas: the map agrees with the kernel's list; a batch is dispatched in full, for
    callbacks that keep an invariant (locale \<open>dispatcher\<close>).
  \<^item> \<open>Event_Loop\<close> (net/event_loop.*): the loop thread and its callers as a step relation. Lemmas: tasks run in
    order, each once; wake-ups are not lost, and they work; \<^verbatim>\<open>quit\<close> can be missed.
  \<^item> \<open>Tcp_Conn\<close>, \<open>Tcp_Server\<close> (net/tcp_conn.*, tcp_server.*, acceptor.*): connections over the buffers, the
    pollers and the timer; the server's list, round robin, start and accept loop. Lemmas: output is
    watched exactly while bytes are pending; what reading, writing, closing and accepting do, and that
    they touch no other connection; what closing leaves behind.
  \<^item> \<open>Echo\<close> (net/tests/echo_server.cpp, http_for_bench.cpp): the message callbacks and the \<^verbatim>\<open>main\<close> of the two example
    servers. What a callback owes the server is the locale \<open>message_app\<close>, interpreted on both.
  \<^item> \<open>Reactor\<close>: the serial runs of the server, as a step relation over the definitions of the theories above: the
    callbacks of the acceptor, of the worker loops and of the idle timer, on any number of connections, one at
    a time. The locale \<open>app_server\<close> proves the invariant, for any \<open>message_app\<close>; the interpretations on the two
    example servers give the first properties below.
  \<^item> \<open>Threadpool\<close>, \<open>Hash_Map\<close>, \<open>Timer\<close> (threadpool/threadpool.h, timer/*.h): workers, callers, tick thread and
    destructors as step relations. Lemmas: order, no forgotten task, timers are taken live, due and
    as often as registered, and posted in that order; how a cancellation comes too late and the destructors
    can block.
  \<^item> \<open>Log_Queue\<close>, \<open>Logger\<close>, \<open>Async_Log\<close> (log/*): the ring buffer and its interleavings; levels, files and lines;
    the writer thread. Lemmas: the ring refines a list and is FIFO under every interleaving; which file a
    line goes to; when the line buffer is large enough; lines are written in order; how the writer
    ends too early.
  \<^item> \<open>Cstring\<close>, \<open>Webbench\<close>, \<open>Bench\<close> (webbench-1.5/*): the C string functions used; options and the request; the
    client loop and the parent. Lemmas: the exact request, overflows of its arrays, the accounting of
    clients and parent, and that the client loop returns.

  \<^bold>\<open>State and environment.\<close> A class is a record with the member names of the source; an object that is
  pointed to lives in a map from names. An operation returns the new state, or a fault. The kernel and
  the libraries outside the source are arguments: either a function with laws (\<^verbatim>\<open>epoll_ctl\<close>), or the list
  of their answers. A loop over such answers recurses on the list, and ends with the fault \<^const>\<open>Starved\<close>
  when the list is used up; theorems that a loop returns say how many answers are enough (for \<^verbatim>\<open>do_write\<close>,
  as many as bytes are pending, since every successful write takes one at least). No other fuel is
  used. In the step relations of single components (thread pool, timer, event loop, log queue, writer) threads
  interleave at the points where they take a mutex, sleep, or touch shared state outside a mutex; fields marked ghost record history and are read by no operation.

  \<^bold>\<open>Serial runs.\<close> In \<open>Reactor\<close> a step is one callback, one report of \<^verbatim>\<open>epoll_wait\<close>, one turn of the accept loop or
  one closing by the timer, from its beginning to its end; the order is arbitrary, and the timer may fire
  between any two. This is a restriction, which the code does not enforce: no lock orders the callbacks of
  different threads, so they can overlap in time. The properties of \<open>Reactor\<close> are about runs without
  overlap. What goes wrong with overlap, or between two callbacks, is stated where it was found: \<open>send_after_close\<close> in \<open>Tcp_Conn\<close>,
  \<open>timer_cancel_too_late\<close> in \<open>Timer\<close>, \<open>server_timeout_race\<close> below. A worker loop takes part only when a thread
  of the pool runs it, which requires that the thread took its task in the turn of \<^verbatim>\<open>start\<close> that posted it; later the
  task reads a dead variable (\<open>server_start_loops\<close> in \<open>Tcp_Server\<close>). The kernel's answers to a callback are lists, long
  enough for the loops over them to end (as many write answers as an output buffer can hold bytes,
  4194304); \<^verbatim>\<open>FIONREAD\<close> gives a number that fits an \<^verbatim>\<open>int\<close>; a read may fail, find the end of the stream, or come
  back short, which fails an assertion of the code. The server starts with \<^verbatim>\<open>ts_started\<close>, which the source
  does not initialise, found false.

  \<^bold>\<open>Not modelled.\<close> Weak memory: a data race is an interleaving of whole steps. The acceptor's thread is
  taken to be the one that constructs the worker loops, as in the example servers, so \<^verbatim>\<open>add_task\<close> on a
  worker loop runs the task at once. Signal dispositions, the peer address, the flush of a stream, the
  floating-point rates that webbench prints, usage texts, the start of the logger in the \<^verbatim>\<open>main\<close> of the
  examples, and the unit tests.
\<close>

section \<open>Properties of the running servers\<close>

text \<open>
  C1. The echo server, in every serial run (callbacks of the workers, the acceptor and the idle timer in any
  order, one at a time, on the loops whose thread took its task in time) and with any number of connections:
  what was sent to a connection, with what is pending, is made of whole messages of this same connection, in
  order; no message is missing while the connection's messages amount to at most 4 MB. The pending bytes are
  the contents of the output buffer of an open connection, and the poller watches for output exactly while
  there are any; a closed connection got a prefix. Runs in which callbacks overlap in time are not covered.
\<close>

theorem echo_server_streams:
  assumes "roomy_kernel ctl" "reach (srv_start ctl 2) (serial_step ctl (echo_message_cb ctl)) s" "tw_conns (sv_world s) i = Some c"
  shows "\<exists>msgs ms rest. tw_message_calls (sv_world s) i = map (map Some) msgs \<and> subseq ms msgs \<and>
     (length (concat msgs) \<le> 4194304 \<longrightarrow> ms = msgs) \<and> tw_sent (sv_world s) i @ rest = map Some (concat ms) \<and>
     (tc_fd c = - 1 \<or> rest = contents (tc_obuf c) (tw_pool (sv_world s)) \<and> write_interest c (sv_world s) \<and> tc_ibuf c = None)"
proof -
  have "world_inv (\<lambda>msg. msg) (sv_world s)" by (rule app_server.reach_world[OF echo_server[OF assms(1)] assms(2)])
  from conn_invD(3,4)[OF this assms(3)] show ?thesis
    by (cases "tc_fd c = - 1") (auto simp: shut_conn_def open_conn_def streamed_def)
qed

theorem echo_server_streams_witness:
  "\<exists>s i c msgs ms rest. reach (srv_start ctl_free 2) (serial_step ctl_free (echo_message_cb ctl_free)) s \<and> tw_conns (sv_world s) i = Some c \<and> tc_fd c = 20 \<and>
     tw_message_calls (sv_world s) i = map (map Some) msgs \<and> subseq ms msgs \<and> tw_sent (sv_world s) i @ rest = map Some (concat ms)"
proof -
  obtain s i c where s: "reach_echo ctl_free s" "tw_conns (sv_world s) i = Some c" "tc_fd c = 20" by (rule echo_exists[OF ctl_free_roomy])
  then show ?thesis using echo_server_streams[OF ctl_free_roomy s(1,2)] by blast
qed

text \<open>
  C3. The memory of the server in serial runs: whenever no callback is in progress, the chunks handed out by the
  pool are exactly the buffers of the open connections, and no two connections share one. So a connection that
  is closed, by its peer, by an error or by its timer between two callbacks, leaves no chunk behind, and no
  connection writes into another's buffer. (A timer that closes a connection during its message callback can
  leave a chunk behind, see \<open>send_after_close\<close>.)
\<close>

theorem server_memory:
  assumes "roomy_kernel ctl" "reach (srv_start ctl 2) (serial_step ctl (echo_message_cb ctl)) s"
  shows "pool_owns (tw_pool (sv_world s)) (\<Union>{bufs c | i c. tw_conns (sv_world s) i = Some c \<and> tc_fd c \<noteq> - 1}) \<and>
     (\<forall>i j c d. i \<noteq> j \<and> tw_conns (sv_world s) i = Some c \<and> tw_conns (sv_world s) j = Some d \<longrightarrow> bufs c \<inter> bufs d = {})"
proof -
  let ?w = "sv_world s"
  have inv: "world_inv (\<lambda>msg. msg) ?w" by (rule app_server.reach_world[OF echo_server[OF assms(1)] assms(2)])
  have shut: "bufs c = {}" if "tw_conns ?w i = Some c" "tc_fd c = - 1" for i c
    using conn_invD(4)[OF inv that] by (simp add: shut_conn_def)
  have "chunks_held ?w = \<Union>{bufs c | i c. tw_conns ?w i = Some c \<and> tc_fd c \<noteq> - 1}"
    unfolding chunks_held_def ran_def using shut by fastforce
  then have "pool_owns (tw_pool ?w) (\<Union>{bufs c | i c. tw_conns ?w i = Some c \<and> tc_fd c \<noteq> - 1})" using world_invD(1)[OF inv] by simp
  then show ?thesis using world_invD(3)[OF inv] by blast
qed

theorem server_memory_witness:
  "\<exists>s i c. reach (srv_start ctl_free 2) (serial_step ctl_free (echo_message_cb ctl_free)) s \<and> tw_conns (sv_world s) i = Some c \<and>
     pool_owns (tw_pool (sv_world s)) (\<Union>{bufs c | i c. tw_conns (sv_world s) i = Some c \<and> tc_fd c \<noteq> - 1})"
proof -
  obtain s i c where s: "reach_echo ctl_free s" "tw_conns (sv_world s) i = Some c" by (rule echo_exists[OF ctl_free_roomy])
  then show ?thesis using server_memory[OF ctl_free_roomy s(1)] by blast
qed



text \<open>
  C4. One callback, run from its beginning to its end, in every state that a serial run reaches. The callback of a
  pending event returns; or the process ends for lack of memory; or an assertion fails, and this only when the
  descriptor has been removed from the poller since it was reported (\<^verbatim>\<open>execute_cbs\<close>), or when the read of its
  connection got fewer bytes than \<^verbatim>\<open>FIONREAD\<close> had announced (\<^verbatim>\<open>read_from_fd\<close>). Accepting a connection, also when
  the process is out of descriptors, and closing one by the timer, also one that is closed already, always
  return. No behaviour is undefined.
\<close>

theorem server_steps_safe:
  assumes "roomy_kernel ctl" "reach (srv_start ctl 2) (serial_step ctl (echo_message_cb ctl)) s" "\<forall>cb. env_ok (env cb)"
  shows "(\<forall>l fd events. l \<in> set (ts_running (sv_world s)) \<longrightarrow>
      (case loop_dispatch ctl (echo_message_cb ctl) env l [(fd, events)] (sv_world s) of
         Inl f \<Rightarrow> out_of_memory f \<or> f = Assertion \<and> (ep_event_map (tw_pollers (sv_world s) l) fd = None \<or>
           (\<exists>i c. tw_conns (sv_world s) i = Some c \<and> tc_fd c = fd \<and> short_read (env (Do_read_cb i))))
       | Inr w \<Rightarrow> ep_event_map (tw_pollers (sv_world s) l) fd \<noteq> None)) \<and>
     (\<forall>a. accept_ok a (sv_world s) \<longrightarrow> (\<exists>w. accept_turn ctl a (sv_world s) = Inr w)) \<and>
     (\<forall>i. tw_conns (sv_world s) i \<noteq> None \<longrightarrow> (\<exists>w. active_close ctl i (sv_world s) = Inr w))"
  using app_server.step_outcomes[OF echo_server[OF assms(1)] assms(2)] assms(3) by blast

theorem server_steps_safe_witness:
  "\<exists>s i. reach (srv_start ctl_free 2) (serial_step ctl_free (echo_message_cb ctl_free)) s \<and> tw_conns (sv_world s) i \<noteq> None \<and>
     (\<exists>w. active_close ctl_free i (sv_world s) = Inr w) \<and> (\<exists>w. accept_turn ctl_free (Accept_emfile (- 1) (- 1)) (sv_world s) = Inr w)"
proof -
  obtain s i c where s: "reach_echo ctl_free s" "tw_conns (sv_world s) i = Some c" by (rule echo_exists[OF ctl_free_roomy])
  have "- 1 \<notin> tw_open_fds (sv_world s)" by (rule world_invD(7)[OF echo_srv.srv.reach_inv[OF s(1)]])
  then have "accept_ok (Accept_emfile (- 1) (- 1)) (sv_world s)" by simp
  then show ?thesis
    using server_steps_safe[OF ctl_free_roomy s(1), of "\<lambda>_. two_bytes"] two_bytes_ok s by (intro exI[of _ s] exI[of _ i]) simp
qed

text \<open>
  The idle timer can end the server: its callback closes the connection in a thread of the timer's pool,
  whatever the connection's loop is doing. From every reachable state with an open connection whose loop
  waits, there is a run in which an event of that connection has been reported, the timer closes the
  connection, and the dispatch of the event fails the assertion.
\<close>

theorem server_timeout_race:
  assumes "roomy_kernel ctl" "reach (srv_start ctl 2) (serial_step ctl (echo_message_cb ctl)) s"
    and "tw_conns (sv_world s) i = Some c" "tc_fd c \<noteq> - 1" "sv_pending s (tc_loop c) = []" "tc_loop c \<in> set (ts_running (sv_world s))"
  shows "\<exists>s'. reach (srv_start ctl 2) (serial_step ctl (echo_message_cb ctl)) s' \<and> sv_pending s' (tc_loop c) = [(tc_fd c, EPOLLIN)] \<and>
     (\<forall>env. loop_dispatch ctl (echo_message_cb ctl) env (tc_loop c) [(tc_fd c, EPOLLIN)] (sv_world s') = Inl Assertion)"
  by (rule app_server.race[OF echo_server[OF assms(1)] assms(2-6)])

theorem server_timeout_race_witness:
  "\<exists>s l. reach (srv_start ctl_free 2) (serial_step ctl_free (echo_message_cb ctl_free)) s \<and> sv_pending s l = [(20, EPOLLIN)] \<and>
     (\<forall>env. loop_dispatch ctl_free (echo_message_cb ctl_free) env l [(20, EPOLLIN)] (sv_world s) = Inl Assertion)"
proof -
  obtain s i c where s: "reach_echo ctl_free s" "tw_conns (sv_world s) i = Some c" "tc_fd c = 20" "sv_pending s = (\<lambda>_. [])"
      "tc_loop c \<in> set (ts_running (sv_world s))"
    by (rule echo_exists[OF ctl_free_roomy])
  have "tc_fd c \<noteq> - 1" "sv_pending s (tc_loop c) = []" using s(3,4) by simp_all
  from server_timeout_race[OF ctl_free_roomy s(1,2) this s(5)] show ?thesis using s(3) by auto
qed

text \<open>
  C5. The HTTP example, in every serial run (see C1): what was sent to a connection, with what is pending, is the
  fixed page, whole and again and again, at most once for each message it sent, and exactly once for each as
  long as the pages amount to at most 4 MB.
\<close>

theorem http_server_answers:
  assumes "roomy_kernel ctl" "reach (srv_start ctl 4) (serial_step ctl (http_message_cb ctl)) s" "tw_conns (sv_world s) i = Some c"
  shows "\<exists>k rest. k \<le> length (tw_message_calls (sv_world s) i) \<and>
     (length (tw_message_calls (sv_world s) i) * length return_msg \<le> 4194304 \<longrightarrow> k = length (tw_message_calls (sv_world s) i)) \<and>
     tw_sent (sv_world s) i @ rest = map Some (concat (replicate k return_msg)) \<and>
     (tc_fd c = - 1 \<or> rest = contents (tc_obuf c) (tw_pool (sv_world s)) \<and> write_interest c (sv_world s))"
proof -
  let ?w = "sv_world s"
  have inv: "world_inv (\<lambda>_. return_msg) ?w" by (rule app_server.reach_world[OF http_server[OF assms(1)] assms(2)])
  obtain rest where r: "streamed (\<lambda>_. return_msg) (tw_message_calls ?w i) (tw_sent ?w i @ rest)"
      "tc_fd c = - 1 \<or> rest = contents (tc_obuf c) (tw_pool ?w) \<and> write_interest c ?w"
    using conn_invD(3,4)[OF inv assms(3)] by (cases "tc_fd c = - 1") (auto simp: shut_conn_def open_conn_def)
  obtain msgs ms where m: "tw_message_calls ?w i = map (map Some) msgs" "subseq ms msgs"
      "length (concat (map (\<lambda>_. return_msg) msgs)) \<le> 4194304 \<longrightarrow> ms = msgs" "tw_sent ?w i @ rest = map Some (concat (map (\<lambda>_. return_msg) ms))"
    using r(1) by (auto simp: streamed_def)
  have "length ms \<le> length msgs" by (rule list_emb_length[OF m(2)])
  moreover have "length (concat (replicate n return_msg)) = n * length return_msg" for n by (induction n) simp_all
  ultimately show ?thesis using m r(2) by (intro exI[of _ "length ms"] exI[of _ rest]) (simp add: map_replicate_const)
qed

theorem http_server_answers_witness:
  "\<exists>s i c k rest. reach (srv_start ctl_free 4) (serial_step ctl_free (http_message_cb ctl_free)) s \<and> tw_conns (sv_world s) i = Some c \<and>
     k \<le> length (tw_message_calls (sv_world s) i) \<and> tw_sent (sv_world s) i @ rest = map Some (concat (replicate k return_msg))"
proof -
  obtain s i c where s: "reach_http ctl_free s" "tw_conns (sv_world s) i = Some c" by (rule http_exists[OF ctl_free_roomy])
  then show ?thesis using http_server_answers[OF ctl_free_roomy s] by blast
qed

section \<open>One connection of the echo server\<close>

text \<open>
  The echo server, from the acceptance of a connection on: after any sequence of readable and
  writable events (reads that get all the bytes reported, writes that take any number of bytes, fail or
  would block), the bytes sent back are a prefix of the bytes received, in order; those not yet sent are
  the contents of the output buffer, which the poller watches, unless a write failed and the connection
  is closed. The only other outcome is the end of the process for lack of memory. The stream is
  bounded by the 4 MB a buffer may hold.
\<close>

theorem echo_server_stream:
  assumes k: "epoll_kernel ctl" "ctl_accepts ctl"
    and loop: "get_next_loop w = (Some l, w0)" "in_sync (tw_pollers w l)" "ep_event_map (tw_pollers w l) fd = None"
      "fst (ctl EPOLL_CTL_ADD fd EPOLLIN (ep_kernel (tw_pollers w l)))"
    and start: "pool_owns (tw_pool w) out" "fd \<noteq> - 1" "tw_sent w (tw_next w) = []" "ts_msg_cb w"
    and events: "\<forall>e \<in> set es. io_ok limit e" "length (concat (map io_bytes es)) \<le> limit" "limit \<le> 4194304"
  shows "\<exists>w1. accept_one ctl now fd w = Inr w1 \<and>
     (no_memory (echo_run ctl es (tw_next w) w1) \<or>
      (\<exists>w2 c rest. echo_run ctl es (tw_next w) w1 = Inr w2 \<and> tw_conns w2 (tw_next w) = Some c \<and>
        tw_sent w2 (tw_next w) @ rest = map Some (concat (map io_bytes es)) \<and>
        (tc_fd c = - 1 \<or> rest = contents (tc_obuf c) (tw_pool w2) \<and> write_interest c w2)))"
proof -
  obtain w1 where w1: "accept_one ctl now fd w = Inr w1" "echo_state (tw_next w) w1 []"
    using accept_echo_state[OF k(1) loop start] by blast
  have "no_memory (echo_run ctl es (tw_next w) w1) \<or>
     (\<exists>w'. echo_run ctl es (tw_next w) w1 = Inr w' \<and>
        (echo_state (tw_next w) w' (concat (map io_bytes es)) \<or> echo_closed (tw_next w) w' (concat (map io_bytes es))))"
    using echo_run_ok[OF k events(3) w1(2) events(1)] events(2) by simp
  then show ?thesis using w1(1) unfolding echo_state_def echo_closed_def conn_ok_def by blast
qed

theorem echo_server_stream_witness:
  "\<exists>w1. accept_one (ctl_model 8) 50 9 small_server = Inr w1 \<and>
     (no_memory (echo_run (ctl_model 8) [Readable 60 2 [Read_ok ''ab''], Writable [[Write_ok 1], [Write_err EAGAIN]]] 0 w1) \<or>
      (\<exists>w2 rest. echo_run (ctl_model 8) [Readable 60 2 [Read_ok ''ab''], Writable [[Write_ok 1], [Write_err EAGAIN]]] 0 w1 = Inr w2 \<and>
        tw_sent w2 0 @ rest = map Some ''ab''))"
proof -
  let ?es = "[Readable 60 2 [Read_ok ''ab''], Writable [[Write_ok 1], [Write_err EAGAIN]]]"
  have "get_next_loop small_server = (Some 1, small_server\<lparr>ts_next_loop := 0\<rparr>)"
    by (simp add: small_server_def get_next_loop_def new_server_fields)
  moreover have "in_sync (tw_pollers small_server 1)" "ep_event_map (tw_pollers small_server 1) 9 = None"
    "fst (ctl_model 8 EPOLL_CTL_ADD 9 EPOLLIN (ep_kernel (tw_pollers small_server 1)))"
    by (simp_all add: small_server_def new_server_fields epoll_new_def in_sync_def ctl_model_def)
  moreover have "pool_owns (tw_pool small_server) {0}"
    using hi_pool_ok(1) by (simp add: small_server_def new_server_fields buf_ok_def)
  moreover have "tw_next small_server = 0" "tw_sent small_server 0 = []" "ts_msg_cb small_server"
    by (simp_all add: small_server_def new_server_def server_new_def acceptor_new_def timer_new_def threadpool_new_def Let_def)
  moreover have "\<forall>e \<in> set ?es. io_ok 2 e" "concat (map io_bytes ?es) = ''ab''" by auto
  ultimately show ?thesis
    using echo_server_stream[OF ctl_model_kernel[of 8] ctl_model_accepts, of small_server 1 _ 9 "{0}" ?es 2 50] by auto
qed

end
